theory Spec2Isabelle
  imports Main "HOL-Library.Word"
begin

section \<open>The intermediate representation the passes work on\<close>

text \<open>
  The passes are written against the host optimizer's IR. Only what the passes read or
  write is kept: opcodes, the called operand of a call, operands, the metadata
  attachments \<open>unsafe_inst\<close> and \<open>unsafe_line_info\<close>, the debug location, and an
  identity for every instruction. The identity (\<open>ident\<close>) stands for the address of the
  instruction object: the passes keep \<open>Instruction *\<close> in worklists and insert or erase
  at such a pointer, and a call that consumes the result of another instruction refers
  to it through that identity (\<open>InstVal\<close>).
\<close>

datatype opcode =
    Ret | Br | Switch | IndirectBr | Invoke | Resume | Unreachable
  | CleanupRet | CatchRet | CatchSwitch | CallBr
  | Load | Store | AtomicCmpXchg | AtomicRMW | Fence | GetElementPtr
  | BitCast | IntToPtr | PtrToInt | AddrSpaceCast | Call | PHI | OtherOp

fun isTerminatorOp :: "opcode \<Rightarrow> bool" where
  "isTerminatorOp Ret = True"
| "isTerminatorOp Br = True"
| "isTerminatorOp Switch = True"
| "isTerminatorOp IndirectBr = True"
| "isTerminatorOp Invoke = True"
| "isTerminatorOp Resume = True"
| "isTerminatorOp Unreachable = True"
| "isTerminatorOp CleanupRet = True"
| "isTerminatorOp CatchRet = True"
| "isTerminatorOp CatchSwitch = True"
| "isTerminatorOp CallBr = True"
| "isTerminatorOp _ = False"

text \<open>The called operand of a call: inline assembly (asm text, constraints,
  side-effect flag), a function of the module named directly, or anything else.\<close>

datatype called_operand =
    InlineAsm string string bool
  | CalledFunction string
  | IndirectCallee

datatype val =
    InstVal nat
  | ConstInt nat nat
  | GlobalAddr string
  | UndefValue
  | OtherVal

datatype md = MDConstInt nat nat | MDString string | MDOther

record diloc =
  dl_scope :: bool
  dl_file :: "string option"
  dl_line :: nat
  dl_column :: nat

datatype atomic_ordering = SequentiallyConsistent | OtherOrdering

record inst =
  ident :: nat
  opcode :: opcode
  called :: "called_operand option"
  operands :: "val list"
  ordering :: "atomic_ordering option"
  unsafe_inst :: bool
  unsafe_line_info :: "md list option"
  debugLoc :: "diloc option"
  dbgInfoIntrinsic :: bool

type_synonym block = "inst list"

datatype linkage = ExternalLinkage | InternalLinkage

record func =
  fname :: string
  isIntrinsic :: bool
  blocks :: "block list"
  func_id_md :: "md list option"
  fn_linkage :: linkage
  noInline :: bool

text \<open>\<open>F.isDeclaration()\<close>: a function without a body.\<close>

definition isDeclaration :: "func \<Rightarrow> bool" where
  "isDeclaration F = (blocks F = [])"

definition isTerminator :: "inst \<Rightarrow> bool" where
  "isTerminator I = isTerminatorOp (opcode I)"

text \<open>\<open>BB.getTerminator()\<close>: the last instruction when it is a terminator, null otherwise.\<close>

definition getTerminator :: "block \<Rightarrow> inst option" where
  "getTerminator BB =
     (if BB = [] then None
      else if isTerminator (last BB) then Some (last BB) else None)"

definition isCallBase :: "inst \<Rightarrow> bool" where
  "isCallBase I = (opcode I = Call \<or> opcode I = Invoke \<or> opcode I = CallBr)"

text \<open>\<open>StringRef::startswith\<close>.\<close>

definition startswith :: "string \<Rightarrow> string \<Rightarrow> bool" where
  "startswith s p = (take (length p) s = p)"

definition UNSAFE_MARKER_BEGIN :: string where
  "UNSAFE_MARKER_BEGIN = ''nop # marker_begin''"

definition UNSAFE_MARKER_END :: string where
  "UNSAFE_MARKER_END = ''nop # marker_end''"

text \<open>
  \<open>dyn_cast<CallBase>(&I)\<close> followed by \<open>dyn_cast<InlineAsm>\<close> of the called operand
  gives the asm text of an inline-assembly call. An inline-assembly value is never the
  operand of a pointer cast, so \<open>stripPointerCasts()\<close>, which some of the recognizers
  apply first, does not change the outcome.
\<close>

definition calledInlineAsm :: "inst \<Rightarrow> string option" where
  "calledInlineAsm I =
     (if isCallBase I
      then (case called I of Some (InlineAsm s c e) \<Rightarrow> Some s | _ \<Rightarrow> None)
      else None)"

text \<open>A fresh identity for an instruction created inside a function: larger than
  every identity in use there.\<close>

definition fresh_ident :: "block list \<Rightarrow> nat" where
  "fresh_ident bbs = Suc (foldr (\<lambda>I m. max (ident I) m) (concat bbs) 0)"

text \<open>
  \<open>IRBuilder<> B(IP); B.CreateCall(...)\<close> and \<open>B.CreateFence(...)\<close>: the new
  instruction takes the builder's current debug location, which the constructor sets
  from the instruction at the insertion point.
\<close>

definition CreateCall :: "nat \<Rightarrow> diloc option \<Rightarrow> called_operand \<Rightarrow> val list \<Rightarrow> inst" where
  "CreateCall n dl c args =
     \<lparr> ident = n, opcode = Call, called = Some c, operands = args, ordering = None,
       unsafe_inst = False, unsafe_line_info = None, debugLoc = dl,
       dbgInfoIntrinsic = False \<rparr>"

definition CreateFence :: "nat \<Rightarrow> diloc option \<Rightarrow> atomic_ordering \<Rightarrow> inst" where
  "CreateFence n dl ord =
     \<lparr> ident = n, opcode = Fence, called = None, operands = [], ordering = Some ord,
       unsafe_inst = False, unsafe_line_info = None, debugLoc = dl,
       dbgInfoIntrinsic = False \<rparr>"

text \<open>Insertion before the first instruction of the block that has identity \<open>p\<close>.\<close>

fun insertBefore :: "nat \<Rightarrow> inst list \<Rightarrow> block \<Rightarrow> block" where
  "insertBefore p new [] = []"
| "insertBefore p new (I # rest) =
     (if ident I = p then new @ I # rest else I # insertBefore p new rest)"

text \<open>The process environment: the value of \<open>CARGO_PRIMARY_PACKAGE\<close>, if set.
  \<open>P && strcmp(P, "1") == 0\<close>.\<close>

definition isPrimaryPackage :: "string option \<Rightarrow> bool" where
  "isPrimaryPackage env = (case env of None \<Rightarrow> False | Some P \<Rightarrow> P = ''1'')"

datatype PreservedAnalyses = PreservedAll | PreservedNone


section \<open>UnsafeInstCounter\<close>

datatype UnsafeCategory =
  UNSAFE_LOAD | UNSAFE_STORE | UNSAFE_CALL | UNSAFE_CAST | UNSAFE_GEP | UNSAFE_OTHER

record BlockCounts =
  totalInsts :: "32 word"
  totalUnsafeInsts :: "32 word"
  unsafeCounts :: "UnsafeCategory \<Rightarrow> 16 word"

text \<open>The constructor \<open>BlockCounts()\<close>: both totals zero, the array cleared.\<close>

definition BlockCounts_init :: BlockCounts where
  "BlockCounts_init =
     \<lparr> totalInsts = 0, totalUnsafeInsts = 0, unsafeCounts = (\<lambda>c. 0) \<rparr>"

definition hasInstructions :: "BlockCounts \<Rightarrow> bool" where
  "hasInstructions c = (0 < totalInsts c)"

definition hasUnsafeInstructions :: "BlockCounts \<Rightarrow> bool" where
  "hasUnsafeInstructions c = (0 < totalUnsafeInsts c)"

text \<open>\<open>isMarkerInstruction(I, isBegin, isEnd)\<close> of UnsafeInstCounter.cpp: the result and
  the two out-parameters, which it clears first.\<close>

definition IC_isMarkerInstruction :: "inst \<Rightarrow> bool \<times> bool \<times> bool" where
  "IC_isMarkerInstruction I =
     (case calledInlineAsm I of
        None \<Rightarrow> (False, False, False)
      | Some AsmStr \<Rightarrow>
          if AsmStr = UNSAFE_MARKER_BEGIN then (True, True, False)
          else if AsmStr = UNSAFE_MARKER_END then (True, False, True)
          else (False, False, False))"

text \<open>\<open>shouldInstrumentFunction\<close>, the same in UnsafeFunctionTracker.cpp and
  UnsafeInstCounter.cpp.\<close>

definition shouldInstrumentFunction :: "func \<Rightarrow> bool" where
  "shouldInstrumentFunction F =
     (if isDeclaration F \<or> isIntrinsic F then False
      else \<not> startswith (fname F) ''__unsafe_'' \<and> \<not> startswith (fname F) ''llvm.'')"

text \<open>\<open>getUnsafeCategory\<close> returns true on every path and sets the category.\<close>

fun getUnsafeCategory :: "opcode \<Rightarrow> bool \<times> UnsafeCategory" where
  "getUnsafeCategory Load = (True, UNSAFE_LOAD)"
| "getUnsafeCategory Store = (True, UNSAFE_STORE)"
| "getUnsafeCategory AtomicCmpXchg = (True, UNSAFE_STORE)"
| "getUnsafeCategory AtomicRMW = (True, UNSAFE_STORE)"
| "getUnsafeCategory Call = (True, UNSAFE_CALL)"
| "getUnsafeCategory Invoke = (True, UNSAFE_CALL)"
| "getUnsafeCategory CallBr = (True, UNSAFE_CALL)"
| "getUnsafeCategory BitCast = (True, UNSAFE_CAST)"
| "getUnsafeCategory IntToPtr = (True, UNSAFE_CAST)"
| "getUnsafeCategory PtrToInt = (True, UNSAFE_CAST)"
| "getUnsafeCategory AddrSpaceCast = (True, UNSAFE_CAST)"
| "getUnsafeCategory GetElementPtr = (True, UNSAFE_GEP)"
| "getUnsafeCategory _ = (True, UNSAFE_OTHER)"

text \<open>The body of the loop of \<open>analyzeBasicBlock\<close>, on the pair of the counts and the
  flag \<open>inUnsafeRegion\<close>.\<close>

definition analyzeInst :: "inst \<Rightarrow> BlockCounts \<times> bool \<Rightarrow> BlockCounts \<times> bool" where
  "analyzeInst I st =
     (case st of (counts, inUnsafeRegion) \<Rightarrow>
        if dbgInfoIntrinsic I then (counts, inUnsafeRegion)
        else (case IC_isMarkerInstruction I of
          (True, isBegin, isEnd) \<Rightarrow>
            (counts, if isBegin then True else if isEnd then False else inUnsafeRegion)
        | (False, isBegin, isEnd) \<Rightarrow>
            (let counts1 = counts\<lparr> totalInsts := totalInsts counts + 1 \<rparr> in
             if inUnsafeRegion then
               (let counts2 = counts1\<lparr> totalUnsafeInsts := totalUnsafeInsts counts1 + 1 \<rparr> in
                case getUnsafeCategory (opcode I) of
                  (True, category) \<Rightarrow>
                    (counts2\<lparr> unsafeCounts :=
                        (unsafeCounts counts2)(category := unsafeCounts counts2 category + 1) \<rparr>,
                     inUnsafeRegion)
                | (False, category) \<Rightarrow> (counts2, inUnsafeRegion))
             else (counts1, inUnsafeRegion))))"

definition analyzeBasicBlock :: "block \<Rightarrow> BlockCounts" where
  "analyzeBasicBlock BB = fst (fold analyzeInst BB (BlockCounts_init, False))"

definition UINT32_MAX :: "32 word" where
  "UINT32_MAX = 4294967295"

text \<open>
  \<open>getFunctionId\<close>: \<open>UINT32_MAX\<close> when the attachment is missing; otherwise the first
  operand as a constant integer, truncated to the \<open>uint32_t\<close> return type. The two
  \<open>cast<>\<close> abort on any other operand, which is the result \<open>None\<close>.
\<close>

definition getFunctionId :: "func \<Rightarrow> 32 word option" where
  "getFunctionId F =
     (case func_id_md F of
        None \<Rightarrow> Some UINT32_MAX
      | Some (MDConstInt w v # rest) \<Rightarrow> Some (word_of_nat v)
      | Some _ \<Rightarrow> None)"

definition RECORD_BLOCK_FN :: string where
  "RECORD_BLOCK_FN = ''__unsafe_record_block''"

text \<open>The nine constant arguments of the \<open>__unsafe_record_block\<close> call, for the two
  branches of \<open>run\<close>.\<close>

definition recordBlockArgs :: "32 word \<Rightarrow> BlockCounts \<Rightarrow> val list" where
  "recordBlockArgs funcId counts =
     (if \<not> hasUnsafeInstructions counts then
        [ConstInt 32 (unat funcId), ConstInt 32 (unat (totalInsts counts)), ConstInt 32 0,
         ConstInt 16 0, ConstInt 16 0, ConstInt 16 0,
         ConstInt 16 0, ConstInt 16 0, ConstInt 16 0]
      else
        [ConstInt 32 (unat funcId), ConstInt 32 (unat (totalInsts counts)),
         ConstInt 32 (unat (totalUnsafeInsts counts)),
         ConstInt 16 (unat (unsafeCounts counts UNSAFE_LOAD)),
         ConstInt 16 (unat (unsafeCounts counts UNSAFE_STORE)),
         ConstInt 16 (unat (unsafeCounts counts UNSAFE_CALL)),
         ConstInt 16 (unat (unsafeCounts counts UNSAFE_CAST)),
         ConstInt 16 (unat (unsafeCounts counts UNSAFE_GEP)),
         ConstInt 16 (unat (unsafeCounts counts UNSAFE_OTHER))])"

text \<open>
  The loop over the blocks of \<open>UnsafeInstCounterPass::run\<close>. \<open>done\<close> holds the blocks
  already visited (as rewritten), the list argument the blocks still to visit. The
  call is created by \<open>IRBuilder<> Builder(BB.getTerminator())\<close>, which inserts before
  the terminator; a null terminator leaves the builder without an insertion point
  and the source does not return normally (\<open>None\<close>).
\<close>

fun IC_instrumentBlocks ::
  "32 word \<Rightarrow> block list \<Rightarrow> block list \<Rightarrow> (block list \<times> bool) option" where
  "IC_instrumentBlocks funcId done [] = Some (done, False)"
| "IC_instrumentBlocks funcId done (BB # todo) =
     (let counts = analyzeBasicBlock BB in
      if \<not> hasInstructions counts then IC_instrumentBlocks funcId (done @ [BB]) todo
      else
        (case getTerminator BB of
           None \<Rightarrow> None
         | Some T \<Rightarrow>
             (let C = CreateCall (fresh_ident (done @ BB # todo)) (debugLoc T)
                        (CalledFunction RECORD_BLOCK_FN) (recordBlockArgs funcId counts);
                  BB' = butlast BB @ [C, T]
              in case IC_instrumentBlocks funcId (done @ [BB']) todo of
                   None \<Rightarrow> None
                 | Some (bbs, m) \<Rightarrow> Some (bbs, True))))"

text \<open>\<open>UnsafeInstCounterPass::run\<close> on one function. The declaration of
  \<open>__unsafe_record_block\<close> that \<open>getOrCreateRecordBlockFn\<close> adds to the parent module
  is not part of the function and is left out here.\<close>

definition UnsafeInstCounterPass_run ::
  "string option \<Rightarrow> func \<Rightarrow> (func \<times> PreservedAnalyses) option" where
  "UnsafeInstCounterPass_run env F =
     (if \<not> isPrimaryPackage env then Some (F, PreservedAll)
      else if \<not> shouldInstrumentFunction F then Some (F, PreservedAll)
      else (case getFunctionId F of
              None \<Rightarrow> None
            | Some funcId \<Rightarrow>
                if funcId = UINT32_MAX then Some (F, PreservedAll)
                else (case IC_instrumentBlocks funcId [] (blocks F) of
                        None \<Rightarrow> None
                      | Some (bbs, modified) \<Rightarrow>
                          Some (F\<lparr> blocks := bbs \<rparr>,
                                if modified then PreservedNone else PreservedAll))))"

section \<open>InstMarker\<close>

text \<open>\<open>Loc->getFilename()\<close>: the name of the location's file, empty without a file.\<close>

definition getFilename :: "diloc \<Rightarrow> string" where
  "getFilename Loc = (case dl_file Loc of None \<Rightarrow> [] | Some f \<Rightarrow> f)"

definition createUnsafeLineMetadata :: "inst \<Rightarrow> nat \<Rightarrow> string \<Rightarrow> inst" where
  "createUnsafeLineMetadata I Line File =
     I\<lparr> unsafe_line_info := Some [MDConstInt 32 Line, MDString File] \<rparr>"

text \<open>The body of the loops of \<open>captureUnsafeLineInfo\<close>, for one instruction.\<close>

definition captureUnsafeLineInfo_inst :: "inst \<Rightarrow> inst" where
  "captureUnsafeLineInfo_inst I =
     (if unsafe_inst I then
        (case debugLoc I of
           None \<Rightarrow> I
         | Some Loc \<Rightarrow>
             (let Line = dl_line Loc; File = getFilename Loc in
              if Line \<noteq> 0 \<and> File \<noteq> [] then createUnsafeLineMetadata I Line File else I))
      else I)"

definition captureUnsafeLineInfo :: "func \<Rightarrow> func" where
  "captureUnsafeLineInfo F = F\<lparr> blocks := map (map captureUnsafeLineInfo_inst) (blocks F) \<rparr>"

text \<open>The two \<open>InlineAsm::get\<close> values: void function type, the marker text, empty
  constraints, side effects.\<close>

definition AsmMarkerBegin :: called_operand where
  "AsmMarkerBegin = InlineAsm UNSAFE_MARKER_BEGIN [] True"

definition AsmMarkerEnd :: called_operand where
  "AsmMarkerEnd = InlineAsm UNSAFE_MARKER_END [] True"

text \<open>The inner loop of \<open>insertUnsafeMarkers\<close>, on the pair
  \<open>(FirstUnsafeInst, LastUnsafeInst)\<close>; a pointer is the instruction it points to.\<close>

definition findUnsafe :: "inst \<Rightarrow> inst option \<times> inst option \<Rightarrow> inst option \<times> inst option" where
  "findUnsafe I st =
     (case st of (FirstUnsafeInst, LastUnsafeInst) \<Rightarrow>
        if unsafe_inst I
        then ((if FirstUnsafeInst = None then Some I else FirstUnsafeInst), Some I)
        else (FirstUnsafeInst, LastUnsafeInst))"

text \<open>\<open>I->getNextNode()\<close> inside the block: the instruction after the one with identity
  \<open>p\<close>, null at the end of the block.\<close>

fun getNextNode :: "nat \<Rightarrow> block \<Rightarrow> inst option" where
  "getNextNode p [] = None"
| "getNextNode p (I # rest) =
     (if ident I = p then (case rest of [] \<Rightarrow> None | N # others \<Rightarrow> Some N)
      else getNextNode p rest)"

text \<open>
  The body of the loop over the blocks of \<open>insertUnsafeMarkers\<close>. The begin marker gets
  identity \<open>n\<close> and the end marker \<open>Suc n\<close>; \<open>n\<close> is fresh for the function. When the
  last unsafe instruction has no successor the end marker goes before
  \<open>BB.getTerminator()\<close>; a block without terminator leaves that builder without an
  insertion point (\<open>None\<close>).
\<close>

definition insertUnsafeMarkers_block :: "nat \<Rightarrow> block \<Rightarrow> (block \<times> bool) option" where
  "insertUnsafeMarkers_block n BB =
     (case fold findUnsafe BB (None, None) of
        (Some FirstUnsafeInst, Some LastUnsafeInst) \<Rightarrow>
          (let BB1 = insertBefore (ident FirstUnsafeInst)
                       [CreateCall n (debugLoc FirstUnsafeInst) AsmMarkerBegin []] BB
           in case getNextNode (ident LastUnsafeInst) BB1 of
                Some NextInst \<Rightarrow>
                  Some (insertBefore (ident NextInst)
                          [CreateCall (Suc n) (debugLoc NextInst) AsmMarkerEnd []] BB1, True)
              | None \<Rightarrow>
                  (case getTerminator BB1 of
                     None \<Rightarrow> None
                   | Some T \<Rightarrow>
                       Some (butlast BB1 @ [CreateCall (Suc n) (debugLoc T) AsmMarkerEnd [], T],
                             True)))
      | _ \<Rightarrow> Some (BB, False))"

fun insertUnsafeMarkers_blocks :: "block list \<Rightarrow> block list \<Rightarrow> (block list \<times> bool) option" where
  "insertUnsafeMarkers_blocks done [] = Some (done, False)"
| "insertUnsafeMarkers_blocks done (BB # todo) =
     (case insertUnsafeMarkers_block (fresh_ident (done @ BB # todo)) BB of
        None \<Rightarrow> None
      | Some (BB', m) \<Rightarrow>
          (case insertUnsafeMarkers_blocks (done @ [BB']) todo of
             None \<Rightarrow> None
           | Some (bbs, Modified) \<Rightarrow> Some (bbs, m \<or> Modified)))"

definition insertUnsafeMarkers :: "func \<Rightarrow> (func \<times> bool) option" where
  "insertUnsafeMarkers F =
     (case insertUnsafeMarkers_blocks [] (blocks F) of
        None \<Rightarrow> None
      | Some (bbs, Modified) \<Rightarrow> Some (F\<lparr> blocks := bbs \<rparr>, Modified))"

definition InstMarkerPass_run ::
  "string option \<Rightarrow> func \<Rightarrow> (func \<times> PreservedAnalyses) option" where
  "InstMarkerPass_run env F =
     (if \<not> isPrimaryPackage env then Some (F, PreservedAll)
      else (case insertUnsafeMarkers (captureUnsafeLineInfo F) of
              None \<Rightarrow> None
            | Some (F', Modified) \<Rightarrow>
                Some (F', if Modified then PreservedNone else PreservedAll)))"

section \<open>Modules\<close>

record FunctionMetadata =
  fm_id :: "32 word"
  hasUnsafeInst :: "8 word"
  hasUnsafeRegions :: "8 word"
  fm_padding :: "16 word"

text \<open>The initializer of a global variable: an integer constant (width and value), the
  function-metadata table, or a string.\<close>

datatype initializer =
    InitInt nat nat
  | InitTable "FunctionMetadata list"
  | InitString string

record gvar =
  gv_name :: string
  gv_constant :: bool
  gv_linkage :: linkage
  gv_init :: initializer
  gv_align :: "nat option"
  gv_metadata :: "(string \<times> diloc list) list"

text \<open>A module: its functions and global variables in order, the constructor and
  destructor lists (function name and priority), the \<open>llvm.compiler.used\<close> set, and the
  counter from which the symbol table of the module makes a name unique
  (\<open>ValueSymbolTable::LastUnique\<close>).\<close>

record irmodule =
  funcs :: "func list"
  globals :: "gvar list"
  global_ctors :: "(string \<times> nat) list"
  global_dtors :: "(string \<times> nat) list"
  compiler_used :: "string list"
  last_unique :: nat

text \<open>A function declaration as \<open>getOrInsertFunction\<close> creates it.\<close>

definition declareFunction :: "string \<Rightarrow> func" where
  "declareFunction name =
     \<lparr> fname = name, isIntrinsic = startswith name ''llvm.'', blocks = [],
       func_id_md = None, fn_linkage = ExternalLinkage, noInline = False \<rparr>"

text \<open>
  \<open>M.getOrInsertFunction(Name, Ty)\<close>: when the module has a global value of that name it
  is returned, otherwise an external declaration is appended to the module. The
  second component tells whether the callee is a function of the module
  (\<open>dyn_cast<Function>(Callee.getCallee())\<close> succeeds); it is not when a global variable
  has the name.
\<close>

definition getOrInsertFunction :: "irmodule \<Rightarrow> string \<Rightarrow> irmodule \<times> bool" where
  "getOrInsertFunction M name =
     (if list_ex (\<lambda>F. fname F = name) (funcs M) then (M, True)
      else if list_ex (\<lambda>G. gv_name G = name) (globals M) then (M, False)
      else (M\<lparr> funcs := funcs M @ [declareFunction name] \<rparr>, True))"

definition appendToGlobalCtors :: "irmodule \<Rightarrow> string \<Rightarrow> nat \<Rightarrow> irmodule" where
  "appendToGlobalCtors M F priority = M\<lparr> global_ctors := global_ctors M @ [(F, priority)] \<rparr>"

definition appendToGlobalDtors :: "irmodule \<Rightarrow> string \<Rightarrow> nat \<Rightarrow> irmodule" where
  "appendToGlobalDtors M F priority = M\<lparr> global_dtors := global_dtors M @ [(F, priority)] \<rparr>"

text \<open>\<open>Function::Create(void(), InternalLinkage, Name, &M)\<close> with one block \<open>entry\<close>
  holding the given instructions.\<close>

definition createInternalFunction :: "string \<Rightarrow> block \<Rightarrow> func" where
  "createInternalFunction name entry =
     \<lparr> fname = name, isIntrinsic = startswith name ''llvm.'', blocks = [entry],
       func_id_md = None, fn_linkage = InternalLinkage, noInline = False \<rparr>"

text \<open>
  The name a new global value gets in a module. It is the name asked for when no
  global value of the module bears it. Otherwise \<open>makeUniqueName\<close> appends a dot and
  the next value of the counter, in decimal, until the name is borne by none; the
  counter keeps the value reached. As many rounds as there are names in the module
  are enough, the names tried being pairwise different.
\<close>

definition takenNames :: "irmodule \<Rightarrow> string list" where
  "takenNames M = map fname (funcs M) @ map gv_name (globals M)"

definition digit :: "nat \<Rightarrow> char" where
  "digit d = ''0123456789'' ! d"

fun decimal :: "nat \<Rightarrow> string" where
  "decimal n = (if n < 10 then [digit n] else decimal (n div 10) @ [digit (n mod 10)])"

declare decimal.simps [simp del]

fun makeUniqueName :: "nat \<Rightarrow> string list \<Rightarrow> string \<Rightarrow> nat \<Rightarrow> string \<times> nat" where
  "makeUniqueName 0 taken Name LastUnique =
     (Name @ ''.'' @ decimal (Suc LastUnique), Suc LastUnique)"
| "makeUniqueName (Suc rounds) taken Name LastUnique =
     (let UniqueName = Name @ ''.'' @ decimal (Suc LastUnique) in
      if UniqueName \<in> set taken then makeUniqueName rounds taken Name (Suc LastUnique)
      else (UniqueName, Suc LastUnique))"

definition uniqueName :: "irmodule \<Rightarrow> string \<Rightarrow> string \<times> nat" where
  "uniqueName M Name =
     (if Name \<in> set (takenNames M)
      then makeUniqueName (length (takenNames M)) (takenNames M) Name (last_unique M)
      else (Name, last_unique M))"

text \<open>\<open>Builder.CreateRetVoid()\<close> at the end of a block: no debug location.\<close>

definition CreateRetVoid :: "nat \<Rightarrow> inst" where
  "CreateRetVoid n =
     \<lparr> ident = n, opcode = Ret, called = None, operands = [], ordering = None,
       unsafe_inst = False, unsafe_line_info = None, debugLoc = None,
       dbgInfoIntrinsic = False \<rparr>"


section \<open>UnsafeFunctionTracker\<close>

definition INIT_METADATA_FN :: string where
  "INIT_METADATA_FN = ''__unsafe_init_metadata''"

definition RECORD_FUNCTION_FN :: string where
  "RECORD_FUNCTION_FN = ''__unsafe_record_function''"

definition DUMP_STATS_FN :: string where
  "DUMP_STATS_FN = ''__unsafe_dump_stats''"

text \<open>\<open>isMarkerInstruction\<close> and \<open>hasUnsafeMetadata\<close> of UnsafeFunctionTracker.cpp.\<close>

definition FT_isMarkerInstruction :: "inst \<Rightarrow> bool" where
  "FT_isMarkerInstruction I =
     (case calledInlineAsm I of
        None \<Rightarrow> False
      | Some AsmStr \<Rightarrow> AsmStr = UNSAFE_MARKER_BEGIN \<or> AsmStr = UNSAFE_MARKER_END)"

definition hasUnsafeMetadata :: "inst \<Rightarrow> bool" where
  "hasUnsafeMetadata I = unsafe_inst I"

text \<open>
  \<open>analyzeFunction\<close>. The flag \<open>inUnsafeRegion\<close> is declared before the loop over the
  blocks, so it is carried from one block into the next. The inner loop over a block
  yields whether the function has returned true, and the flag at the end of the block.
\<close>

fun analyzeBlock :: "block \<Rightarrow> bool \<Rightarrow> bool \<times> bool" where
  "analyzeBlock [] inUnsafeRegion = (False, inUnsafeRegion)"
| "analyzeBlock (I # rest) inUnsafeRegion =
     (if FT_isMarkerInstruction I then
        (case calledInlineAsm I of
           Some AsmStr \<Rightarrow>
             analyzeBlock rest
               (if AsmStr = UNSAFE_MARKER_BEGIN then True
                else if AsmStr = UNSAFE_MARKER_END then False
                else inUnsafeRegion)
         | None \<Rightarrow> analyzeBlock rest inUnsafeRegion)
      else if inUnsafeRegion \<and> hasUnsafeMetadata I then (True, inUnsafeRegion)
      else analyzeBlock rest inUnsafeRegion)"

fun analyzeBlocks :: "block list \<Rightarrow> bool \<Rightarrow> bool" where
  "analyzeBlocks [] inUnsafeRegion = False"
| "analyzeBlocks (BB # rest) inUnsafeRegion =
     (case analyzeBlock BB inUnsafeRegion of
        (True, r) \<Rightarrow> True
      | (False, r) \<Rightarrow> analyzeBlocks rest r)"

definition analyzeFunction :: "func \<Rightarrow> bool" where
  "analyzeFunction F = analyzeBlocks (blocks F) False"

text \<open>
  Phase 1 of \<open>run\<close>: the loop over the functions of the module; \<open>pos\<close> is the position
  of the function in the module. It yields the funcs with their attachment, the
  vector \<open>metadata\<close> and the vector \<open>functionsToInstrument\<close> (as positions in the module).
\<close>

fun assignIds ::
  "func list \<Rightarrow> nat \<Rightarrow> 32 word \<Rightarrow> func list \<times> FunctionMetadata list \<times> nat list" where
  "assignIds [] pos nextId = ([], [], [])"
| "assignIds (F # Fs) pos nextId =
     (if \<not> shouldInstrumentFunction F then
        (case assignIds Fs (Suc pos) nextId of
           (Fs', metadata, toInstrument) \<Rightarrow> (F # Fs', metadata, toInstrument))
      else
        (let F' = F\<lparr> func_id_md := Some [MDConstInt 32 (unat nextId)] \<rparr>;
             isUnsafe = analyzeFunction F'
         in case assignIds Fs (Suc pos) (nextId + 1) of
              (Fs', metadata, toInstrument) \<Rightarrow>
                (F' # Fs',
                 \<lparr> fm_id = nextId, hasUnsafeInst = (if isUnsafe then 1 else 0),
                   hasUnsafeRegions = 0, fm_padding = 0 \<rparr> # metadata,
                 pos # toInstrument)))"

text \<open>\<open>F->addFnAttr(Attribute::NoInline); F->setLinkage(ExternalLinkage)\<close> on the function
  of that name.\<close>

definition setRuntimeAttrs :: "string \<Rightarrow> irmodule \<Rightarrow> irmodule" where
  "setRuntimeAttrs name M =
     M\<lparr> funcs :=
          map (\<lambda>F. if fname F = name then F\<lparr> noInline := True, fn_linkage := ExternalLinkage \<rparr>
                    else F) (funcs M) \<rparr>"

text \<open>
  Phase 5 for one function: \<open>IRBuilder<> EntryBuilder(&EntryBB.front())\<close> and a call of
  \<open>__unsafe_record_function\<close> with the id read back from the attachment. An empty
  entry block has no front instruction, and the two \<open>cast<>\<close> abort on an attachment
  of another shape (\<open>None\<close>).
\<close>

definition instrumentEntry :: "func \<Rightarrow> func option" where
  "instrumentEntry F =
     (case blocks F of
        [] \<Rightarrow> None
      | EntryBB # others \<Rightarrow>
          (case EntryBB of
             [] \<Rightarrow> None
           | Front # insts \<Rightarrow>
               (case func_id_md F of
                  Some (MDConstInt w v # ops) \<Rightarrow>
                    Some (F\<lparr> blocks :=
                            (CreateCall (fresh_ident (blocks F)) (debugLoc Front)
                               (CalledFunction RECORD_FUNCTION_FN) [ConstInt w v] # EntryBB)
                            # others \<rparr>)
                | _ \<Rightarrow> None)))"

fun instrumentEntries :: "nat list \<Rightarrow> func list \<Rightarrow> func list option" where
  "instrumentEntries [] Fs = Some Fs"
| "instrumentEntries (pos # rest) Fs =
     (if pos < length Fs then
        (case instrumentEntry (Fs ! pos) of
           None \<Rightarrow> None
         | Some F' \<Rightarrow> instrumentEntries rest (Fs[pos := F']))
      else None)"

definition metadataTable :: "FunctionMetadata list \<Rightarrow> gvar" where
  "metadataTable metadata =
     \<lparr> gv_name = ''__unsafe_metadata_table'', gv_constant = True,
       gv_linkage = InternalLinkage, gv_init = InitTable metadata, gv_align = Some 8,
       gv_metadata = [] \<rparr>"

text \<open>The body of \<open>__unsafe_module_init\<close>: the call of the initializer with the table
  and the 32-bit count, and the return. The bitcast of the global is a constant.\<close>

definition moduleInitBody :: "nat \<Rightarrow> block" where
  "moduleInitBody count =
     [CreateCall 0 None (CalledFunction INIT_METADATA_FN)
        [GlobalAddr ''__unsafe_metadata_table'', ConstInt 32 (count mod 2 ^ 32)],
      CreateRetVoid 1]"

text \<open>Phases 2 to 4 of \<open>run\<close>: the runtime declarations and their attributes, the
  table, the initialization function, the constructor and the destructor.\<close>

definition FT_setupModule :: "irmodule \<Rightarrow> FunctionMetadata list \<Rightarrow> irmodule" where
  "FT_setupModule M1 metadata =
     (case getOrInsertFunction M1 INIT_METADATA_FN of (M2, InitIsFn) \<Rightarrow>
      case getOrInsertFunction M2 RECORD_FUNCTION_FN of (M3, RecordIsFn) \<Rightarrow>
      case getOrInsertFunction M3 DUMP_STATS_FN of (M4, DumpIsFn) \<Rightarrow>
      (let M5 = (if InitIsFn then setRuntimeAttrs INIT_METADATA_FN M4 else M4);
           M6 = (if RecordIsFn then setRuntimeAttrs RECORD_FUNCTION_FN M5 else M5);
           M7 = (if DumpIsFn then setRuntimeAttrs DUMP_STATS_FN M6 else M6);
           M8 = M7\<lparr> globals := globals M7 @ [metadataTable metadata] \<rparr>;
           M9 = M8\<lparr> funcs := funcs M8 @
                   [createInternalFunction ''__unsafe_module_init''
                      (moduleInitBody (length metadata))] \<rparr>;
           M10 = appendToGlobalCtors M9 ''__unsafe_module_init'' 0
       in if DumpIsFn then appendToGlobalDtors M10 DUMP_STATS_FN 0 else M10))"

definition UnsafeFunctionTrackerPass_run ::
  "string option \<Rightarrow> irmodule \<Rightarrow> (irmodule \<times> PreservedAnalyses) option" where
  "UnsafeFunctionTrackerPass_run env M =
     (if \<not> isPrimaryPackage env then Some (M, PreservedAll)
      else
        (case assignIds (funcs M) 0 0 of
           (Fs1, metadata, functionsToInstrument) \<Rightarrow>
             (let M1 = M\<lparr> funcs := Fs1 \<rparr> in
              if metadata = [] then Some (M1, PreservedAll)
              else
                (let M11 = FT_setupModule M1 metadata in
                 case instrumentEntries functionsToInstrument (funcs M11) of
                   None \<Rightarrow> None
                 | Some Fs \<Rightarrow> Some (M11\<lparr> funcs := Fs \<rparr>, PreservedNone)))))"

section \<open>CpuCycleCount\<close>

definition PROGRAM_START_FN :: string where
  "PROGRAM_START_FN = ''record_program_start''"

definition START_MEASUREMENT_FN :: string where
  "START_MEASUREMENT_FN = ''cpu_cycle_start_measurement''"

definition END_MEASUREMENT_FN :: string where
  "END_MEASUREMENT_FN = ''cpu_cycle_end_measurement''"

definition PRINT_STATS_FN :: string where
  "PRINT_STATS_FN = ''print_cpu_cycle_stats''"

text \<open>
  The first pass of \<open>instrumentUnsafeBlocks\<close>, for one instruction, on the pair of
  \<open>CurrentBeginMarker\<close> and the vector \<open>InstrumentationPairs\<close>. A pointer to a marker is
  the marker instruction. \<open>MarkersToRemove\<close> holds the two markers of every pair, in
  the same order, and is read off the pairs.
\<close>

definition collectMarker ::
  "inst \<Rightarrow> inst option \<times> (inst \<times> inst) list \<Rightarrow> inst option \<times> (inst \<times> inst) list" where
  "collectMarker I st =
     (case st of (CurrentBeginMarker, InstrumentationPairs) \<Rightarrow>
        (case calledInlineAsm I of
           None \<Rightarrow> (CurrentBeginMarker, InstrumentationPairs)
         | Some Asm \<Rightarrow>
             if Asm = UNSAFE_MARKER_BEGIN then
               (if CurrentBeginMarker = None then (Some I, InstrumentationPairs)
                else (CurrentBeginMarker, InstrumentationPairs))
             else if Asm = UNSAFE_MARKER_END then
               (case CurrentBeginMarker of
                  None \<Rightarrow> (CurrentBeginMarker, InstrumentationPairs)
                | Some B \<Rightarrow> (None, InstrumentationPairs @ [(B, I)]))
             else (CurrentBeginMarker, InstrumentationPairs)))"

text \<open>One block: \<open>CurrentBeginMarker\<close> starts as null; the pairs found are appended to
  those of the blocks before.\<close>

definition collectBlock :: "block \<Rightarrow> (inst \<times> inst) list \<Rightarrow> (inst \<times> inst) list" where
  "collectBlock BB InstrumentationPairs = snd (fold collectMarker BB (None, InstrumentationPairs))"

definition collectPairs :: "block list \<Rightarrow> (inst \<times> inst) list" where
  "collectPairs bbs = fold collectBlock bbs []"

definition MarkersToRemove :: "(inst \<times> inst) list \<Rightarrow> inst list" where
  "MarkersToRemove pairs = concat (map (\<lambda>(B, E). [B, E]) pairs)"

text \<open>
  The second pass, for one pair: a fence and the start call before the begin marker, a
  fence and the end call, with the start call's value as argument, before the end
  marker. The builder inserts into the block that holds the marker; the four new
  instructions take identities fresh for the function.
\<close>

definition insertMeasurement :: "inst \<times> inst \<Rightarrow> block list \<Rightarrow> block list" where
  "insertMeasurement pair bbs =
     (case pair of (BeginMarker, EndMarker) \<Rightarrow>
        (let n = fresh_ident bbs;
             Fence1 = CreateFence n (debugLoc BeginMarker) SequentiallyConsistent;
             StartCycleValue = CreateCall (n + 1) (debugLoc BeginMarker)
                                 (CalledFunction START_MEASUREMENT_FN) [];
             Fence2 = CreateFence (n + 2) (debugLoc EndMarker) SequentiallyConsistent;
             EndCall = CreateCall (n + 3) (debugLoc EndMarker)
                         (CalledFunction END_MEASUREMENT_FN) [InstVal (ident StartCycleValue)];
             bbs1 = map (insertBefore (ident BeginMarker) [Fence1, StartCycleValue]) bbs
         in map (insertBefore (ident EndMarker) [Fence2, EndCall]) bbs1))"

text \<open>
  The third pass, for one marker: when the marker has users, every use is replaced by
  an undefined value; then the marker is erased from its block.
\<close>

definition replaceAllUsesWith :: "nat \<Rightarrow> val \<Rightarrow> block list \<Rightarrow> block list" where
  "replaceAllUsesWith p v bbs =
     map (map (\<lambda>I. I\<lparr> operands := map (\<lambda>x. if x = InstVal p then v else x) (operands I) \<rparr>)) bbs"

definition user_empty :: "nat \<Rightarrow> block list \<Rightarrow> bool" where
  "user_empty p bbs = (\<not> list_ex (\<lambda>I. InstVal p \<in> set (operands I)) (concat bbs))"

definition eraseFromParent :: "nat \<Rightarrow> block list \<Rightarrow> block list" where
  "eraseFromParent p bbs = map (filter (\<lambda>I. ident I \<noteq> p)) bbs"

definition removeMarker :: "inst \<Rightarrow> block list \<Rightarrow> block list" where
  "removeMarker Marker bbs =
     (if list_ex (\<lambda>I. ident I = ident Marker) (concat bbs) then
        eraseFromParent (ident Marker)
          (if \<not> user_empty (ident Marker) bbs
           then replaceAllUsesWith (ident Marker) UndefValue bbs else bbs)
      else bbs)"

definition instrumentUnsafeBlocks :: "func \<Rightarrow> func \<times> bool" where
  "instrumentUnsafeBlocks F =
     (let InstrumentationPairs = collectPairs (blocks F) in
      if InstrumentationPairs = [] then (F, False)
      else (let bbs2 = fold insertMeasurement InstrumentationPairs (blocks F);
                bbs3 = fold removeMarker (MarkersToRemove InstrumentationPairs) bbs2
            in (F\<lparr> blocks := bbs3 \<rparr>, True)))"

text \<open>\<open>setupRuntimeFunctions\<close>: the four declarations. The last component tells whether
  the callee of \<open>print_cpu_cycle_stats\<close> is a function.\<close>

definition CC_setupRuntimeFunctions :: "irmodule \<Rightarrow> irmodule \<times> bool" where
  "CC_setupRuntimeFunctions M =
     (case getOrInsertFunction M PROGRAM_START_FN of (M1, RecordStartIsFn) \<Rightarrow>
      case getOrInsertFunction M1 START_MEASUREMENT_FN of (M2, StartIsFn) \<Rightarrow>
      case getOrInsertFunction M2 END_MEASUREMENT_FN of (M3, EndIsFn) \<Rightarrow>
      getOrInsertFunction M3 PRINT_STATS_FN)"

text \<open>\<open>setupModuleHooks\<close>: the constructor, created under the name \<open>cpu_cycle_ctor\<close>,
  which calls \<open>record_program_start\<close> and returns. It is registered at priority 0 under
  the name it has got, and the destructor at priority 0 when the callee is a
  function.\<close>

definition cpu_cycle_ctor :: "string \<Rightarrow> func" where
  "cpu_cycle_ctor CtorName =
     createInternalFunction CtorName
       [CreateCall 0 None (CalledFunction PROGRAM_START_FN) [], CreateRetVoid 1]"

definition setupModuleHooks :: "irmodule \<Rightarrow> bool \<Rightarrow> irmodule" where
  "setupModuleHooks M PrintStatsIsFn =
     (case uniqueName M ''cpu_cycle_ctor'' of
        (CtorName, LastUnique) \<Rightarrow>
          (let M1 = M\<lparr> funcs := funcs M @ [cpu_cycle_ctor CtorName],
                         last_unique := LastUnique \<rparr>;
               M2 = appendToGlobalCtors M1 CtorName 0
           in if PrintStatsIsFn then appendToGlobalDtors M2 PRINT_STATS_FN 0 else M2))"

text \<open>The loop over the functions of the module in \<open>run\<close>.\<close>

fun CC_instrumentFunctions :: "func list \<Rightarrow> func list \<times> bool" where
  "CC_instrumentFunctions [] = ([], False)"
| "CC_instrumentFunctions (F # Fs) =
     (if isDeclaration F then
        (case CC_instrumentFunctions Fs of (Fs', Modified) \<Rightarrow> (F # Fs', Modified))
      else
        (case instrumentUnsafeBlocks F of (F', m) \<Rightarrow>
         case CC_instrumentFunctions Fs of (Fs', Modified) \<Rightarrow> (F' # Fs', m \<or> Modified)))"

definition CpuCycleCountPass_run :: "string option \<Rightarrow> irmodule \<Rightarrow> irmodule \<times> PreservedAnalyses" where
  "CpuCycleCountPass_run env M =
     (if \<not> isPrimaryPackage env then (M, PreservedAll)
      else
        (case CC_setupRuntimeFunctions M of (M1, PrintStatsIsFn) \<Rightarrow>
           (let M2 = setupModuleHooks M1 PrintStatsIsFn in
            case CC_instrumentFunctions (funcs M2) of
              (Fs, Modified) \<Rightarrow>
                (M2\<lparr> funcs := Fs \<rparr>, if Modified then PreservedNone else PreservedAll))))"

section \<open>ExternalCallTracker\<close>

definition EXTERNAL_CALL_START_FN :: string where
  "EXTERNAL_CALL_START_FN = ''external_call_start''"

definition EXTERNAL_CALL_END_FN :: string where
  "EXTERNAL_CALL_END_FN = ''external_call_end''"

definition isRuntimeFunction :: "string \<Rightarrow> bool" where
  "isRuntimeFunction Name =
     (startswith Name ''cpu_cycle_'' \<or> startswith Name ''record_'' \<or>
      startswith Name ''external_call_'')"

text \<open>\<open>Call->getCalledFunction()\<close>: the function of the module the call names, null for
  an indirect call, for inline assembly and for an instruction that is no call.
  Function types are not part of the model.\<close>

definition getCalledFunction :: "irmodule \<Rightarrow> inst \<Rightarrow> func option" where
  "getCalledFunction M I =
     (if isCallBase I then
        (case called I of
           Some (CalledFunction name) \<Rightarrow> find (\<lambda>G. fname G = name) (funcs M)
         | _ \<Rightarrow> None)
      else None)"

text \<open>The test of the first pass of \<open>instrumentExternalCalls\<close>: the instruction is
  pushed on \<open>CallsToInstrument\<close>.\<close>

definition isExternalCall :: "irmodule \<Rightarrow> inst \<Rightarrow> bool" where
  "isExternalCall M I =
     (case getCalledFunction M I of
        None \<Rightarrow> False
      | Some CalledFn \<Rightarrow>
          if \<not> isDeclaration CalledFn \<or> isIntrinsic CalledFn then False
          else if isRuntimeFunction (fname CalledFn) then False
          else True)"

definition CallsToInstrument :: "irmodule \<Rightarrow> block list \<Rightarrow> inst list" where
  "CallsToInstrument M bbs = filter (isExternalCall M) (concat bbs)"

text \<open>\<open>I->getNextNonDebugInstruction()\<close>, for the instruction of identity \<open>p\<close>: the first
  instruction after it in its block that is no debug intrinsic, null when there is
  none.\<close>

definition getNextNonDebugInstruction :: "nat \<Rightarrow> block list \<Rightarrow> inst option" where
  "getNextNonDebugInstruction p bbs =
     (case find (list_ex (\<lambda>J. ident J = p)) bbs of
        None \<Rightarrow> None
      | Some BB \<Rightarrow> find (\<lambda>J. \<not> dbgInfoIntrinsic J) (tl (dropWhile (\<lambda>J. ident J \<noteq> p) BB)))"

text \<open>The body of the second loop, for one collected call, on the blocks of the
  function and \<open>Modified\<close>.\<close>

definition instrumentCall :: "inst \<Rightarrow> block list \<times> bool \<Rightarrow> block list \<times> bool" where
  "instrumentCall I st =
     (case st of (bbs, Modified) \<Rightarrow>
        if isTerminator I then (bbs, Modified)
        else
          (let n = fresh_ident bbs;
               Fence1 = CreateFence n (debugLoc I) SequentiallyConsistent;
               StartTime = CreateCall (n + 1) (debugLoc I)
                             (CalledFunction EXTERNAL_CALL_START_FN) [];
               bbs1 = map (insertBefore (ident I) [Fence1, StartTime]) bbs
           in case getNextNonDebugInstruction (ident I) bbs1 of
                None \<Rightarrow> (bbs1, Modified)
              | Some NextInst \<Rightarrow>
                  (map (insertBefore (ident NextInst)
                          [CreateFence (n + 2) (debugLoc NextInst) SequentiallyConsistent,
                           CreateCall (n + 3) (debugLoc NextInst)
                             (CalledFunction EXTERNAL_CALL_END_FN) [InstVal (ident StartTime)]])
                     bbs1,
                   True)))"

definition instrumentExternalCalls :: "irmodule \<Rightarrow> func \<Rightarrow> func \<times> bool" where
  "instrumentExternalCalls M F =
     (let Calls = CallsToInstrument M (blocks F) in
      if Calls = [] then (F, False)
      else (case fold instrumentCall Calls (blocks F, False) of
              (bbs, Modified) \<Rightarrow> (F\<lparr> blocks := bbs \<rparr>, Modified)))"

text \<open>The loop over the functions of the module in \<open>run\<close>, for the function at position
  \<open>i\<close>: the function is rewritten in place, in the module as it is by then.\<close>

definition ECT_visitFunction :: "nat \<Rightarrow> irmodule \<times> bool \<Rightarrow> irmodule \<times> bool" where
  "ECT_visitFunction i st =
     (case st of (M, Modified) \<Rightarrow>
        (let F = funcs M ! i in
         if isDeclaration F then (M, Modified)
         else if isRuntimeFunction (fname F) then (M, Modified)
         else (case instrumentExternalCalls M F of
                 (F', m) \<Rightarrow> (M\<lparr> funcs := (funcs M)[i := F'] \<rparr>, Modified \<or> m))))"

definition ExternalCallTrackerPass_run ::
  "string option \<Rightarrow> irmodule \<Rightarrow> irmodule \<times> PreservedAnalyses" where
  "ExternalCallTrackerPass_run env M =
     (if \<not> isPrimaryPackage env then (M, PreservedAll)
      else
        (case getOrInsertFunction M EXTERNAL_CALL_START_FN of (M1, ExtStartIsFn) \<Rightarrow>
         case getOrInsertFunction M1 EXTERNAL_CALL_END_FN of (M2, ExtEndIsFn) \<Rightarrow>
         case fold ECT_visitFunction [0..<length (funcs M2)] (M2, False) of
           (M3, Modified) \<Rightarrow> (M3, if Modified then PreservedNone else PreservedAll)))"

subsection \<open>DebugInfoPreserver\<close>

text \<open>\<open>PN->moveBefore(&*InsertPt)\<close>: the instruction with identity \<open>pn\<close> is unlinked and
  put back before the instruction with identity \<open>p\<close>.\<close>

definition moveBefore :: "nat \<Rightarrow> nat \<Rightarrow> block \<Rightarrow> block" where
  "moveBefore pn p BB =
     insertBefore p (filter (\<lambda>I. ident I = pn) BB) (filter (\<lambda>I. ident I \<noteq> pn) BB)"

text \<open>
  The loop of \<open>verifyPHINodes\<close>. The first argument is the instructions from the iterator
  \<open>I\<close> to the end of the block; the state is the block, the iterator \<open>InsertPt\<close>
  (\<open>None\<close> is \<open>BB.end()\<close>) and the flag. \<open>PN\<close> is the instruction at \<open>I\<close>, and \<open>I\<close> has
  advanced when the body runs. \<open>&*InsertPt\<close> at the end of the block has no value
  (\<open>None\<close>).
\<close>

fun verifyPHINodes_loop ::
  "block \<Rightarrow> block \<times> inst option \<times> bool \<Rightarrow> (block \<times> bool) option" where
  "verifyPHINodes_loop [] (BB, InsertPt, Modified) = Some (BB, Modified)"
| "verifyPHINodes_loop (PN # rest) (BB, InsertPt, Modified) =
     (if opcode PN \<noteq> PHI then Some (BB, Modified)
      else (case InsertPt of
              None \<Rightarrow> None
            | Some P \<Rightarrow>
                (let (BB1, Modified1) =
                       (if ident PN \<noteq> ident P
                        then (moveBefore (ident PN) (ident P) BB, True)
                        else (BB, Modified))
                 in verifyPHINodes_loop rest (BB1, getNextNode (ident P) BB1, Modified1))))"

definition verifyPHINodes :: "block \<Rightarrow> (block \<times> bool) option" where
  "verifyPHINodes BB =
     verifyPHINodes_loop BB (BB, (case BB of [] \<Rightarrow> None | I # rest \<Rightarrow> Some I), False)"

text \<open>\<open>Loc && Loc->getScope() && Loc->getFile() && Loc->getLine() > 0 &&
  Loc->getColumn() > 0\<close>.\<close>

definition isValidDebugLocation :: "diloc option \<Rightarrow> bool" where
  "isValidDebugLocation Loc =
     (case Loc of
        None \<Rightarrow> False
      | Some L \<Rightarrow> dl_scope L \<and> dl_file L \<noteq> None \<and> dl_line L > 0 \<and> dl_column L > 0)"

text \<open>Step a of \<open>DebugInfoPreserverPass::run\<close>: \<open>Modified |= verifyPHINodes(BB)\<close> over the
  blocks of a function, and over the functions that are not declarations.\<close>

fun verifyBlocks :: "block list \<Rightarrow> (block list \<times> bool) option" where
  "verifyBlocks [] = Some ([], False)"
| "verifyBlocks (BB # bbs) =
     (case verifyPHINodes BB of
        None \<Rightarrow> None
      | Some (BB', Modified) \<Rightarrow>
          (case verifyBlocks bbs of
             None \<Rightarrow> None
           | Some (bbs', Modified') \<Rightarrow> Some (BB' # bbs', Modified \<or> Modified')))"

fun reorderPHIs :: "func list \<Rightarrow> (func list \<times> bool) option" where
  "reorderPHIs [] = Some ([], False)"
| "reorderPHIs (F # Fs) =
     (case (if isDeclaration F then Some (blocks F, False) else verifyBlocks (blocks F)) of
        None \<Rightarrow> None
      | Some (bbs, Modified) \<Rightarrow>
          (case reorderPHIs Fs of
             None \<Rightarrow> None
           | Some (Fs', Modified') \<Rightarrow>
               Some (F\<lparr> blocks := bbs \<rparr> # Fs', Modified \<or> Modified')))"

text \<open>Step b: the anchor, an internal \<open>i8\<close> variable with initializer \<open>0\<close> that is not a
  constant. The symbol table of the module gives it its name.\<close>

definition coverage_anchor :: "string \<Rightarrow> gvar" where
  "coverage_anchor Name =
     \<lparr> gv_name = Name, gv_constant = False, gv_linkage = InternalLinkage,
       gv_init = InitInt 8 0, gv_align = None, gv_metadata = [] \<rparr>"

text \<open>Step c: the valid debug locations of all instructions, in order.\<close>

definition MetadataRefs :: "irmodule \<Rightarrow> diloc list" where
  "MetadataRefs M =
     concat (map (\<lambda>I. case debugLoc I of
                         None \<Rightarrow> []
                       | Some Loc \<Rightarrow> if isValidDebugLocation (Some Loc) then [Loc] else [])
                 (concat (concat (map blocks (funcs M)))))"

text \<open>\<open>appendToCompilerUsed(M, {GV})\<close>: the variable joins \<open>llvm.compiler.used\<close> unless it
  is there.\<close>

definition appendToCompilerUsed :: "irmodule \<Rightarrow> string \<Rightarrow> irmodule" where
  "appendToCompilerUsed M Name =
     M\<lparr> compiler_used :=
          (if Name \<in> set (compiler_used M) then compiler_used M
           else compiler_used M @ [Name]) \<rparr>"

text \<open>
  \<open>DebugInfoPreserverPass::run\<close>. The function reads no environment variable, so the
  process environment is not among its arguments. \<open>new GlobalVariable\<close> returns no null
  pointer, so the return after \<open>if (!GV)\<close> is no branch of the model.
\<close>

definition DebugInfoPreserverPass_run :: "irmodule \<Rightarrow> (irmodule \<times> PreservedAnalyses) option" where
  "DebugInfoPreserverPass_run M =
     (case reorderPHIs (funcs M) of
        None \<Rightarrow> None
      | Some (Fs, Modified) \<Rightarrow>
          (case uniqueName M ''__unsafe_coverage_anchor'' of
             (AnchorName, LastUnique) \<Rightarrow>
               (let M1 = M\<lparr> funcs := Fs \<rparr>;
                    Refs = MetadataRefs M1;
                    GV = (coverage_anchor AnchorName)
                           \<lparr> gv_metadata :=
                                (if Refs \<noteq> [] then [(''preserved.debuginfo'', Refs)] else []) \<rparr>;
                    M2 = M1\<lparr> globals := globals M1 @ [GV], last_unique := LastUnique \<rparr>
                in Some (appendToCompilerUsed M2 AnchorName,
                         if Modified then PreservedNone else PreservedAll))))"


section \<open>Notions used to state the properties\<close>

text \<open>
  The instructions of a block that lie inside an open marker region, read off the
  marker protocol: a begin sentinel opens the region, an end sentinel closes it,
  sentinels and debug intrinsics are not instructions of the region. \<open>inR\<close> tells
  whether the region is open on entry.
\<close>

fun regionInsts :: "bool \<Rightarrow> block \<Rightarrow> inst list" where
  "regionInsts inR [] = []"
| "regionInsts inR (I # rest) =
     (if dbgInfoIntrinsic I then regionInsts inR rest
      else if calledInlineAsm I = Some UNSAFE_MARKER_BEGIN then regionInsts True rest
      else if calledInlineAsm I = Some UNSAFE_MARKER_END then regionInsts False rest
      else if inR then I # regionInsts inR rest else regionInsts inR rest)"

definition categoryOf :: "inst \<Rightarrow> UnsafeCategory" where
  "categoryOf I = snd (getUnsafeCategory (opcode I))"

fun constVal :: "val \<Rightarrow> nat" where
  "constVal (ConstInt w v) = v"
| "constVal _ = 0"

text \<open>A marker sentinel, and the instructions of a block that are neither sentinels
  nor debug intrinsics.\<close>

definition isSentinel :: "inst \<Rightarrow> bool" where
  "isSentinel I = (calledInlineAsm I = Some UNSAFE_MARKER_BEGIN \<or>
                   calledInlineAsm I = Some UNSAFE_MARKER_END)"

definition countedInsts :: "block \<Rightarrow> inst list" where
  "countedInsts BB = filter (\<lambda>I. \<not> dbgInfoIntrinsic I \<and> \<not> isSentinel I) BB"

text \<open>A well-formed block: not empty, its last instruction is a terminator and no
  other instruction is.\<close>

definition wellFormedBlock :: "block \<Rightarrow> bool" where
  "wellFormedBlock BB =
     (BB \<noteq> [] \<and> isTerminator (last BB) \<and> list_all (\<lambda>I. \<not> isTerminator I) (butlast BB))"

text \<open>
  What claim C8 says of one block \<open>BB\<close> and its rewritten form \<open>BB'\<close>: a block
  without counted instruction is left alone; otherwise exactly one instruction \<open>C\<close>, a
  call of \<open>__unsafe_record_block\<close> with nine operands, stands immediately before the
  terminator, its \<open>total\<close> operand is the number of counted instructions, and when no
  instruction lies inside a marker region the \<open>unsafe_total\<close> and the six category
  operands are zero.
\<close>

definition recordedBlock :: "32 word \<Rightarrow> block \<Rightarrow> block \<Rightarrow> bool" where
  "recordedBlock funcId BB BB' =
     (if countedInsts BB = [] then BB' = BB
      else (let C = BB' ! (length BB - 1) in
            BB' = butlast BB @ [C, last BB] \<and>
            opcode C = Call \<and> called C = Some (CalledFunction ''__unsafe_record_block'') \<and>
            length (operands C) = 9 \<and>
            operands C ! 0 = ConstInt 32 (unat funcId) \<and>
            operands C ! 1 = ConstInt 32 (length (countedInsts BB)) \<and>
            (regionInsts False BB = [] \<longrightarrow>
               drop 2 (operands C) =
                 [ConstInt 32 0, ConstInt 16 0, ConstInt 16 0, ConstInt 16 0,
                  ConstInt 16 0, ConstInt 16 0, ConstInt 16 0])))"

text \<open>A block cut at its first and after its last instruction carrying
  \<open>unsafe_inst\<close>: what comes before the first, the run from the first to the last, and
  what comes after the last.\<close>

definition beforeFirstUnsafe :: "block \<Rightarrow> inst list" where
  "beforeFirstUnsafe BB = takeWhile (\<lambda>I. \<not> unsafe_inst I) BB"

definition unsafeRun :: "block \<Rightarrow> inst list" where
  "unsafeRun BB =
     rev (dropWhile (\<lambda>I. \<not> unsafe_inst I) (rev (dropWhile (\<lambda>I. \<not> unsafe_inst I) BB)))"

definition afterLastUnsafe :: "block \<Rightarrow> inst list" where
  "afterLastUnsafe BB =
     rev (takeWhile (\<lambda>I. \<not> unsafe_inst I) (rev (dropWhile (\<lambda>I. \<not> unsafe_inst I) BB)))"

definition isBeginSentinel :: "inst \<Rightarrow> bool" where
  "isBeginSentinel I = (calledInlineAsm I = Some UNSAFE_MARKER_BEGIN)"

definition isEndSentinel :: "inst \<Rightarrow> bool" where
  "isEndSentinel I = (calledInlineAsm I = Some UNSAFE_MARKER_END)"

text \<open>The two marker calls, with the identity they get and the instruction at the
  insertion point.\<close>

definition beginMarker :: "nat \<Rightarrow> inst \<Rightarrow> inst" where
  "beginMarker n IP = CreateCall n (debugLoc IP) AsmMarkerBegin []"

definition endMarker :: "nat \<Rightarrow> inst \<Rightarrow> inst" where
  "endMarker n IP = CreateCall n (debugLoc IP) AsmMarkerEnd []"

text \<open>The sentinels of a block in order, \<open>True\<close> for a begin and \<open>False\<close> for an
  end.\<close>

definition sentinelTrace :: "block \<Rightarrow> bool list" where
  "sentinelTrace BB = map isBeginSentinel (filter isSentinel BB)"

text \<open>
  A block \<open>BB\<close> and the block \<open>BB'\<close> the marker pass makes of it. Without an
  instruction carrying \<open>unsafe_inst\<close> the block is unchanged. Otherwise one begin
  sentinel \<open>b\<close> and one end sentinel \<open>e\<close> are added, \<open>b\<close> before \<open>e\<close>, and
  nothing else changes. The run goes from the first to the last instruction
  carrying \<open>unsafe_inst\<close>. When an instruction follows the run, \<open>b\<close> stands
  immediately before the run and \<open>e\<close> immediately after it. When the run ends the
  block, \<open>e\<close> stands immediately before the last instruction of the run, and \<open>b\<close>
  immediately before the rest of the run: before the first instruction of the run
  when the run has several instructions, and before \<open>e\<close> when the last instruction
  of the block is the whole run (\<open>b\<close>, \<open>e\<close>, instruction).
\<close>

definition markedBlock :: "block \<Rightarrow> block \<Rightarrow> bool" where
  "markedBlock BB BB' =
     (let pre = beforeFirstUnsafe BB; run = unsafeRun BB; post = afterLastUnsafe BB in
      if run = [] then BB' = BB
      else (let b = BB' ! length pre;
                e = BB' ! (if post = [] then length pre + length run
                           else length pre + length run + 1)
            in isBeginSentinel b \<and> isEndSentinel e \<and>
               BB' = (if post = [] then pre @ [b] @ butlast run @ [e, last run]
                      else pre @ [b] @ run @ [e] @ post)))"

text \<open>
  What claim C4 says of a block \<open>BB\<close> and its marked form \<open>BB'\<close>: the marked block is
  well formed (it ends with exactly one terminator) and ends with the instruction \<open>BB\<close>
  ends with; when the last instruction carrying \<open>unsafe_inst\<close> is that terminator, two
  instructions were added and the end sentinel is the last but one instruction;
  otherwise the end sentinel follows the last such instruction immediately.
\<close>

definition endMarkerPlaced :: "block \<Rightarrow> block \<Rightarrow> bool" where
  "endMarkerPlaced BB BB' =
     (let run = unsafeRun BB; k = length (beforeFirstUnsafe BB) + length run in
      if run = [] then BB' = BB
      else wellFormedBlock BB' \<and> last BB' = last BB \<and>
           (if unsafe_inst (last BB)
            then length BB' = length BB + 2 \<and> isEndSentinel (BB' ! (length BB' - 2))
            else BB' ! k = last run \<and> isEndSentinel (BB' ! Suc k)))"

text \<open>\<open>BB'\<close> is what the loop body makes of \<open>BB\<close>, for some identity fresh for
  the block.\<close>

definition markerResult :: "block \<Rightarrow> block \<Rightarrow> bool" where
  "markerResult BB BB' =
     (\<exists>n. (\<forall>I\<in>set BB. ident I < n) \<and>
          insertUnsafeMarkers_block n BB = Some (BB', unsafeRun BB \<noteq> []))"

text \<open>Claim C3 as it is worded: the end sentinel always after the last instruction
  carrying \<open>unsafe_inst\<close>.\<close>

definition markedBlockAsStated :: "block \<Rightarrow> block \<Rightarrow> bool" where
  "markedBlockAsStated BB BB' =
     (let pre = beforeFirstUnsafe BB; run = unsafeRun BB; post = afterLastUnsafe BB in
      if run = [] then BB' = BB
      else (let b = BB' ! length pre; e = BB' ! (length pre + length run + 1)
            in isBeginSentinel b \<and> isEndSentinel e \<and> BB' = pre @ [b] @ run @ [e] @ post))"

text \<open>
  The attachments claim C6 describes, for the functions of a module in order: the
  eligible functions carry the numbers \<open>k\<close>, \<open>k + 1\<close>, ... in module order, each as a
  single 32-bit constant; every other function keeps what it had.
\<close>

fun denseIds :: "func list \<Rightarrow> nat \<Rightarrow> md list option list" where
  "denseIds [] k = []"
| "denseIds (F # Fs) k =
     (if shouldInstrumentFunction F then Some [MDConstInt 32 k] # denseIds Fs (Suc k)
      else func_id_md F # denseIds Fs k)"

text \<open>A function list that has grown out of another: the functions stand where they
  stood, with the same attachment and the same blocks, and the functions added behind
  them carry no attachment.\<close>

definition grownFrom :: "func list \<Rightarrow> func list \<Rightarrow> bool" where
  "grownFrom Fs Fs' =
     (\<exists>Fs1 ext. Fs' = Fs1 @ ext \<and> map func_id_md Fs1 = map func_id_md Fs \<and>
        map blocks Fs1 = map blocks Fs \<and> (\<forall>F\<in>set ext. func_id_md F = None))"

text \<open>
  Whether a block holds an instruction carrying \<open>unsafe_inst\<close> that lies between a
  begin sentinel and the next end sentinel of the block. \<open>open\<close> tells that the last
  sentinel seen is a begin, \<open>seen\<close> that such an instruction was met since.
\<close>

fun unsafeBetweenSentinels :: "block \<Rightarrow> bool \<Rightarrow> bool \<Rightarrow> bool" where
  "unsafeBetweenSentinels [] opn seen = False"
| "unsafeBetweenSentinels (I # rest) opn seen =
     (if isBeginSentinel I then unsafeBetweenSentinels rest True (opn \<and> seen)
      else if isEndSentinel I then (opn \<and> seen) \<or> unsafeBetweenSentinels rest False False
      else unsafeBetweenSentinels rest opn (seen \<or> (opn \<and> unsafe_inst I)))"

definition hasUnsafeBetweenSentinels :: "func \<Rightarrow> bool" where
  "hasUnsafeBetweenSentinels F = list_ex (\<lambda>BB. unsafeBetweenSentinels BB False False) (blocks F)"

text \<open>Whether a marker region is open at the end of a block: its last sentinel is a
  begin (or, without any sentinel, the region was open on entry).\<close>

fun regionOpenAfter :: "block \<Rightarrow> bool \<Rightarrow> bool" where
  "regionOpenAfter [] opn = opn"
| "regionOpenAfter (I # rest) opn =
     regionOpenAfter rest
       (if isBeginSentinel I then True else if isEndSentinel I then False else opn)"

text \<open>Whether a block holds an instruction carrying \<open>unsafe_inst\<close> at a point where the
  region is open.\<close>

fun unsafeInOpenRegion :: "block \<Rightarrow> bool \<Rightarrow> bool" where
  "unsafeInOpenRegion [] opn = False"
| "unsafeInOpenRegion (I # rest) opn =
     (if isBeginSentinel I then unsafeInOpenRegion rest True
      else if isEndSentinel I then unsafeInOpenRegion rest False
      else (opn \<and> unsafe_inst I) \<or> unsafeInOpenRegion rest opn)"

text \<open>The sentinels of a module, in order.\<close>

definition sentinelsOf :: "irmodule \<Rightarrow> inst list" where
  "sentinelsOf M = concat (map (\<lambda>F. filter isSentinel (concat (blocks F))) (funcs M))"

text \<open>A block whose sentinels alternate strictly, begin, end, begin, end, ..., with
  every begin followed by its end; \<open>opn\<close> tells that a begin awaits its end.\<close>

fun balanced :: "bool \<Rightarrow> block \<Rightarrow> bool" where
  "balanced opn [] = (\<not> opn)"
| "balanced opn (I # rest) =
     (if isBeginSentinel I then \<not> opn \<and> balanced True rest
      else if isEndSentinel I then opn \<and> balanced False rest
      else balanced opn rest)"

text \<open>
  A block with instructions put in before some of its instructions and some of its
  instructions taken out: \<open>ins p\<close> is what is put in before the instruction of identity
  \<open>p\<close>, and \<open>R\<close> are the identities taken out.
\<close>

definition expand :: "(nat \<Rightarrow> inst list) \<Rightarrow> nat set \<Rightarrow> block \<Rightarrow> block" where
  "expand ins R BB = concat (map (\<lambda>I. ins (ident I) @ (if ident I \<in> R then [] else [I])) BB)"

text \<open>What the second pass puts in before the begin marker and before the end marker
  of a pair; \<open>n\<close> is the first of the four identities.\<close>

definition measurementStart :: "nat \<Rightarrow> inst \<Rightarrow> inst list" where
  "measurementStart n BeginMarker =
     [CreateFence n (debugLoc BeginMarker) SequentiallyConsistent,
      CreateCall (Suc n) (debugLoc BeginMarker) (CalledFunction ''cpu_cycle_start_measurement'') []]"

definition measurementEnd :: "nat \<Rightarrow> inst \<Rightarrow> inst list" where
  "measurementEnd n EndMarker =
     [CreateFence (n + 2) (debugLoc EndMarker) SequentiallyConsistent,
      CreateCall (n + 3) (debugLoc EndMarker) (CalledFunction ''cpu_cycle_end_measurement'')
        [InstVal (Suc n)]]"

text \<open>Inserted instructions whose identities, and the identities they refer to, are
  none of \<open>Old\<close>.\<close>

definition freshFor :: "nat set \<Rightarrow> (nat \<Rightarrow> inst list) \<Rightarrow> bool" where
  "freshFor Old ins =
     (\<forall>q. \<forall>J\<in>set (ins q). ident J \<notin> Old \<and> (\<forall>k. InstVal k \<in> set (operands J) \<longrightarrow> k \<notin> Old))"

text \<open>The pairs the first pass finds in the rest \<open>BB\<close> of a block, when
  \<open>CurrentBeginMarker\<close> is \<open>cur\<close>: the loop of the first pass read as a function.\<close>

fun pairsOf :: "inst option \<Rightarrow> block \<Rightarrow> (inst \<times> inst) list" where
  "pairsOf cur [] = []"
| "pairsOf cur (I # BB) =
     (if isBeginSentinel I then (if cur = None then pairsOf (Some I) BB else pairsOf cur BB)
      else if isEndSentinel I then
        (case cur of None \<Rightarrow> pairsOf None BB | Some B \<Rightarrow> (B, I) # pairsOf None BB)
      else pairsOf cur BB)"

text \<open>
  A block \<open>BB\<close> and the block \<open>out\<close> the cycle counter makes of it, read in step.
  \<open>StartCycleValue\<close> is the identity of the start call of the pair that is open, if one
  is. A begin sentinel met when no pair is open, with an end sentinel after it in
  the block, opens a pair: in its place stand a sequentially consistent fence and a
  call of \<open>cpu_cycle_start_measurement\<close>. The next end sentinel closes the pair: in its
  place stand a fence and a call of \<open>cpu_cycle_end_measurement\<close> on the value of the
  start call. Every other instruction, a sentinel outside a pair included, stays as
  it is.
\<close>

fun measured :: "nat option \<Rightarrow> block \<Rightarrow> block \<Rightarrow> bool" where
  "measured StartCycleValue [] out = (out = [])"
| "measured StartCycleValue (I # BB) out =
     (if isBeginSentinel I \<and> StartCycleValue = None \<and> list_ex isEndSentinel BB then
        (case out of
           FenceInst # StartCall # rest \<Rightarrow>
             FenceInst = CreateFence (ident FenceInst) (debugLoc I) SequentiallyConsistent \<and>
             StartCall = CreateCall (ident StartCall) (debugLoc I)
                       (CalledFunction ''cpu_cycle_start_measurement'') [] \<and>
             measured (Some (ident StartCall)) BB rest
         | _ \<Rightarrow> False)
      else if isEndSentinel I \<and> StartCycleValue \<noteq> None then
        (case out of
           FenceInst # EndCall # rest \<Rightarrow>
             FenceInst = CreateFence (ident FenceInst) (debugLoc I) SequentiallyConsistent \<and>
             EndCall = CreateCall (ident EndCall) (debugLoc I)
                         (CalledFunction ''cpu_cycle_end_measurement'')
                         [InstVal (the StartCycleValue)] \<and>
             measured None BB rest
         | _ \<Rightarrow> False)
      else (case out of J # rest \<Rightarrow> J = I \<and> measured StartCycleValue BB rest | [] \<Rightarrow> False))"

text \<open>
  A block \<open>BB\<close> and the block \<open>out\<close> the external call tracker makes of it, read in
  step; \<open>ext\<close> tells which instructions are calls of external functions that are no
  runtime functions. Such a call, when it is no terminator, has a sequentially
  consistent fence and a call of \<open>external_call_start\<close> immediately before it, and a
  fence and a call of \<open>external_call_end\<close>, on the value of the start call, immediately
  before the next instruction that is no debug intrinsic, if the block has one.
  \<open>StartTime\<close> is the identity of the start call whose end call is still to come.
  Every instruction of \<open>BB\<close> stays, and nothing else is added.
\<close>

definition takeEnd :: "nat option \<Rightarrow> inst \<Rightarrow> block \<Rightarrow> block option" where
  "takeEnd StartTime NextInst out =
     (case StartTime of
        None \<Rightarrow> Some out
      | Some sid \<Rightarrow>
          (case out of
             FenceInst # EndCall # rest \<Rightarrow>
               if FenceInst = CreateFence (ident FenceInst) (debugLoc NextInst)
                                SequentiallyConsistent \<and>
                  EndCall = CreateCall (ident EndCall) (debugLoc NextInst)
                              (CalledFunction ''external_call_end'') [InstVal sid]
               then Some rest else None
           | _ \<Rightarrow> None))"

fun tracked :: "(inst \<Rightarrow> bool) \<Rightarrow> nat option \<Rightarrow> block \<Rightarrow> block \<Rightarrow> bool" where
  "tracked ext StartTime [] out = (out = [])"
| "tracked ext StartTime (I # BB) out =
     (if dbgInfoIntrinsic I then
        (case out of J # rest \<Rightarrow> J = I \<and> tracked ext StartTime BB rest | [] \<Rightarrow> False)
      else
        (case takeEnd StartTime I out of
           None \<Rightarrow> False
         | Some out1 \<Rightarrow>
             if ext I \<and> \<not> isTerminator I then
               (case out1 of
                  FenceInst # StartCall # J # rest \<Rightarrow>
                    FenceInst = CreateFence (ident FenceInst) (debugLoc I)
                                  SequentiallyConsistent \<and>
                    StartCall = CreateCall (ident StartCall) (debugLoc I)
                                  (CalledFunction ''external_call_start'') [] \<and>
                    J = I \<and> tracked ext (Some (ident StartCall)) BB rest
                | _ \<Rightarrow> False)
             else (case out1 of J # rest \<Rightarrow> J = I \<and> tracked ext None BB rest | [] \<Rightarrow> False)))"

text \<open>The two instructions put before a call, and the two put before the next
  instruction; \<open>n\<close> is the first of the four identities.\<close>

definition startPair :: "nat \<Rightarrow> inst \<Rightarrow> inst list" where
  "startPair n I =
     [CreateFence n (debugLoc I) SequentiallyConsistent,
      CreateCall (n + 1) (debugLoc I) (CalledFunction ''external_call_start'') []]"

definition endPair :: "nat \<Rightarrow> inst \<Rightarrow> inst list" where
  "endPair n NextInst =
     [CreateFence (n + 2) (debugLoc NextInst) SequentiallyConsistent,
      CreateCall (n + 3) (debugLoc NextInst) (CalledFunction ''external_call_end'')
        [InstVal (n + 1)]]"

text \<open>The rest of a block after a call that has just been given its start pair: the
  end pair stands before the first instruction that is no debug intrinsic.\<close>

fun withPending :: "nat option \<Rightarrow> block \<Rightarrow> block" where
  "withPending None BB = BB"
| "withPending (Some n) [] = []"
| "withPending (Some n) (J # BB) =
     (if dbgInfoIntrinsic J then J # withPending (Some n) BB else endPair n J @ J # BB)"

text \<open>What the test of the first pass reads of a function of the module.\<close>

definition funcSignature :: "func \<Rightarrow> string \<times> bool \<times> bool" where
  "funcSignature F = (fname F, isDeclaration F, isIntrinsic F)"

text \<open>What the loop of \<open>run\<close> makes of one function, the test of the first pass reading
  the module \<open>M\<close>.\<close>

definition trackExternalCalls :: "irmodule \<Rightarrow> func \<Rightarrow> func" where
  "trackExternalCalls M F =
     (if isDeclaration F \<or> isRuntimeFunction (fname F) then F
      else fst (instrumentExternalCalls M F))"


subsection \<open>Concrete instructions and blocks\<close>

definition plainInst :: "nat \<Rightarrow> opcode \<Rightarrow> inst" where
  "plainInst n op =
     \<lparr> ident = n, opcode = op, called = None, operands = [], ordering = None,
       unsafe_inst = False, unsafe_line_info = None, debugLoc = None,
       dbgInfoIntrinsic = False \<rparr>"

definition loadInst :: "nat \<Rightarrow> inst" where
  "loadInst n = plainInst n Load"

definition sentinelInst :: "nat \<Rightarrow> string \<Rightarrow> inst" where
  "sentinelInst n text = CreateCall n None (InlineAsm text [] True) []"

definition wideBlock :: block where
  "wideBlock = sentinelInst 0 UNSAFE_MARKER_BEGIN # map loadInst [1..<65537] @
               [sentinelInst 65537 UNSAFE_MARKER_END, plainInst 65538 Ret]"

definition smallBlock :: block where
  "smallBlock = [sentinelInst 0 UNSAFE_MARKER_BEGIN, loadInst 1, plainInst 2 Store,
                 sentinelInst 3 UNSAFE_MARKER_END, plainInst 4 Ret]"


definition exampleFunc :: func where
  "exampleFunc =
     \<lparr> fname = ''f'', isIntrinsic = False, blocks = [smallBlock, [plainInst 5 Ret]],
       func_id_md = Some [MDConstInt 32 7], fn_linkage = ExternalLinkage, noInline = False \<rparr>"

definition unsafeInst :: "nat \<Rightarrow> opcode \<Rightarrow> inst" where
  "unsafeInst n op = (plainInst n op)\<lparr> unsafe_inst := True \<rparr>"

definition mkFunc :: "string \<Rightarrow> block list \<Rightarrow> func" where
  "mkFunc name bbs =
     \<lparr> fname = name, isIntrinsic = False, blocks = bbs, func_id_md = None,
       fn_linkage = ExternalLinkage, noInline = False \<rparr>"

definition unsafeTermFunc :: func where
  "unsafeTermFunc = mkFunc ''g'' [[plainInst 0 Load, unsafeInst 1 Ret]]"

definition scenarioFunc :: func where
  "scenarioFunc = mkFunc ''f''
     [[plainInst 0 Load, unsafeInst 1 Load, plainInst 2 OtherOp, unsafeInst 3 Store,
       plainInst 4 Br],
      [plainInst 5 Load, unsafeInst 6 Ret],
      [plainInst 7 Ret]]"

definition emptyModule :: irmodule where
  "emptyModule = \<lparr> funcs = [], globals = [], global_ctors = [], global_dtors = [],
                    compiler_used = [], last_unique = 0 \<rparr>"

definition exampleModule :: irmodule where
  "exampleModule = emptyModule\<lparr> funcs :=
     [mkFunc ''f'' [smallBlock], declareFunction ''memcpy'',
      mkFunc ''__unsafe_helper'' [[plainInst 0 Ret]],
      mkFunc ''h'' [[plainInst 0 Load, plainInst 1 Ret]]] \<rparr>"

definition leakFunc :: func where
  "leakFunc = mkFunc ''leak''
     [[sentinelInst 0 UNSAFE_MARKER_BEGIN, plainInst 1 Br],
      [unsafeInst 2 Load, plainInst 3 Ret]]"

definition leakModule :: irmodule where
  "leakModule = emptyModule\<lparr> funcs := [leakFunc] \<rparr>"

definition plainModule :: irmodule where
  "plainModule = emptyModule\<lparr> funcs := [mkFunc ''h'' [[plainInst 0 Load, plainInst 1 Ret]]] \<rparr>"

definition statsVarModule :: irmodule where
  "statsVarModule = emptyModule\<lparr> globals :=
     [\<lparr> gv_name = ''print_cpu_cycle_stats'', gv_constant = False, gv_linkage = ExternalLinkage,
        gv_init = InitInt 32 0, gv_align = None, gv_metadata = [] \<rparr>] \<rparr>"

definition ctorNameModule :: irmodule where
  "ctorNameModule = emptyModule\<lparr> funcs := [mkFunc ''cpu_cycle_ctor'' [[plainInst 0 Ret]]] \<rparr>"

definition callInst :: "nat \<Rightarrow> string \<Rightarrow> inst" where
  "callInst n name = CreateCall n None (CalledFunction name) []"

definition helperModule :: irmodule where
  "helperModule = emptyModule\<lparr> funcs :=
     [declareFunction ''dyn_mem_access'', declareFunction ''record_program_start'',
      declareFunction ''memcpy'',
      mkFunc ''f'' [[callInst 0 ''dyn_mem_access'', callInst 1 ''record_program_start'',
                     callInst 2 ''memcpy'', plainInst 3 Ret]]] \<rparr>"

definition dynMemModule :: irmodule where
  "dynMemModule = emptyModule\<lparr> funcs :=
     [declareFunction ''dyn_mem_access'',
      mkFunc ''f'' [[callInst 0 ''dyn_mem_access'', plainInst 1 Ret]]] \<rparr>"

section \<open>UnsafeInstCounter: what a block scan counts\<close>

lemma getUnsafeCategory_True: "getUnsafeCategory op = (True, snd (getUnsafeCategory op))"
  by (cases op) simp_all

lemma marker_begin_neq_end: "UNSAFE_MARKER_BEGIN \<noteq> UNSAFE_MARKER_END"
  by (simp add: UNSAFE_MARKER_BEGIN_def UNSAFE_MARKER_END_def)

lemma fold_analyzeInst:
  "fold analyzeInst BB (c, inR) = (c', inR') \<Longrightarrow>
     totalInsts c' = totalInsts c + word_of_nat (length (countedInsts BB)) \<and>
     totalUnsafeInsts c' = totalUnsafeInsts c + word_of_nat (length (regionInsts inR BB)) \<and>
     (\<forall>k. unsafeCounts c' k = unsafeCounts c k +
        word_of_nat (length (filter (\<lambda>I. categoryOf I = k) (regionInsts inR BB))))"
proof (induction BB arbitrary: c inR)
  case Nil
  then show ?case by (simp add: countedInsts_def)
next
  case (Cons I BB)
  obtain c1 r1 where st: "analyzeInst I (c, inR) = (c1, r1)" by (cases "analyzeInst I (c, inR)")
  with Cons.prems have "fold analyzeInst BB (c1, r1) = (c', inR')" by simp
  note IH = Cons.IH[OF this]
  show ?case
  proof (cases "dbgInfoIntrinsic I")
    case True
    with st have "c1 = c" "r1 = inR" by (auto simp: analyzeInst_def)
    with IH True show ?thesis by (simp add: countedInsts_def isSentinel_def)
  next
    case nd: False
    show ?thesis
    proof (cases "calledInlineAsm I")
      case None
      show ?thesis
      proof (cases inR)
        case True
        with st nd None have "r1 = True"
          "totalUnsafeInsts c1 = totalUnsafeInsts c + 1" "totalInsts c1 = totalInsts c + 1"
          "\<And>k. unsafeCounts c1 k = unsafeCounts c k + (if categoryOf I = k then 1 else 0)"
          using getUnsafeCategory_True[of "opcode I"]
          by (auto simp: analyzeInst_def IC_isMarkerInstruction_def Let_def categoryOf_def split: prod.splits)
        with IH nd None True show ?thesis by (simp add: algebra_simps countedInsts_def isSentinel_def)
      next
        case False
        with st nd None have "r1 = False" "totalUnsafeInsts c1 = totalUnsafeInsts c" "totalInsts c1 = totalInsts c + 1"
          "unsafeCounts c1 = unsafeCounts c"
          by (auto simp: analyzeInst_def IC_isMarkerInstruction_def Let_def)
        with IH nd None False show ?thesis by (simp add: countedInsts_def isSentinel_def)
      qed
    next
      case (Some s)
      show ?thesis
      proof (cases "s = UNSAFE_MARKER_BEGIN")
        case True
        with st nd Some have "r1 = True" "c1 = c"
          by (auto simp: analyzeInst_def IC_isMarkerInstruction_def)
        with IH nd Some True show ?thesis by (simp add: countedInsts_def isSentinel_def)
      next
        case nb: False
        show ?thesis
        proof (cases "s = UNSAFE_MARKER_END")
          case True
          with st nd Some nb have "r1 = False" "c1 = c"
            by (auto simp: analyzeInst_def IC_isMarkerInstruction_def)
          with IH nd Some nb True show ?thesis by (simp add: countedInsts_def isSentinel_def)
        next
          case ne: False
          show ?thesis
          proof (cases inR)
            case True
            with st nd Some nb ne have "r1 = True"
              "totalUnsafeInsts c1 = totalUnsafeInsts c + 1" "totalInsts c1 = totalInsts c + 1"
              "\<And>k. unsafeCounts c1 k = unsafeCounts c k + (if categoryOf I = k then 1 else 0)"
              using getUnsafeCategory_True[of "opcode I"]
              by (auto simp: analyzeInst_def IC_isMarkerInstruction_def Let_def categoryOf_def split: prod.splits)
            with IH nd Some nb ne True show ?thesis by (simp add: algebra_simps countedInsts_def isSentinel_def)
          next
            case False
            with st nd Some nb ne have "r1 = False" "totalUnsafeInsts c1 = totalUnsafeInsts c" "totalInsts c1 = totalInsts c + 1"
              "unsafeCounts c1 = unsafeCounts c"
              by (auto simp: analyzeInst_def IC_isMarkerInstruction_def Let_def)
            with IH nd Some nb ne False show ?thesis by (simp add: countedInsts_def isSentinel_def)
          qed
        qed
      qed
    qed
  qed
qed

lemma analyzeBasicBlock_unsafe:
  "totalInsts (analyzeBasicBlock BB) = word_of_nat (length (countedInsts BB))"
  "totalUnsafeInsts (analyzeBasicBlock BB) = word_of_nat (length (regionInsts False BB))"
  "unsafeCounts (analyzeBasicBlock BB) k =
     word_of_nat (length (filter (\<lambda>I. categoryOf I = k) (regionInsts False BB)))"
  using fold_analyzeInst[of BB BlockCounts_init False]
  by (cases "fold analyzeInst BB (BlockCounts_init, False)"; simp add: analyzeBasicBlock_def BlockCounts_init_def)+

lemma category_partition:
  "length (filter (\<lambda>I. categoryOf I = UNSAFE_LOAD) xs) +
   length (filter (\<lambda>I. categoryOf I = UNSAFE_STORE) xs) +
   length (filter (\<lambda>I. categoryOf I = UNSAFE_CALL) xs) +
   length (filter (\<lambda>I. categoryOf I = UNSAFE_CAST) xs) +
   length (filter (\<lambda>I. categoryOf I = UNSAFE_GEP) xs) +
   length (filter (\<lambda>I. categoryOf I = UNSAFE_OTHER) xs) = length xs"
proof (induction xs)
  case Nil
  show ?case by simp
next
  case (Cons x xs)
  then show ?case by (cases "categoryOf x") simp_all
qed

lemma filter_category_le:
  "length (filter (\<lambda>I. categoryOf I = k) xs) \<le> length xs"
  by simp

lemma unat_count16: "n < 65536 \<Longrightarrow> unat (word_of_nat n :: 16 word) = n"
  by (rule of_nat_inverse[OF refl]) simp

lemma unat_count32: "n < 4294967296 \<Longrightarrow> unat (word_of_nat n :: 32 word) = n"
  by (rule of_nat_inverse[OF refl]) simp

text \<open>
  Claim C7, as the code has it. The category counters are 16 bits wide and wrap, the
  total is 32 bits wide. When every category holds fewer than 65536 instructions of
  the block's marker regions, the six category operands of the
  \<open>__unsafe_record_block\<close> call add up to its \<open>unsafe_total\<close> operand.
\<close>

theorem C7_category_partition:
  assumes bound: "\<forall>k. length (filter (\<lambda>I. categoryOf I = k) (regionInsts False BB)) < 65536"
  shows "length (recordBlockArgs funcId (analyzeBasicBlock BB)) = 9 \<and>
         sum_list (map constVal (drop 3 (recordBlockArgs funcId (analyzeBasicBlock BB)))) =
           constVal (recordBlockArgs funcId (analyzeBasicBlock BB) ! 2)"
proof -
  let ?R = "regionInsts False BB"
  let ?n = "\<lambda>k. length (filter (\<lambda>I. categoryOf I = k) ?R)"
  have part: "?n UNSAFE_LOAD + ?n UNSAFE_STORE + ?n UNSAFE_CALL + ?n UNSAFE_CAST +
              ?n UNSAFE_GEP + ?n UNSAFE_OTHER = length ?R"
    by (rule category_partition)
  have each: "\<And>k. ?n k < 65536" using bound by blast
  have "length ?R < 6 * 65536"
    using each[of UNSAFE_LOAD] each[of UNSAFE_STORE] each[of UNSAFE_CALL]
          each[of UNSAFE_CAST] each[of UNSAFE_GEP] each[of UNSAFE_OTHER] part
    by linarith
  then have tot: "unat (totalUnsafeInsts (analyzeBasicBlock BB)) = length ?R"
    by (simp add: analyzeBasicBlock_unsafe unat_count32)
  have cat: "\<And>k. unat (unsafeCounts (analyzeBasicBlock BB) k) = ?n k"
    using each by (simp add: analyzeBasicBlock_unsafe unat_count16)
  show ?thesis
    using part by (simp add: recordBlockArgs_def tot cat)
qed

theorem C7_category_partition_witness:
  "(\<forall>k. length (filter (\<lambda>I. categoryOf I = k) (regionInsts False smallBlock)) < 65536) \<and>
   length (recordBlockArgs 5 (analyzeBasicBlock smallBlock)) = 9 \<and>
   sum_list (map constVal (drop 3 (recordBlockArgs 5 (analyzeBasicBlock smallBlock)))) =
     constVal (recordBlockArgs 5 (analyzeBasicBlock smallBlock) ! 2)"
proof -
  have len: "length (regionInsts False smallBlock) = 2"
    by (simp add: smallBlock_def sentinelInst_def CreateCall_def loadInst_def plainInst_def
          calledInlineAsm_def isCallBase_def UNSAFE_MARKER_BEGIN_def UNSAFE_MARKER_END_def)
  have h: "\<forall>k. length (filter (\<lambda>I. categoryOf I = k) (regionInsts False smallBlock)) < 65536"
  proof
    fix k
    have "length (filter (\<lambda>I. categoryOf I = k) (regionInsts False smallBlock)) \<le> 2"
      using filter_category_le[of k "regionInsts False smallBlock"] len by simp
    then show "length (filter (\<lambda>I. categoryOf I = k) (regionInsts False smallBlock)) < 65536"
      by simp
  qed
  from C7_category_partition[OF h, of 5] h show ?thesis by blast
qed

lemma regionInsts_loads:
  "regionInsts True (map loadInst ks @ rest) = map loadInst ks @ regionInsts True rest"
  by (induction ks)
     (simp_all add: loadInst_def plainInst_def calledInlineAsm_def isCallBase_def)

lemma regionInsts_wideBlock: "regionInsts False wideBlock = map loadInst [1..<65537]"
  by (simp add: wideBlock_def regionInsts_loads)
     (simp add: sentinelInst_def CreateCall_def plainInst_def calledInlineAsm_def isCallBase_def
        UNSAFE_MARKER_BEGIN_def UNSAFE_MARKER_END_def)

lemma countedInsts_loads:
  "countedInsts (map loadInst ks @ rest) = map loadInst ks @ countedInsts rest"
  by (induction ks)
     (simp_all add: countedInsts_def isSentinel_def loadInst_def plainInst_def
        calledInlineAsm_def isCallBase_def)


text \<open>
  Claim C7 fails as stated: a block with 65536 loads between a begin and an end
  sentinel. The load counter has wrapped to 0, so the six category operands add up
  to 0 while \<open>unsafe_total\<close> is 65536.
\<close>

theorem C7_counterexample:
  "sum_list (map constVal (drop 3 (recordBlockArgs 0 (analyzeBasicBlock wideBlock)))) = 0 \<and>
   constVal (recordBlockArgs 0 (analyzeBasicBlock wideBlock) ! 2) = 65536"
proof -
  have cat: "unsafeCounts (analyzeBasicBlock wideBlock) k = 0" for k
    by (cases "k = UNSAFE_LOAD")
       (simp_all add: analyzeBasicBlock_unsafe regionInsts_wideBlock filter_map o_def
          categoryOf_def loadInst_def plainInst_def)
  have tot: "totalUnsafeInsts (analyzeBasicBlock wideBlock) = 65536"
    by (simp add: analyzeBasicBlock_unsafe regionInsts_wideBlock)
  show ?thesis
    by (simp add: recordBlockArgs_def hasUnsafeInstructions_def tot cat)
qed


section \<open>UnsafeInstCounter: the call planted in every block\<close>

lemma regionInsts_le_counted: "length (regionInsts inR BB) \<le> length (countedInsts BB)"
proof (induction BB arbitrary: inR)
  case Nil
  show ?case by simp
next
  case (Cons I BB)
  have step: "length (countedInsts (I # BB)) =
      (if \<not> dbgInfoIntrinsic I \<and> \<not> isSentinel I then Suc (length (countedInsts BB))
       else length (countedInsts BB))"
    by (simp add: countedInsts_def)
  show ?case
    using Cons.IH[of inR] Cons.IH[of True] Cons.IH[of False]
    by (simp add: step isSentinel_def)
qed

lemma hasInstructions_iff:
  assumes "length (countedInsts BB) < 4294967296"
  shows "hasInstructions (analyzeBasicBlock BB) \<longleftrightarrow> countedInsts BB \<noteq> []"
proof -
  have "unat (totalInsts (analyzeBasicBlock BB)) = length (countedInsts BB)"
    using assms by (simp add: analyzeBasicBlock_unsafe unat_count32)
  then show ?thesis
    by (auto simp: hasInstructions_def word_less_nat_alt)
qed

lemma hasUnsafeInstructions_iff:
  assumes "length (countedInsts BB) < 4294967296"
  shows "hasUnsafeInstructions (analyzeBasicBlock BB) \<longleftrightarrow> regionInsts False BB \<noteq> []"
proof -
  have "length (regionInsts False BB) < 4294967296"
    using assms regionInsts_le_counted[of False BB] by linarith
  then have "unat (totalUnsafeInsts (analyzeBasicBlock BB)) = length (regionInsts False BB)"
    by (simp add: analyzeBasicBlock_unsafe unat_count32)
  then show ?thesis
    by (auto simp: hasUnsafeInstructions_def word_less_nat_alt)
qed

lemma recordedBlock_step:
  assumes bound: "length (countedInsts BB) < 4294967296"
    and cnt: "countedInsts BB \<noteq> []"
  shows "recordedBlock funcId BB
           (butlast BB @ [CreateCall n dl (CalledFunction RECORD_BLOCK_FN)
                            (recordBlockArgs funcId (analyzeBasicBlock BB)), last BB])"
proof -
  have tot: "unat (totalInsts (analyzeBasicBlock BB)) = length (countedInsts BB)"
    using bound by (simp add: analyzeBasicBlock_unsafe unat_count32)
  have ne: "BB \<noteq> []" using cnt by (auto simp: countedInsts_def)
  then have len: "length BB - 1 = length (butlast BB)" by simp
  show ?thesis
    unfolding recordedBlock_def len
    using cnt hasUnsafeInstructions_iff[OF bound]
    by (simp add: nth_append CreateCall_def RECORD_BLOCK_FN_def recordBlockArgs_def tot)
qed

lemma IC_instrumentBlocks_spec:
  assumes "\<forall>BB\<in>set todo. wellFormedBlock BB \<and> length (countedInsts BB) < 4294967296"
  shows "\<exists>bbs m. IC_instrumentBlocks funcId done todo = Some (done @ bbs, m) \<and>
                  list_all2 (recordedBlock funcId) todo bbs"
  using assms
proof (induction todo arbitrary: "done")
  case Nil
  show ?case by (intro exI[of _ "[]"] exI[of _ False]) simp
next
  case (Cons BB todo)
  from Cons.prems have wf: "wellFormedBlock BB" and bound: "length (countedInsts BB) < 4294967296"
    and rest: "\<forall>B\<in>set todo. wellFormedBlock B \<and> length (countedInsts B) < 4294967296"
    by simp_all
  show ?case
  proof (cases "countedInsts BB = []")
    case True
    then have no: "\<not> hasInstructions (analyzeBasicBlock BB)"
      using hasInstructions_iff[OF bound] by simp
    from Cons.IH[OF rest, of "done @ [BB]"] obtain bbs m where
      r: "IC_instrumentBlocks funcId (done @ [BB]) todo = Some ((done @ [BB]) @ bbs, m)"
      and l: "list_all2 (recordedBlock funcId) todo bbs" by blast
    have "recordedBlock funcId BB BB" using True by (simp add: recordedBlock_def)
    with r l no show ?thesis by (intro exI[of _ "BB # bbs"] exI[of _ m]) simp
  next
    case False
    then have yes: "hasInstructions (analyzeBasicBlock BB)"
      using hasInstructions_iff[OF bound] by simp
    from wf have trm: "getTerminator BB = Some (last BB)"
      by (simp add: wellFormedBlock_def getTerminator_def)
    let ?C = "CreateCall (fresh_ident (done @ BB # todo)) (debugLoc (last BB))
                (CalledFunction RECORD_BLOCK_FN) (recordBlockArgs funcId (analyzeBasicBlock BB))"
    let ?BB' = "butlast BB @ [?C, last BB]"
    from Cons.IH[OF rest, of "done @ [?BB']"] obtain bbs m where
      r: "IC_instrumentBlocks funcId (done @ [?BB']) todo = Some ((done @ [?BB']) @ bbs, m)"
      and l: "list_all2 (recordedBlock funcId) todo bbs" by blast
    have "recordedBlock funcId BB ?BB'" by (rule recordedBlock_step[OF bound False])
    with r l yes trm show ?thesis
      by (intro exI[of _ "?BB' # bbs"] exI[of _ True]) (simp add: Let_def)
  qed
qed

text \<open>
  Claim C8. On a primary build, for an eligible function that carries a function id
  (other than \<open>UINT32_MAX\<close>, which \<open>getFunctionId\<close> reserves for a missing
  attachment) and whose blocks are well formed and hold fewer than \<open>2^32\<close> counted
  instructions, the pass returns the function with every block rewritten as
  \<open>recordedBlock\<close> describes: one \<open>__unsafe_record_block\<close> call immediately before
  the terminator, whose total counts every instruction except sentinels and debug
  intrinsics, with zero unsafe fields when no instruction is inside a region.
\<close>

theorem C8_record_block_per_block:
  assumes primary: "isPrimaryPackage env"
    and eligible: "shouldInstrumentFunction F"
    and fid: "getFunctionId F = Some funcId" "funcId \<noteq> UINT32_MAX"
    and wf: "\<forall>BB\<in>set (blocks F). wellFormedBlock BB \<and> length (countedInsts BB) < 4294967296"
  shows "\<exists>bbs verdict. UnsafeInstCounterPass_run env F = Some (F\<lparr> blocks := bbs \<rparr>, verdict) \<and>
           list_all2 (recordedBlock funcId) (blocks F) bbs"
proof -
  from IC_instrumentBlocks_spec[OF wf, of funcId "[]"] obtain bbs m where
    "IC_instrumentBlocks funcId [] (blocks F) = Some (bbs, m)"
    "list_all2 (recordedBlock funcId) (blocks F) bbs" by auto
  with primary eligible fid show ?thesis
    by (intro exI[of _ bbs] exI[of _ "if m then PreservedNone else PreservedAll"])
       (simp add: UnsafeInstCounterPass_run_def)
qed

lemmas example_simps =
  exampleFunc_def smallBlock_def sentinelInst_def loadInst_def plainInst_def CreateCall_def
  calledInlineAsm_def isCallBase_def UNSAFE_MARKER_BEGIN_def UNSAFE_MARKER_END_def
  isSentinel_def countedInsts_def wellFormedBlock_def isTerminator_def

theorem C8_record_block_per_block_witness:
  "isPrimaryPackage (Some ''1'') \<and> shouldInstrumentFunction exampleFunc \<and>
   getFunctionId exampleFunc = Some 7 \<and> (7 :: 32 word) \<noteq> UINT32_MAX \<and>
   list_all (\<lambda>BB. wellFormedBlock BB \<and> length (countedInsts BB) < 4294967296)
     (blocks exampleFunc) \<and>
   (\<exists>bbs verdict.
      UnsafeInstCounterPass_run (Some ''1'') exampleFunc =
        Some (exampleFunc\<lparr> blocks := bbs \<rparr>, verdict) \<and>
      list_all2 (recordedBlock 7) (blocks exampleFunc) bbs)"
proof -
  have h1: "isPrimaryPackage (Some ''1'')" by (simp add: isPrimaryPackage_def)
  have h2: "shouldInstrumentFunction exampleFunc"
    by (simp add: shouldInstrumentFunction_def isDeclaration_def startswith_def exampleFunc_def)
  have h3: "getFunctionId exampleFunc = Some 7"
    by (simp add: getFunctionId_def exampleFunc_def)
  have h4: "(7 :: 32 word) \<noteq> UINT32_MAX" by (simp add: UINT32_MAX_def)
  have h5: "\<forall>BB\<in>set (blocks exampleFunc).
      wellFormedBlock BB \<and> length (countedInsts BB) < 4294967296"
    by (simp add: example_simps)
  from C8_record_block_per_block[OF h1 h2 h3 h4 h5] h1 h2 h3 h4 h5 show ?thesis
    by (simp add: list_all_iff)
qed

section \<open>InstMarker: where the markers go\<close>

lemma block_split:
  "BB = beforeFirstUnsafe BB @ unsafeRun BB @ afterLastUnsafe BB"
proof -
  let ?P = "\<lambda>I. \<not> unsafe_inst I"
  let ?r = "dropWhile ?P BB"
  have "rev ?r = takeWhile ?P (rev ?r) @ dropWhile ?P (rev ?r)" by simp
  then have "rev (rev ?r) = rev (takeWhile ?P (rev ?r) @ dropWhile ?P (rev ?r))" by simp
  then have "?r = rev (dropWhile ?P (rev ?r)) @ rev (takeWhile ?P (rev ?r))"
    by (simp only: rev_rev_ident rev_append)
  then have "?r = unsafeRun BB @ afterLastUnsafe BB"
    by (simp add: unsafeRun_def afterLastUnsafe_def)
  moreover have "BB = takeWhile ?P BB @ ?r" by simp
  ultimately show ?thesis by (simp add: beforeFirstUnsafe_def)
qed

lemma before_no_unsafe: "I \<in> set (beforeFirstUnsafe BB) \<Longrightarrow> \<not> unsafe_inst I"
  by (auto simp: beforeFirstUnsafe_def dest: set_takeWhileD)

lemma after_no_unsafe: "I \<in> set (afterLastUnsafe BB) \<Longrightarrow> \<not> unsafe_inst I"
  by (auto simp: afterLastUnsafe_def dest: set_takeWhileD)

lemma dropWhile_rest_split:
  "dropWhile (\<lambda>I. \<not> unsafe_inst I) BB = unsafeRun BB @ afterLastUnsafe BB"
proof -
  let ?P = "\<lambda>I. \<not> unsafe_inst I"
  let ?r = "dropWhile ?P BB"
  have "rev (rev ?r) = rev (takeWhile ?P (rev ?r) @ dropWhile ?P (rev ?r))" by simp
  then show ?thesis
    by (simp only: rev_rev_ident rev_append unsafeRun_def afterLastUnsafe_def)
qed

lemma unsafeRun_ends:
  assumes "unsafeRun BB \<noteq> []"
  shows "unsafe_inst (hd (unsafeRun BB))" and "unsafe_inst (last (unsafeRun BB))"
proof -
  let ?P = "\<lambda>I. \<not> unsafe_inst I"
  let ?r = "dropWhile ?P BB"
  have ne: "?r \<noteq> []"
  proof
    assume "?r = []"
    then have "unsafeRun BB = []" by (auto simp: unsafeRun_def dest: set_dropWhileD)
    with assms show False by simp
  qed
  then have h: "unsafe_inst (hd ?r)" using hd_dropWhile[of ?P BB] by simp
  let ?d = "dropWhile ?P (rev ?r)"
  from assms have dne: "?d \<noteq> []" by (simp add: unsafeRun_def)
  then have "unsafe_inst (hd ?d)" using hd_dropWhile[of ?P "rev ?r"] by simp
  with dne show "unsafe_inst (last (unsafeRun BB))"
    by (simp add: unsafeRun_def last_rev)
  have "hd ?r = hd (unsafeRun BB)"
    using assms by (simp add: dropWhile_rest_split)
  with h show "unsafe_inst (hd (unsafeRun BB))" by simp
qed

lemma unsafeRun_Nil_iff: "unsafeRun BB = [] \<longleftrightarrow> (\<forall>I\<in>set BB. \<not> unsafe_inst I)"
proof
  assume e: "unsafeRun BB = []"
  show "\<forall>I\<in>set BB. \<not> unsafe_inst I"
  proof
    fix I assume "I \<in> set BB"
    then have "I \<in> set (beforeFirstUnsafe BB) \<or> I \<in> set (afterLastUnsafe BB)"
      using block_split[of BB] e by (metis Un_iff append_Nil set_append)
    then show "\<not> unsafe_inst I" using before_no_unsafe after_no_unsafe by blast
  qed
next
  assume "\<forall>I\<in>set BB. \<not> unsafe_inst I"
  then show "unsafeRun BB = []" by (auto simp: unsafeRun_def dest: set_dropWhileD)
qed

lemma fold_findUnsafe_none:
  "\<forall>I\<in>set xs. \<not> unsafe_inst I \<Longrightarrow> fold findUnsafe xs st = st"
  by (induction xs arbitrary: st) (auto simp: findUnsafe_def)

lemma fold_findUnsafe_last:
  "unsafe_inst l \<Longrightarrow> fold findUnsafe (xs @ [l]) (Some f, L) = (Some f, Some l)"
  by (induction xs arbitrary: L) (auto simp: findUnsafe_def)

lemma fold_findUnsafe_run:
  assumes "xs \<noteq> []" "unsafe_inst (hd xs)" "unsafe_inst (last xs)"
  shows "fold findUnsafe xs (None, None) = (Some (hd xs), Some (last xs))"
proof (cases xs)
  case Nil
  with assms show ?thesis by simp
next
  case (Cons f ys)
  show ?thesis
  proof (cases "ys = []")
    case True
    with Cons assms show ?thesis by (simp add: findUnsafe_def)
  next
    case False
    then have ys: "ys = butlast ys @ [last ys]" by simp
    have l: "last xs = last ys" using Cons False by simp
    have "fold findUnsafe xs (None, None) = fold findUnsafe ys (Some f, Some f)"
      using Cons assms by (simp add: findUnsafe_def)
    also have "\<dots> = fold findUnsafe (butlast ys @ [last ys]) (Some f, Some f)"
      using ys by simp
    also have "\<dots> = (Some f, Some (last ys))"
      using assms(3) l by (intro fold_findUnsafe_last) simp
    finally show ?thesis using Cons l by simp
  qed
qed

lemma fold_findUnsafe:
  "fold findUnsafe BB (None, None) =
     (if unsafeRun BB = [] then (None, None)
      else (Some (hd (unsafeRun BB)), Some (last (unsafeRun BB))))"
proof (cases "unsafeRun BB = []")
  case True
  then show ?thesis by (simp add: fold_findUnsafe_none unsafeRun_Nil_iff)
next
  case False
  let ?pre = "beforeFirstUnsafe BB" and ?run = "unsafeRun BB" and ?post = "afterLastUnsafe BB"
  have "fold findUnsafe BB (None, None) = fold findUnsafe (?pre @ ?run @ ?post) (None, None)"
    using block_split[of BB] by simp
  also have "\<dots> = fold findUnsafe ?post (fold findUnsafe ?run (fold findUnsafe ?pre (None, None)))"
    by simp
  also have "fold findUnsafe ?pre (None, None) = (None, None)"
    by (rule fold_findUnsafe_none) (auto dest: before_no_unsafe)
  also have "fold findUnsafe ?run (None, None) = (Some (hd ?run), Some (last ?run))"
    by (rule fold_findUnsafe_run[OF False unsafeRun_ends[OF False]])
  also have "fold findUnsafe ?post (Some (hd ?run), Some (last ?run)) = (Some (hd ?run), Some (last ?run))"
    by (rule fold_findUnsafe_none) (auto dest: after_no_unsafe)
  finally show ?thesis using False by simp
qed

lemma insertBefore_at:
  "ident x = p \<Longrightarrow> p \<notin> ident ` set A \<Longrightarrow>
   insertBefore p new (A @ x # B) = A @ new @ x # B"
  by (induction A) auto

lemma getNextNode_at:
  "ident x = p \<Longrightarrow> p \<notin> ident ` set A \<Longrightarrow>
   getNextNode p (A @ x # B) = (case B of [] \<Rightarrow> None | N # others \<Rightarrow> Some N)"
  by (induction A) auto

lemma insertUnsafeMarkers_block_shape:
  assumes split: "BB = pre @ run @ post" and ne: "run \<noteq> []"
    and found: "fold findUnsafe BB (None, None) = (Some (hd run), Some (last run))"
    and dist: "distinct (map ident BB)" and fresh: "\<forall>I\<in>set BB. ident I < n"
    and trm: "post = [] \<longrightarrow> isTerminator (last run)"
  shows "insertUnsafeMarkers_block n BB =
           Some (if post = []
                 then pre @ [beginMarker n (hd run)] @ butlast run @
                      [endMarker (Suc n) (last run), last run]
                 else pre @ [beginMarker n (hd run)] @ run @
                      [endMarker (Suc n) (hd post)] @ post, True)"
proof -
  let ?b = "beginMarker n (hd run)"
  from ne obtain f rs where run: "run = f # rs" by (cases run) auto
  from ne have runl: "run = butlast run @ [last run]" by simp
  have d1: "ident f \<notin> ident ` set pre" using dist split run by auto
  have BB1: "insertBefore (ident (hd run)) [?b] BB = pre @ [?b] @ run @ post"
    using insertBefore_at[of f "ident f" pre "[?b]" "rs @ post"] d1 split run by simp
  have idb: "ident ?b = n" by (simp add: beginMarker_def CreateCall_def)
  have lastin: "last run \<in> set BB" using split ne by simp
  have "distinct (map ident (pre @ butlast run @ [last run] @ post))"
    using dist split runl by (metis append_assoc)
  then have d2: "ident (last run) \<notin> ident ` set (pre @ butlast run)" by auto
  have "ident (last run) \<noteq> n" using fresh lastin by auto
  with d2 idb have d3: "ident (last run) \<notin> ident ` set (pre @ [?b] @ butlast run)" by auto
  have BB1': "pre @ [?b] @ run @ post = (pre @ [?b] @ butlast run) @ last run # post"
    using runl by (metis append_assoc append_Cons append_Nil)
  have nxt: "getNextNode (ident (last run)) (pre @ [?b] @ run @ post) =
        (case post of [] \<Rightarrow> None | N # others \<Rightarrow> Some N)"
    unfolding BB1' by (rule getNextNode_at[OF refl d3])
  show ?thesis
  proof (cases post)
    case Nil
    have "last (pre @ [?b] @ run) = last run" using ne by simp
    moreover have "butlast (pre @ [?b] @ run) = pre @ [?b] @ butlast run"
      using ne by (simp add: butlast_append)
    ultimately have "getTerminator (pre @ [?b] @ run) = Some (last run)"
      "butlast (pre @ [?b] @ run) = pre @ [?b] @ butlast run"
      using trm Nil by (simp_all add: getTerminator_def)
    with Nil nxt BB1 found show ?thesis
      by (simp add: insertUnsafeMarkers_block_def beginMarker_def endMarker_def)
  next
    case (Cons N post')
    have "N \<in> set BB" using split Cons by simp
    then have "ident N \<noteq> n" using fresh by auto
    moreover have "ident N \<notin> ident ` set (pre @ run)" using dist split Cons by auto
    ultimately have d4: "ident N \<notin> ident ` set (pre @ [?b] @ run)" using idb by auto
    have "insertBefore (ident N) [endMarker (Suc n) N] ((pre @ [?b] @ run) @ N # post') =
          (pre @ [?b] @ run) @ [endMarker (Suc n) N] @ N # post'"
      by (rule insertBefore_at[OF refl d4])
    with Cons nxt BB1 found show ?thesis
      by (simp add: insertUnsafeMarkers_block_def beginMarker_def endMarker_def)
  qed
qed

lemma insertUnsafeMarkers_block_none:
  "unsafeRun BB = [] \<Longrightarrow> insertUnsafeMarkers_block n BB = Some (BB, False)"
  by (simp add: insertUnsafeMarkers_block_def fold_findUnsafe)

lemma afterLast_Nil_last:
  assumes "unsafeRun BB \<noteq> []" "afterLastUnsafe BB = []"
  shows "last (unsafeRun BB) = last BB"
  using block_split[of BB] assms by (metis append_Nil2 last_appendR)

lemma insertUnsafeMarkers_block_run:
  assumes ne: "unsafeRun BB \<noteq> []"
    and dist: "distinct (map ident BB)" and fresh: "\<forall>I\<in>set BB. ident I < n"
    and wf: "wellFormedBlock BB"
  shows "insertUnsafeMarkers_block n BB =
           Some (if afterLastUnsafe BB = []
                 then beforeFirstUnsafe BB @ [beginMarker n (hd (unsafeRun BB))] @
                      butlast (unsafeRun BB) @
                      [endMarker (Suc n) (last (unsafeRun BB)), last (unsafeRun BB)]
                 else beforeFirstUnsafe BB @ [beginMarker n (hd (unsafeRun BB))] @
                      unsafeRun BB @ [endMarker (Suc n) (hd (afterLastUnsafe BB))] @
                      afterLastUnsafe BB, True)"
proof (rule insertUnsafeMarkers_block_shape[OF block_split ne _ dist fresh])
  show "fold findUnsafe BB (None, None) = (Some (hd (unsafeRun BB)), Some (last (unsafeRun BB)))"
    using ne by (simp add: fold_findUnsafe)
  show "afterLastUnsafe BB = [] \<longrightarrow> isTerminator (last (unsafeRun BB))"
    using afterLast_Nil_last[OF ne] wf by (auto simp: wellFormedBlock_def)
qed

lemma beginMarker_facts [simp]:
  "isBeginSentinel (beginMarker n IP)" "\<not> isEndSentinel (beginMarker n IP)"
  "isSentinel (beginMarker n IP)" "\<not> isTerminator (beginMarker n IP)"
  "\<not> unsafe_inst (beginMarker n IP)" "ident (beginMarker n IP) = n"
  by (simp_all add: beginMarker_def CreateCall_def isBeginSentinel_def isEndSentinel_def
        isSentinel_def calledInlineAsm_def isCallBase_def AsmMarkerBegin_def isTerminator_def
        UNSAFE_MARKER_BEGIN_def UNSAFE_MARKER_END_def)

lemma endMarker_facts [simp]:
  "isEndSentinel (endMarker n IP)" "\<not> isBeginSentinel (endMarker n IP)"
  "isSentinel (endMarker n IP)" "\<not> isTerminator (endMarker n IP)"
  "\<not> unsafe_inst (endMarker n IP)" "ident (endMarker n IP) = n"
  by (simp_all add: endMarker_def CreateCall_def isBeginSentinel_def isEndSentinel_def
        isSentinel_def calledInlineAsm_def isCallBase_def AsmMarkerEnd_def isTerminator_def
        UNSAFE_MARKER_BEGIN_def UNSAFE_MARKER_END_def)

lemma fresh_ident_gt: "I \<in> set (concat bbs) \<Longrightarrow> ident I < fresh_ident bbs"
proof -
  have "I \<in> set xs \<Longrightarrow> ident I \<le> foldr (\<lambda>I m. max (ident I) m) xs 0" for xs
    by (induction xs) (auto simp: max_def)
  then show "I \<in> set (concat bbs) \<Longrightarrow> ident I < fresh_ident bbs"
    unfolding fresh_ident_def by (meson le_imp_less_Suc)
qed

lemma insertUnsafeMarkers_blocks_spec:
  assumes "\<forall>BB\<in>set todo. wellFormedBlock BB \<and> distinct (map ident BB)"
  shows "\<exists>bbs m. insertUnsafeMarkers_blocks done todo = Some (done @ bbs, m) \<and>
                  list_all2 markerResult todo bbs"
  using assms
proof (induction todo arbitrary: "done")
  case Nil
  show ?case by (intro exI[of _ "[]"] exI[of _ False]) simp
next
  case (Cons BB todo)
  let ?n = "fresh_ident (done @ BB # todo)"
  from Cons.prems have wf: "wellFormedBlock BB" and dist: "distinct (map ident BB)"
    and rest: "\<forall>B\<in>set todo. wellFormedBlock B \<and> distinct (map ident B)" by simp_all
  have fresh: "\<forall>I\<in>set BB. ident I < ?n" by (auto intro: fresh_ident_gt)
  obtain BB' where step: "insertUnsafeMarkers_block ?n BB = Some (BB', unsafeRun BB \<noteq> [])"
  proof (cases "unsafeRun BB = []")
    case True
    then show ?thesis using that by (simp add: insertUnsafeMarkers_block_none)
  next
    case False
    then show ?thesis using that insertUnsafeMarkers_block_run[OF False dist fresh wf] by simp
  qed
  with fresh have mr: "markerResult BB BB'" unfolding markerResult_def by blast
  from Cons.IH[OF rest, of "done @ [BB']"] obtain bbs m where
    r: "insertUnsafeMarkers_blocks (done @ [BB']) todo = Some ((done @ [BB']) @ bbs, m)"
    and l: "list_all2 markerResult todo bbs" by blast
  from step r l mr show ?case
    by (intro exI[of _ "BB' # bbs"] exI[of _ "unsafeRun BB \<noteq> [] \<or> m"]) simp
qed

lemma markerResult_markedBlock:
  assumes mr: "markerResult BB BB'" and wf: "wellFormedBlock BB"
    and dist: "distinct (map ident BB)"
  shows "markedBlock BB BB'"
proof (cases "unsafeRun BB = []")
  case True
  with mr show ?thesis
    by (auto simp: markerResult_def markedBlock_def insertUnsafeMarkers_block_none)
next
  case False
  from mr obtain n where fresh: "\<forall>I\<in>set BB. ident I < n"
    and r: "insertUnsafeMarkers_block n BB = Some (BB', True)"
    using False by (auto simp: markerResult_def)
  note sh = insertUnsafeMarkers_block_run[OF False dist fresh wf]
  show ?thesis
  proof (cases "afterLastUnsafe BB = []")
    case True
    with sh r have "BB' = beforeFirstUnsafe BB @ [beginMarker n (hd (unsafeRun BB))] @
                      butlast (unsafeRun BB) @
                      [endMarker (Suc n) (last (unsafeRun BB)), last (unsafeRun BB)]" by simp
    moreover have "length (beforeFirstUnsafe BB) + length (unsafeRun BB) =
       length (beforeFirstUnsafe BB @ [beginMarker n (hd (unsafeRun BB))] @ butlast (unsafeRun BB))"
      using False by (simp add: Suc_leI)
    ultimately show ?thesis using False True
      by (simp add: markedBlock_def Let_def nth_append)
  next
    case ne: False
    with sh r have "BB' = beforeFirstUnsafe BB @ [beginMarker n (hd (unsafeRun BB))] @
                      unsafeRun BB @ [endMarker (Suc n) (hd (afterLastUnsafe BB))] @
                      afterLastUnsafe BB" by simp
    then show ?thesis using False ne
      by (simp add: markedBlock_def Let_def nth_append)
  qed
qed

lemma wellFormedBlock_snoc:
  "wellFormedBlock (A @ [t]) \<longleftrightarrow> isTerminator t \<and> (\<forall>I\<in>set A. \<not> isTerminator I)"
  by (auto simp: wellFormedBlock_def list_all_iff)

lemma unsafe_last_iff:
  assumes ne: "unsafeRun BB \<noteq> []"
  shows "unsafe_inst (last BB) \<longleftrightarrow> afterLastUnsafe BB = []"
proof
  assume u: "unsafe_inst (last BB)"
  show "afterLastUnsafe BB = []"
  proof (rule ccontr)
    assume a: "afterLastUnsafe BB \<noteq> []"
    then have "last (beforeFirstUnsafe BB @ unsafeRun BB @ afterLastUnsafe BB) =
        last (afterLastUnsafe BB)" by simp
    then have "last BB = last (afterLastUnsafe BB)"
      by (simp only: block_split[symmetric])
    moreover have "last (afterLastUnsafe BB) \<in> set (afterLastUnsafe BB)" using a by simp
    ultimately show False using u after_no_unsafe[of "last BB" BB] by simp
  qed
next
  assume "afterLastUnsafe BB = []"
  then show "unsafe_inst (last BB)"
    using afterLast_Nil_last[OF ne] unsafeRun_ends(2)[OF ne] by simp
qed

lemma markerResult_endMarkerPlaced:
  assumes mr: "markerResult BB BB'" and wf: "wellFormedBlock BB"
    and dist: "distinct (map ident BB)"
  shows "endMarkerPlaced BB BB'"
proof (cases "unsafeRun BB = []")
  case True
  with mr show ?thesis
    by (auto simp: markerResult_def endMarkerPlaced_def insertUnsafeMarkers_block_none)
next
  case False
  from mr obtain n where fresh: "\<forall>I\<in>set BB. ident I < n"
    and r: "insertUnsafeMarkers_block n BB = Some (BB', True)"
    using False by (auto simp: markerResult_def)
  note sh = insertUnsafeMarkers_block_run[OF False dist fresh wf]
  define pre where "pre = beforeFirstUnsafe BB"
  define post where "post = afterLastUnsafe BB"
  define rb where "rb = butlast (unsafeRun BB)"
  define rl where "rl = last (unsafeRun BB)"
  define b where "b = beginMarker n (hd (unsafeRun BB))"
  have run: "unsafeRun BB = rb @ [rl]" using False by (simp add: rb_def rl_def)
  have "beforeFirstUnsafe BB @ unsafeRun BB @ afterLastUnsafe BB = pre @ rb @ [rl] @ post"
    by (simp add: pre_def post_def run)
  then have BB: "BB = pre @ rb @ [rl] @ post"
    by (simp only: block_split[symmetric])
  have nb: "\<not> isTerminator b" by (simp add: b_def)
  show ?thesis
  proof (cases "post = []")
    case True
    define e where "e = endMarker (Suc n) rl"
    have ne: "\<not> isTerminator e" "isEndSentinel e" by (simp_all add: e_def)
    from sh r True have B': "BB' = pre @ [b] @ rb @ [e, rl]"
      by (simp add: pre_def post_def rb_def rl_def b_def e_def)
    from BB True have BBs: "BB = (pre @ rb) @ [rl]" by simp
    from wf have t: "isTerminator rl" "\<forall>I\<in>set (pre @ rb). \<not> isTerminator I"
      unfolding BBs wellFormedBlock_snoc by simp_all
    have "BB' = (pre @ [b] @ rb @ [e]) @ [rl]" using B' by simp
    then have wf': "wellFormedBlock BB'"
      using t nb ne wellFormedBlock_snoc[of "pre @ [b] @ rb @ [e]" rl] by auto
    have lastBB: "last BB = rl" using BBs by simp
    have len: "length BB' = length BB + 2" using B' BBs by simp
    have "BB' ! (length (pre @ [b] @ rb)) = e"
      unfolding B' by (simp add: nth_append)
    moreover have "length BB' - 2 = length (pre @ [b] @ rb)" using B' by simp
    ultimately have ep: "isEndSentinel (BB' ! (length BB' - 2))" using ne by simp
    have "last BB' = rl" using B' by simp
    with wf' len ep lastBB False True unsafe_last_iff[OF False] show ?thesis
      by (simp add: endMarkerPlaced_def Let_def post_def)
  next
    case ne: False
    define e where "e = endMarker (Suc n) (hd post)"
    define pb where "pb = butlast post"
    define pl where "pl = last post"
    have post: "post = pb @ [pl]" using ne by (simp add: pb_def pl_def)
    have nte: "\<not> isTerminator e" "isEndSentinel e" by (simp_all add: e_def)
    from sh r ne have B': "BB' = pre @ [b] @ rb @ [rl] @ [e] @ pb @ [pl]"
      using run post by (simp add: pre_def post_def b_def e_def)
    from BB post have BBs: "BB = (pre @ rb @ [rl] @ pb) @ [pl]" by simp
    from wf have t: "isTerminator pl" "\<forall>I\<in>set (pre @ rb @ [rl] @ pb). \<not> isTerminator I"
      unfolding BBs wellFormedBlock_snoc by simp_all
    have "BB' = (pre @ [b] @ rb @ [rl] @ [e] @ pb) @ [pl]" using B' by simp
    then have wf': "wellFormedBlock BB'"
      using t nb nte wellFormedBlock_snoc[of "pre @ [b] @ rb @ [rl] @ [e] @ pb" pl] by auto
    have lastBB: "last BB = pl" using BBs by simp
    have lastB': "last BB' = pl" using B' by simp
    have k: "length (beforeFirstUnsafe BB) + length (unsafeRun BB) = length (pre @ [b] @ rb)"
      using run by (simp add: pre_def)
    have k1: "BB' ! (length (pre @ [b] @ rb)) = rl"
      unfolding B' by (simp add: nth_append)
    have "BB' = (pre @ [b] @ rb @ [rl]) @ e # pb @ [pl]" using B' by simp
    then have "BB' ! (length (pre @ [b] @ rb @ [rl])) = e" by (simp only: nth_append_length)
    then have k2: "BB' ! Suc (length (pre @ [b] @ rb)) = e" by simp
    from wf' lastB' lastBB k k1 k2 nte False ne unsafe_last_iff[OF False] show ?thesis
      by (simp add: endMarkerPlaced_def Let_def post_def rl_def)
  qed
qed

lemma captureUnsafeLineInfo_inst_fields [simp]:
  "ident (captureUnsafeLineInfo_inst I) = ident I"
  "opcode (captureUnsafeLineInfo_inst I) = opcode I"
  "called (captureUnsafeLineInfo_inst I) = called I"
  "unsafe_inst (captureUnsafeLineInfo_inst I) = unsafe_inst I"
  by (simp_all add: captureUnsafeLineInfo_inst_def createUnsafeLineMetadata_def Let_def
        split: option.splits)

lemma capture_isSentinel [simp]:
  "isSentinel (captureUnsafeLineInfo_inst I) = isSentinel I"
  by (simp add: isSentinel_def calledInlineAsm_def isCallBase_def)

lemma capture_isTerminator [simp]:
  "isTerminator (captureUnsafeLineInfo_inst I) = isTerminator I"
  by (simp add: isTerminator_def)

lemma capture_wellFormedBlock [simp]:
  "wellFormedBlock (map captureUnsafeLineInfo_inst BB) = wellFormedBlock BB"
  by (cases BB rule: rev_cases)
     (simp_all add: wellFormedBlock_def list_all_iff)

lemma capture_distinct [simp]:
  "map (ident \<circ> captureUnsafeLineInfo_inst) BB = map ident BB"
  by (simp add: comp_def)

lemma list_all2_range:
  "list_all2 P xs ys \<Longrightarrow> (\<And>x y. x \<in> set xs \<Longrightarrow> P x y \<Longrightarrow> Q y) \<Longrightarrow> \<forall>y\<in>set ys. Q y"
  by (induction rule: list_all2_induct) auto

lemma list_all2_domain:
  "list_all2 P xs ys \<Longrightarrow> (\<And>x y. x \<in> set xs \<Longrightarrow> P x y \<Longrightarrow> Q x y) \<Longrightarrow> list_all2 Q xs ys"
  by (induction rule: list_all2_induct) auto

lemma sentinel_kinds:
  "isBeginSentinel I \<Longrightarrow> isSentinel I" "isEndSentinel I \<Longrightarrow> isSentinel I"
  "isEndSentinel I \<Longrightarrow> \<not> isBeginSentinel I"
  by (auto simp: isBeginSentinel_def isEndSentinel_def isSentinel_def
        UNSAFE_MARKER_BEGIN_def UNSAFE_MARKER_END_def)

lemma filter_none: "\<forall>I\<in>set xs. \<not> P I \<Longrightarrow> filter P xs = []"
  by (induction xs) auto

lemma markedBlock_trace:
  assumes m: "markedBlock BB BB'" and clean: "\<forall>I\<in>set BB. \<not> isSentinel I"
  shows "sentinelTrace BB' = [] \<or> sentinelTrace BB' = [True, False]"
proof (cases "unsafeRun BB = []")
  case True
  with m have "BB' = BB" by (simp add: markedBlock_def)
  with clean show ?thesis by (simp add: sentinelTrace_def filter_none)
next
  case False
  define pre where "pre = beforeFirstUnsafe BB"
  define run where "run = unsafeRun BB"
  define post where "post = afterLastUnsafe BB"
  have "beforeFirstUnsafe BB @ unsafeRun BB @ afterLastUnsafe BB = pre @ run @ post"
    by (simp add: pre_def run_def post_def)
  then have BB: "BB = pre @ run @ post" by (simp only: block_split[symmetric])
  have rne: "run \<noteq> []" using False by (simp add: run_def)
  then have runl: "run = butlast run @ [last run]" by simp
  from clean BB have c: "filter isSentinel pre = []" "filter isSentinel run = []"
    "filter isSentinel post = []" by (simp_all add: filter_none)
  then have c2: "filter isSentinel (butlast run) = []" "\<not> isSentinel (last run)"
    using runl by (metis filter_append append_is_Nil_conv, metis filter.simps(2) filter_append
        append_is_Nil_conv list.distinct(1))
  define b where "b = BB' ! length pre"
  define e where "e = BB' ! (if post = [] then length pre + length run
                             else length pre + length run + 1)"
  from m False have be: "isBeginSentinel b" "isEndSentinel e"
    and B': "BB' = (if post = [] then pre @ [b] @ butlast run @ [e, last run]
                    else pre @ [b] @ run @ [e] @ post)"
    unfolding markedBlock_def Let_def pre_def run_def post_def b_def e_def
    by (simp_all only: if_False simp_thms)
  have "filter isSentinel BB' = [b, e]"
    using B' c c2 be sentinel_kinds(1)[OF be(1)] sentinel_kinds(2)[OF be(2)] by auto
  then show ?thesis using be sentinel_kinds(3)[OF be(2)] by (simp add: sentinelTrace_def)
qed

lemma InstMarkerPass_run_spec:
  assumes primary: "isPrimaryPackage env"
    and wf: "\<forall>BB\<in>set (blocks F). wellFormedBlock BB \<and> distinct (map ident BB)"
  shows "\<exists>bbs verdict. InstMarkerPass_run env F = Some (F\<lparr> blocks := bbs \<rparr>, verdict) \<and>
           list_all2 markerResult (blocks (captureUnsafeLineInfo F)) bbs"
proof -
  have "\<forall>BB\<in>set (blocks (captureUnsafeLineInfo F)). wellFormedBlock BB \<and> distinct (map ident BB)"
    using wf by (auto simp: captureUnsafeLineInfo_def)
  from insertUnsafeMarkers_blocks_spec[OF this, of "[]"] obtain bbs m where
    r: "insertUnsafeMarkers_blocks [] (blocks (captureUnsafeLineInfo F)) = Some (bbs, m)"
    and l: "list_all2 markerResult (blocks (captureUnsafeLineInfo F)) bbs" by auto
  have "(captureUnsafeLineInfo F)\<lparr> blocks := bbs \<rparr> = F\<lparr> blocks := bbs \<rparr>"
    by (simp add: captureUnsafeLineInfo_def)
  with r l primary show ?thesis
    by (intro exI[of _ bbs] exI[of _ "if m then PreservedNone else PreservedAll"])
       (simp add: InstMarkerPass_run_def insertUnsafeMarkers_def)
qed

text \<open>
  Claim C3, as the code has it. On a primary build, for a function whose blocks are
  well formed, have distinct instruction identities and hold no sentinel, the pass
  returns the function with every block marked as \<open>markedBlock\<close> describes, and the
  sentinels of every resulting block are none at all or one begin followed by one end.
  When an instruction follows the last one carrying \<open>unsafe_inst\<close>, the begin
  sentinel stands immediately before the first such instruction and the end sentinel
  immediately after the last. When the last such instruction ends the block, the end
  sentinel stands immediately before it; the begin sentinel then stands immediately
  before the first such instruction if that is another instruction, and immediately
  before the end sentinel if it is the same one.
\<close>

theorem C3_marker_pair_per_block:
  assumes primary: "isPrimaryPackage env"
    and wf: "\<forall>BB\<in>set (blocks F). wellFormedBlock BB \<and> distinct (map ident BB)"
    and clean: "\<forall>BB\<in>set (blocks F). \<forall>I\<in>set BB. \<not> isSentinel I"
  shows "\<exists>bbs verdict. InstMarkerPass_run env F = Some (F\<lparr> blocks := bbs \<rparr>, verdict) \<and>
           list_all2 markedBlock (blocks (captureUnsafeLineInfo F)) bbs \<and>
           (\<forall>BB'\<in>set bbs. sentinelTrace BB' = [] \<or> sentinelTrace BB' = [True, False])"
proof -
  from InstMarkerPass_run_spec[OF primary wf] obtain bbs verdict where
    r: "InstMarkerPass_run env F = Some (F\<lparr> blocks := bbs \<rparr>, verdict)"
    and l: "list_all2 markerResult (blocks (captureUnsafeLineInfo F)) bbs" by blast
  have wfc: "\<And>BB. BB \<in> set (blocks (captureUnsafeLineInfo F)) \<Longrightarrow>
      wellFormedBlock BB \<and> distinct (map ident BB) \<and> (\<forall>I\<in>set BB. \<not> isSentinel I)"
    using wf clean by (auto simp: captureUnsafeLineInfo_def)
  have m: "list_all2 markedBlock (blocks (captureUnsafeLineInfo F)) bbs"
    by (rule list_all2_domain[OF l]) (simp add: markerResult_markedBlock wfc)
  have "\<forall>BB'\<in>set bbs. sentinelTrace BB' = [] \<or> sentinelTrace BB' = [True, False]"
    by (rule list_all2_range[OF m]) (simp add: markedBlock_trace wfc)
  with r m show ?thesis by blast
qed

text \<open>
  Claim C4. On a primary build, for a function whose blocks are well formed with
  distinct instruction identities: in every block whose last instruction carrying
  \<open>unsafe_inst\<close> is the terminator, the end sentinel is inserted immediately before the
  terminator and the block still ends with exactly one terminator; in every other
  block with such an instruction the end sentinel comes immediately after the last
  one.
\<close>

theorem C4_end_marker_before_terminator:
  assumes primary: "isPrimaryPackage env"
    and wf: "\<forall>BB\<in>set (blocks F). wellFormedBlock BB \<and> distinct (map ident BB)"
  shows "\<exists>bbs verdict. InstMarkerPass_run env F = Some (F\<lparr> blocks := bbs \<rparr>, verdict) \<and>
           list_all2 endMarkerPlaced (blocks (captureUnsafeLineInfo F)) bbs"
proof -
  from InstMarkerPass_run_spec[OF primary wf] obtain bbs verdict where
    r: "InstMarkerPass_run env F = Some (F\<lparr> blocks := bbs \<rparr>, verdict)"
    and l: "list_all2 markerResult (blocks (captureUnsafeLineInfo F)) bbs" by blast
  have wfc: "\<And>BB. BB \<in> set (blocks (captureUnsafeLineInfo F)) \<Longrightarrow>
      wellFormedBlock BB \<and> distinct (map ident BB)"
    using wf by (auto simp: captureUnsafeLineInfo_def)
  have "list_all2 endMarkerPlaced (blocks (captureUnsafeLineInfo F)) bbs"
    by (rule list_all2_domain[OF l]) (simp add: markerResult_endMarkerPlaced wfc)
  with r show ?thesis by blast
qed

lemmas marker_example_simps =
  mkFunc_def unsafeInst_def plainInst_def captureUnsafeLineInfo_def captureUnsafeLineInfo_inst_def
  wellFormedBlock_def isTerminator_def isSentinel_def calledInlineAsm_def isCallBase_def

text \<open>
  Claim C3 fails as stated when the last instruction carrying \<open>unsafe_inst\<close> is the
  terminator of the block: \<open>getNextNode\<close> is null, the end sentinel is inserted before
  the terminator, and so before the last unsafe instruction, not after it.
\<close>

theorem C3_counterexample:
  "InstMarkerPass_run (Some ''1'') unsafeTermFunc =
     Some (unsafeTermFunc\<lparr> blocks :=
             [[plainInst 0 Load, beginMarker 2 (unsafeInst 1 Ret),
               endMarker 3 (unsafeInst 1 Ret), unsafeInst 1 Ret]] \<rparr>, PreservedNone) \<and>
   \<not> list_all2 markedBlockAsStated (blocks (captureUnsafeLineInfo unsafeTermFunc))
       [[plainInst 0 Load, beginMarker 2 (unsafeInst 1 Ret),
         endMarker 3 (unsafeInst 1 Ret), unsafeInst 1 Ret]]"
proof -
  have run: "InstMarkerPass_run (Some ''1'') unsafeTermFunc =
     Some (unsafeTermFunc\<lparr> blocks :=
             [[plainInst 0 Load, beginMarker 2 (unsafeInst 1 Ret),
               endMarker 3 (unsafeInst 1 Ret), unsafeInst 1 Ret]] \<rparr>, PreservedNone)"
    by (simp add: InstMarkerPass_run_def isPrimaryPackage_def insertUnsafeMarkers_def
          insertUnsafeMarkers_block_def findUnsafe_def fresh_ident_def getTerminator_def
          unsafeTermFunc_def beginMarker_def endMarker_def marker_example_simps
          CreateCall_def numeral_2_eq_2 numeral_3_eq_3)
  have "\<not> markedBlockAsStated [plainInst 0 Load, unsafeInst 1 Ret]
          [plainInst 0 Load, beginMarker 2 (unsafeInst 1 Ret),
           endMarker 3 (unsafeInst 1 Ret), unsafeInst 1 Ret]"
    by (simp add: markedBlockAsStated_def beforeFirstUnsafe_def unsafeRun_def afterLastUnsafe_def
          unsafeInst_def plainInst_def beginMarker_def endMarker_def CreateCall_def)
  then have "\<not> list_all2 markedBlockAsStated (blocks (captureUnsafeLineInfo unsafeTermFunc))
       [[plainInst 0 Load, beginMarker 2 (unsafeInst 1 Ret),
         endMarker 3 (unsafeInst 1 Ret), unsafeInst 1 Ret]]"
    by (simp add: unsafeTermFunc_def mkFunc_def captureUnsafeLineInfo_def
          captureUnsafeLineInfo_inst_def unsafeInst_def plainInst_def)
  with run show ?thesis by blast
qed

lemma scenarioFunc_wf:
  "\<forall>BB\<in>set (blocks scenarioFunc). wellFormedBlock BB \<and> distinct (map ident BB)"
  by (simp add: scenarioFunc_def marker_example_simps)

lemma scenarioFunc_clean:
  "\<forall>BB\<in>set (blocks scenarioFunc). \<forall>I\<in>set BB. \<not> isSentinel I"
  by (simp add: scenarioFunc_def marker_example_simps)

lemma primary_one: "isPrimaryPackage (Some ''1'')"
  by (simp add: isPrimaryPackage_def)

theorem C3_marker_pair_per_block_witness:
  "isPrimaryPackage (Some ''1'') \<and>
   list_all (\<lambda>BB. wellFormedBlock BB \<and> distinct (map ident BB)) (blocks scenarioFunc) \<and>
   list_all (list_all (\<lambda>I. \<not> isSentinel I)) (blocks scenarioFunc) \<and>
   (\<exists>bbs verdict.
      InstMarkerPass_run (Some ''1'') scenarioFunc = Some (scenarioFunc\<lparr> blocks := bbs \<rparr>, verdict) \<and>
      list_all2 markedBlock (blocks (captureUnsafeLineInfo scenarioFunc)) bbs \<and>
      list_all (\<lambda>BB'. sentinelTrace BB' = [] \<or> sentinelTrace BB' = [True, False]) bbs)"
  using C3_marker_pair_per_block[OF primary_one scenarioFunc_wf scenarioFunc_clean]
        primary_one scenarioFunc_wf scenarioFunc_clean
  by (simp add: list_all_iff)

theorem C4_end_marker_before_terminator_witness:
  "isPrimaryPackage (Some ''1'') \<and>
   list_all (\<lambda>BB. wellFormedBlock BB \<and> distinct (map ident BB)) (blocks scenarioFunc) \<and>
   (\<exists>bbs verdict.
      InstMarkerPass_run (Some ''1'') scenarioFunc = Some (scenarioFunc\<lparr> blocks := bbs \<rparr>, verdict) \<and>
      list_all2 endMarkerPlaced (blocks (captureUnsafeLineInfo scenarioFunc)) bbs)"
  using C4_end_marker_before_terminator[OF primary_one scenarioFunc_wf]
        primary_one scenarioFunc_wf
  by (simp add: list_all_iff)

section \<open>UnsafeFunctionTracker: dense function ids\<close>

lemma assignIds_spec:
  assumes "k + length (filter shouldInstrumentFunction Fs) \<le> 2 ^ 32"
    and "assignIds Fs pos (word_of_nat k) = (Fs', metadata, toInstrument)"
  shows "map func_id_md Fs' = denseIds Fs k \<and>
         map fm_id metadata = map word_of_nat [k ..< k + length (filter shouldInstrumentFunction Fs)] \<and>
         map blocks Fs' = map blocks Fs \<and> map fname Fs' = map fname Fs \<and>
         map isIntrinsic Fs' = map isIntrinsic Fs \<and>
         (\<forall>p\<in>set toInstrument. pos \<le> p \<and> p < pos + length Fs \<and>
             shouldInstrumentFunction (Fs ! (p - pos)))"
  using assms
proof (induction Fs arbitrary: k pos Fs' metadata toInstrument)
  case Nil
  then show ?case by simp
next
  case (Cons F Fs)
  show ?case
  proof (cases "shouldInstrumentFunction F")
    case False
    obtain Fs1 md1 ti1 where r: "assignIds Fs (Suc pos) (word_of_nat k) = (Fs1, md1, ti1)"
      by (cases "assignIds Fs (Suc pos) (word_of_nat k :: 32 word)") auto
    from Cons.prems(1) False have b: "k + length (filter shouldInstrumentFunction Fs) \<le> 2 ^ 32"
      by simp
    note IH = Cons.IH[OF b r]
    from Cons.prems(2) False r have e: "Fs' = F # Fs1" "metadata = md1" "toInstrument = ti1"
      by simp_all
    have "\<forall>p\<in>set ti1. pos \<le> p \<and> p < pos + length (F # Fs) \<and>
             shouldInstrumentFunction ((F # Fs) ! (p - pos))"
    proof
      fix p assume "p \<in> set ti1"
      with IH have p: "Suc pos \<le> p" "p < Suc pos + length Fs"
        "shouldInstrumentFunction (Fs ! (p - Suc pos))" by auto
      then have "p - pos = Suc (p - Suc pos)" by simp
      with p show "pos \<le> p \<and> p < pos + length (F # Fs) \<and>
             shouldInstrumentFunction ((F # Fs) ! (p - pos))" by simp
    qed
    with IH e False show ?thesis by simp
  next
    case True
    obtain Fs1 md1 ti1 where
      r: "assignIds Fs (Suc pos) (word_of_nat (Suc k)) = (Fs1, md1, ti1)"
      by (cases "assignIds Fs (Suc pos) (word_of_nat (Suc k) :: 32 word)") auto
    from Cons.prems(1) True have b: "Suc k + length (filter shouldInstrumentFunction Fs) \<le> 2 ^ 32"
      and kb: "k < 2 ^ 32" by simp_all
    note IH = Cons.IH[OF b r]
    have uk: "unat (word_of_nat k :: 32 word) = k"
      by (rule of_nat_inverse[OF refl]) (use kb in simp)
    have w: "(word_of_nat k :: 32 word) + 1 = word_of_nat (Suc k)" by simp
    from Cons.prems(2) True r w uk have
      e: "Fs' = F\<lparr> func_id_md := Some [MDConstInt 32 k] \<rparr> # Fs1"
         "map fm_id metadata = word_of_nat k # map fm_id md1" "toInstrument = pos # ti1"
      by (auto simp: Let_def)
    have up: "[k ..< k + Suc (length (filter shouldInstrumentFunction Fs))] =
          k # [Suc k ..< Suc k + length (filter shouldInstrumentFunction Fs)]"
      by (subst upt_rec) simp
    have "\<forall>p\<in>set (pos # ti1). pos \<le> p \<and> p < pos + length (F # Fs) \<and>
             shouldInstrumentFunction ((F # Fs) ! (p - pos))"
    proof
      fix p assume "p \<in> set (pos # ti1)"
      then consider "p = pos" | "p \<in> set ti1" by auto
      then show "pos \<le> p \<and> p < pos + length (F # Fs) \<and>
             shouldInstrumentFunction ((F # Fs) ! (p - pos))"
      proof cases
        case 1
        with True show ?thesis by simp
      next
        case 2
        with IH have p: "Suc pos \<le> p" "p < Suc pos + length Fs"
          "shouldInstrumentFunction (Fs ! (p - Suc pos))" by auto
        then have "p - pos = Suc (p - Suc pos)" by simp
        with p show ?thesis by simp
      qed
    qed
    with IH e True up show ?thesis by simp
  qed
qed

lemma grownFrom_refl: "grownFrom Fs Fs"
  unfolding grownFrom_def by (intro exI[of _ Fs] exI[of _ "[]"]) simp

lemma grownFrom_trans:
  assumes "grownFrom Fs Fs'" "grownFrom Fs' Fs''"
  shows "grownFrom Fs Fs''"
proof -
  from assms(1) obtain A e1 where 1: "Fs' = A @ e1" "map func_id_md A = map func_id_md Fs"
    "map blocks A = map blocks Fs" "\<forall>F\<in>set e1. func_id_md F = None"
    unfolding grownFrom_def by blast
  from assms(2) obtain B e2 where 2: "Fs'' = B @ e2" "map func_id_md B = map func_id_md Fs'"
    "map blocks B = map blocks Fs'" "\<forall>F\<in>set e2. func_id_md F = None"
    unfolding grownFrom_def by blast
  have lenB: "length B = length A + length e1"
    using 2(2) 1(1) by (metis length_append length_map)
  have lenA: "length A = length Fs" using 1(2) by (metis length_map)
  define B1 where "B1 = take (length A) B"
  define B2 where "B2 = drop (length A) B"
  have B: "B = B1 @ B2" by (simp add: B1_def B2_def)
  have mB: "map func_id_md B = map func_id_md A @ map func_id_md e1"
    and bB: "map blocks B = map blocks A @ map blocks e1"
    using 2(2,3) 1(1) by simp_all
  have "map func_id_md B1 = take (length A) (map func_id_md B)"
    unfolding B1_def by (simp add: take_map)
  then have i1: "map func_id_md B1 = map func_id_md Fs" using mB 1(2) lenA by simp
  have "map blocks B1 = take (length A) (map blocks B)"
    unfolding B1_def by (simp add: take_map)
  then have i2: "map blocks B1 = map blocks Fs" using bB 1(3) lenA by simp
  have "map func_id_md B2 = drop (length A) (map func_id_md B)"
    unfolding B2_def by (simp add: drop_map)
  then have "map func_id_md B2 = map func_id_md e1" using mB 1(2) lenA by simp
  then have "set (map func_id_md B2) = set (map func_id_md e1)" by simp
  then have "\<forall>F\<in>set B2. func_id_md F = None" using 1(4) by (auto simp: image_iff)
  with 2(4) have i3: "\<forall>F\<in>set (B2 @ e2). func_id_md F = None" by auto
  show ?thesis unfolding grownFrom_def
    using 2(1) B i1 i2 i3 by (intro exI[of _ B1] exI[of _ "B2 @ e2"]) simp
qed

lemma grownFrom_append:
  "\<forall>F\<in>set ext. func_id_md F = None \<Longrightarrow> grownFrom Fs (Fs @ ext)"
  unfolding grownFrom_def by (intro exI[of _ Fs] exI[of _ ext]) simp

lemma grownFrom_map:
  "(\<And>F. func_id_md (h F) = func_id_md F \<and> blocks (h F) = blocks F) \<Longrightarrow>
   grownFrom Fs (map h Fs)"
  unfolding grownFrom_def by (intro exI[of _ "map h Fs"] exI[of _ "[]"]) simp

lemma getOrInsertFunction_grown:
  "grownFrom (funcs M) (funcs (fst (getOrInsertFunction M name)))"
  by (auto simp: getOrInsertFunction_def grownFrom_refl declareFunction_def
        intro!: grownFrom_append)

lemma setRuntimeAttrs_grown: "grownFrom (funcs M) (funcs (setRuntimeAttrs name M))"
  unfolding setRuntimeAttrs_def by (simp, rule grownFrom_map) simp

lemma grownFrom_nth:
  assumes "grownFrom Fs Fs'" "p < length Fs"
  shows "p < length Fs'" "func_id_md (Fs' ! p) = func_id_md (Fs ! p)"
        "blocks (Fs' ! p) = blocks (Fs ! p)"
proof -
  from assms(1) obtain A e where 1: "Fs' = A @ e" "map func_id_md A = map func_id_md Fs"
    "map blocks A = map blocks Fs" unfolding grownFrom_def by blast
  have lenA: "length A = length Fs" using 1(2) by (metis length_map)
  with assms(2) 1(1) show "p < length Fs'" by simp
  have "Fs' ! p = A ! p" using 1(1) lenA assms(2) by (simp add: nth_append)
  moreover have "func_id_md (A ! p) = func_id_md (Fs ! p)"
    using 1(2) lenA assms(2) by (metis nth_map)
  moreover have "blocks (A ! p) = blocks (Fs ! p)"
    using 1(3) lenA assms(2) by (metis nth_map)
  ultimately show "func_id_md (Fs' ! p) = func_id_md (Fs ! p)"
        "blocks (Fs' ! p) = blocks (Fs ! p)" by simp_all
qed

lemma grownFrom_take_drop:
  assumes "grownFrom Fs Fs'"
  shows "map func_id_md (take (length Fs) Fs') = map func_id_md Fs"
    and "\<forall>F\<in>set (drop (length Fs) Fs'). func_id_md F = None"
proof -
  from assms obtain A e where 1: "Fs' = A @ e" "map func_id_md A = map func_id_md Fs"
    "\<forall>F\<in>set e. func_id_md F = None" unfolding grownFrom_def by blast
  have lenA: "length A = length Fs" using 1(2) by (metis length_map)
  show "map func_id_md (take (length Fs) Fs') = map func_id_md Fs"
    using 1 lenA by simp
  show "\<forall>F\<in>set (drop (length Fs) Fs'). func_id_md F = None"
    using 1 lenA by simp
qed

lemma instrumentEntry_Some:
  assumes "instrumentEntry F = Some F'"
  shows "func_id_md F' = func_id_md F" "instrumentEntry F' \<noteq> None"
  using assms
  by (auto simp: instrumentEntry_def split: list.splits option.splits md.splits)

lemma instrumentEntries_grown:
  assumes "\<forall>p\<in>set ps. p < length Fs \<and> instrumentEntry (Fs ! p) \<noteq> None"
  shows "\<exists>Fs'. instrumentEntries ps Fs = Some Fs' \<and> map func_id_md Fs' = map func_id_md Fs"
  using assms
proof (induction ps arbitrary: Fs)
  case Nil
  show ?case by simp
next
  case (Cons pos ps)
  from Cons.prems have lt: "pos < length Fs" and ok: "instrumentEntry (Fs ! pos) \<noteq> None"
    by simp_all
  then obtain F' where F': "instrumentEntry (Fs ! pos) = Some F'" by auto
  have "\<forall>p\<in>set ps. p < length (Fs[pos := F']) \<and> instrumentEntry (Fs[pos := F'] ! p) \<noteq> None"
    using Cons.prems instrumentEntry_Some(2)[OF F'] lt by (auto simp: nth_list_update)
  from Cons.IH[OF this] obtain Fs' where
    r: "instrumentEntries ps (Fs[pos := F']) = Some Fs'"
       "map func_id_md Fs' = map func_id_md (Fs[pos := F'])" by blast
  have "map func_id_md (Fs[pos := F']) = map func_id_md Fs"
    using instrumentEntry_Some(1)[OF F'] lt by (simp add: map_update list_update_same_conv)
  with r F' lt show ?case by simp
qed

lemma denseIds_eligible:
  "p < length Fs \<Longrightarrow> shouldInstrumentFunction (Fs ! p) \<Longrightarrow>
   \<exists>j. denseIds Fs k ! p = Some [MDConstInt 32 j]"
proof (induction Fs arbitrary: p k)
  case Nil
  then show ?case by simp
next
  case (Cons F Fs)
  then show ?case by (cases p) auto
qed

lemma getOrInsertFunction_fields:
  "globals (fst (getOrInsertFunction M name)) = globals M"
  "global_ctors (fst (getOrInsertFunction M name)) = global_ctors M"
  "global_dtors (fst (getOrInsertFunction M name)) = global_dtors M"
  "compiler_used (fst (getOrInsertFunction M name)) = compiler_used M"
  by (simp_all add: getOrInsertFunction_def)

lemma setRuntimeAttrs_fields:
  "globals (setRuntimeAttrs name M) = globals M"
  "global_ctors (setRuntimeAttrs name M) = global_ctors M"
  "global_dtors (setRuntimeAttrs name M) = global_dtors M"
  "compiler_used (setRuntimeAttrs name M) = compiler_used M"
  by (simp_all add: setRuntimeAttrs_def)

lemma assignIds_flags:
  "assignIds Fs pos nextId = (Fs', metadata, toInstrument) \<Longrightarrow>
   map hasUnsafeInst metadata =
     map (\<lambda>F. if analyzeFunction F then 1 else 0) (filter shouldInstrumentFunction Fs)"
proof (induction Fs arbitrary: pos nextId Fs' metadata toInstrument)
  case Nil
  then show ?case by simp
next
  case (Cons F Fs)
  show ?case
  proof (cases "shouldInstrumentFunction F")
    case False
    obtain Fs1 md1 ti1 where r: "assignIds Fs (Suc pos) nextId = (Fs1, md1, ti1)"
      by (cases "assignIds Fs (Suc pos) nextId") auto
    with Cons.prems False have "metadata = md1" by simp
    with Cons.IH[OF r] False show ?thesis by simp
  next
    case True
    obtain Fs1 md1 ti1 where r: "assignIds Fs (Suc pos) (nextId + 1) = (Fs1, md1, ti1)"
      by (cases "assignIds Fs (Suc pos) (nextId + 1)") auto
    have a: "analyzeFunction (F\<lparr> func_id_md := Some [MDConstInt 32 (unat nextId)] \<rparr>) =
             analyzeFunction F" by (simp add: analyzeFunction_def)
    from Cons.prems True r a have
      "map hasUnsafeInst metadata = (if analyzeFunction F then 1 else 0) # map hasUnsafeInst md1"
      by (auto simp: Let_def)
    with Cons.IH[OF r] True show ?thesis by simp
  qed
qed

lemma assignIds_nonempty:
  "assignIds Fs pos nextId = (Fs', metadata, toInstrument) \<Longrightarrow>
   length metadata = length (filter shouldInstrumentFunction Fs)"
  using assignIds_flags[of Fs pos nextId Fs' metadata toInstrument]
  by (metis length_map)

lemma FT_setupModule_props:
  "grownFrom (funcs M1) (funcs (FT_setupModule M1 metadata))"
  "globals (FT_setupModule M1 metadata) = globals M1 @ [metadataTable metadata]"
proof -
  obtain M2 i1 where g1: "getOrInsertFunction M1 INIT_METADATA_FN = (M2, i1)"
    by (cases "getOrInsertFunction M1 INIT_METADATA_FN") auto
  obtain M3 i2 where g2: "getOrInsertFunction M2 RECORD_FUNCTION_FN = (M3, i2)"
    by (cases "getOrInsertFunction M2 RECORD_FUNCTION_FN") auto
  obtain M4 i3 where g3: "getOrInsertFunction M3 DUMP_STATS_FN = (M4, i3)"
    by (cases "getOrInsertFunction M3 DUMP_STATS_FN") auto
  define M5 where "M5 = (if i1 then setRuntimeAttrs INIT_METADATA_FN M4 else M4)"
  define M6 where "M6 = (if i2 then setRuntimeAttrs RECORD_FUNCTION_FN M5 else M5)"
  define M7 where "M7 = (if i3 then setRuntimeAttrs DUMP_STATS_FN M6 else M6)"
  have fs: "funcs (FT_setupModule M1 metadata) =
      funcs M7 @ [createInternalFunction ''__unsafe_module_init''
                    (moduleInitBody (length metadata))]"
    and gs: "globals (FT_setupModule M1 metadata) = globals M7 @ [metadataTable metadata]"
    by (simp_all add: FT_setupModule_def g1 g2 g3 Let_def M5_def M6_def M7_def
          appendToGlobalCtors_def appendToGlobalDtors_def)
  have s12: "grownFrom (funcs M1) (funcs M2)"
    using getOrInsertFunction_grown[of M1 INIT_METADATA_FN] g1 by simp
  have s23: "grownFrom (funcs M2) (funcs M3)"
    using getOrInsertFunction_grown[of M2 RECORD_FUNCTION_FN] g2 by simp
  have s34: "grownFrom (funcs M3) (funcs M4)"
    using getOrInsertFunction_grown[of M3 DUMP_STATS_FN] g3 by simp
  have s45: "grownFrom (funcs M4) (funcs M5)"
    by (simp add: M5_def setRuntimeAttrs_grown grownFrom_refl)
  have s56: "grownFrom (funcs M5) (funcs M6)"
    by (simp add: M6_def setRuntimeAttrs_grown grownFrom_refl)
  have s67: "grownFrom (funcs M6) (funcs M7)"
    by (simp add: M7_def setRuntimeAttrs_grown grownFrom_refl)
  have s711: "grownFrom (funcs M7) (funcs (FT_setupModule M1 metadata))"
    unfolding fs by (simp add: grownFrom_append createInternalFunction_def)
  show "grownFrom (funcs M1) (funcs (FT_setupModule M1 metadata))"
    using s12 s23 s34 s45 s56 s67 s711 by (meson grownFrom_trans)
  have "globals M2 = globals M1" "globals M3 = globals M2" "globals M4 = globals M3"
    using getOrInsertFunction_fields(1)[of M1 INIT_METADATA_FN]
      getOrInsertFunction_fields(1)[of M2 RECORD_FUNCTION_FN]
      getOrInsertFunction_fields(1)[of M3 DUMP_STATS_FN] g1 g2 g3 by simp_all
  then have "globals M7 = globals M1"
    by (simp add: M7_def M6_def M5_def setRuntimeAttrs_fields)
  then show "globals (FT_setupModule M1 metadata) = globals M1 @ [metadataTable metadata]"
    using gs by simp
qed

lemma assignIds_shape:
  assumes "assignIds Fs pos nextId = (Fs', metadata, toInstrument)"
  shows "map blocks Fs' = map blocks Fs \<and>
         (\<forall>p\<in>set toInstrument. pos \<le> p \<and> p < pos + length Fs \<and>
             shouldInstrumentFunction (Fs ! (p - pos)) \<and>
             (\<exists>j. func_id_md (Fs' ! (p - pos)) = Some [MDConstInt 32 j]))"
  using assms
proof (induction Fs arbitrary: pos nextId Fs' metadata toInstrument)
  case Nil
  then show ?case by simp
next
  case (Cons F Fs)
  define P where "P = (\<lambda>(Gs :: func list) (Gs' :: func list) q p. q \<le> p \<and> p < q + length Gs \<and>
             shouldInstrumentFunction (Gs ! (p - q)) \<and>
             (\<exists>j. func_id_md (Gs' ! (p - q)) = Some [MDConstInt 32 j]))"
  have lift: "P (G # Fs) (G' # Fs1) pos p" if "P Fs Fs1 (Suc pos) p" for p G G' Fs1
  proof -
    from that have "p - pos = Suc (p - Suc pos)" by (auto simp: P_def)
    with that show ?thesis by (auto simp: P_def)
  qed
  show ?case
  proof (cases "shouldInstrumentFunction F")
    case False
    obtain Fs1 md1 ti1 where r: "assignIds Fs (Suc pos) nextId = (Fs1, md1, ti1)"
      by (cases "assignIds Fs (Suc pos) nextId") auto
    from Cons.IH[OF r] have IH: "map blocks Fs1 = map blocks Fs"
      "\<forall>p\<in>set ti1. P Fs Fs1 (Suc pos) p" by (simp_all add: P_def)
    from Cons.prems False r have e: "Fs' = F # Fs1" "toInstrument = ti1" by simp_all
    have "\<forall>p\<in>set ti1. P (F # Fs) (F # Fs1) pos p" using IH(2) lift by blast
    with IH(1) e show ?thesis by (simp add: P_def)
  next
    case True
    obtain Fs1 md1 ti1 where r: "assignIds Fs (Suc pos) (nextId + 1) = (Fs1, md1, ti1)"
      by (cases "assignIds Fs (Suc pos) (nextId + 1)") auto
    from Cons.IH[OF r] have IH: "map blocks Fs1 = map blocks Fs"
      "\<forall>p\<in>set ti1. P Fs Fs1 (Suc pos) p" by (simp_all add: P_def)
    define F1 where "F1 = F\<lparr> func_id_md := Some [MDConstInt 32 (unat nextId)] \<rparr>"
    from Cons.prems True r have e: "Fs' = F1 # Fs1" "toInstrument = pos # ti1"
      by (auto simp: Let_def F1_def)
    have "\<forall>p\<in>set ti1. P (F # Fs) (F1 # Fs1) pos p" using IH(2) lift by blast
    moreover have "P (F # Fs) (F1 # Fs1) pos pos" using True by (simp add: P_def F1_def)
    ultimately have "\<forall>p\<in>set (pos # ti1). P (F # Fs) (F1 # Fs1) pos p" by simp
    with IH(1) e show ?thesis by (simp add: P_def F1_def)
  qed
qed

lemma FT_run_Some:
  assumes primary: "isPrimaryPackage env"
    and a: "assignIds (funcs M) 0 0 = (Fs1, metadata, toInstrument)"
    and ne: "metadata \<noteq> []"
    and wf: "\<forall>F\<in>set (funcs M). \<forall>BB\<in>set (blocks F). BB \<noteq> []"
  shows "\<exists>Fs'. UnsafeFunctionTrackerPass_run env M =
            Some ((FT_setupModule (M\<lparr> funcs := Fs1 \<rparr>) metadata)\<lparr> funcs := Fs' \<rparr>,
                  PreservedNone) \<and>
          map func_id_md Fs' =
            map func_id_md (funcs (FT_setupModule (M\<lparr> funcs := Fs1 \<rparr>) metadata))"
proof -
  define M11 where "M11 = FT_setupModule (M\<lparr> funcs := Fs1 \<rparr>) metadata"
  note sp = assignIds_shape[OF a]
  from sp have bl: "map blocks Fs1 = map blocks (funcs M)" by simp
  have len1: "length Fs1 = length (funcs M)" using bl by (metis length_map)
  have g: "grownFrom Fs1 (funcs M11)"
    using FT_setupModule_props(1)[of "M\<lparr> funcs := Fs1 \<rparr>" metadata] by (simp add: M11_def)
  have ok: "\<forall>p\<in>set toInstrument. p < length (funcs M11) \<and>
              instrumentEntry (funcs M11 ! p) \<noteq> None"
  proof
    fix p assume "p \<in> set toInstrument"
    with sp obtain j where p: "p < length (funcs M)" "shouldInstrumentFunction (funcs M ! p)"
      and md: "func_id_md (Fs1 ! p) = Some [MDConstInt 32 j]" by auto
    then have p1: "p < length Fs1" using len1 by simp
    note n = grownFrom_nth[OF g p1]
    have b1: "blocks (Fs1 ! p) = blocks (funcs M ! p)" using bl p1 p(1) by (metis nth_map)
    from p(2) have nd: "blocks (funcs M ! p) \<noteq> []"
      by (auto simp: shouldInstrumentFunction_def isDeclaration_def)
    then obtain E others where E: "blocks (funcs M ! p) = E # others"
      by (cases "blocks (funcs M ! p)") auto
    have "funcs M ! p \<in> set (funcs M)" using p(1) by simp
    with wf E have "E \<noteq> []" by (metis list.set_intros(1))
    then obtain Front insts where "E = Front # insts" by (cases E) auto
    with E b1 md n show "p < length (funcs M11) \<and> instrumentEntry (funcs M11 ! p) \<noteq> None"
      by (simp add: instrumentEntry_def)
  qed
  from instrumentEntries_grown[OF ok] obtain Fs' where
    r: "instrumentEntries toInstrument (funcs M11) = Some Fs'"
    and m: "map func_id_md Fs' = map func_id_md (funcs M11)" by blast
  have "UnsafeFunctionTrackerPass_run env M = Some (M11\<lparr> funcs := Fs' \<rparr>, PreservedNone)"
    using primary a ne r by (simp add: UnsafeFunctionTrackerPass_run_def M11_def Let_def)
  with m show ?thesis unfolding M11_def by blast
qed

lemma denseIds_range:
  "map snd (filter (\<lambda>p. shouldInstrumentFunction (fst p)) (zip Fs (denseIds Fs k))) =
   map (\<lambda>j. Some [MDConstInt 32 j]) [k ..< k + length (filter shouldInstrumentFunction Fs)]"
proof (induction Fs arbitrary: k)
  case Nil
  show ?case by simp
next
  case (Cons F Fs)
  have up: "[k ..< k + Suc (length (filter shouldInstrumentFunction Fs))] =
          k # [Suc k ..< Suc k + length (filter shouldInstrumentFunction Fs)]"
    by (subst upt_rec) simp
  show ?case using Cons.IH[of k] Cons.IH[of "Suc k"] up by simp
qed

lemma zip_take_same: "zip xs (take (length xs) ys) = zip xs ys"
proof (induction xs arbitrary: ys)
  case Nil
  show ?case by simp
next
  case (Cons x xs)
  then show ?case by (cases ys) simp_all
qed

text \<open>
  Claim C6. On a primary build, for a module with at most \<open>2^32\<close> eligible functions
  (the ids are 32 bits wide) and no empty block, the pass returns a module in which the
  functions of the input stand where they stood and carry the attachments \<open>denseIds\<close>
  describes: the eligible ones the ids 0, 1, ... in module order, one each, the others
  what they had before. The functions the pass adds behind them carry none, and the
  ids of the eligible functions, read in module order, are exactly \<open>0, ..., n - 1\<close>.
\<close>

theorem C6_dense_function_ids:
  assumes primary: "isPrimaryPackage env"
    and bound: "length (filter shouldInstrumentFunction (funcs M)) \<le> 2 ^ 32"
    and wf: "\<forall>F\<in>set (funcs M). \<forall>BB\<in>set (blocks F). BB \<noteq> []"
  shows "\<exists>M' verdict. UnsafeFunctionTrackerPass_run env M = Some (M', verdict) \<and>
           map func_id_md (take (length (funcs M)) (funcs M')) = denseIds (funcs M) 0 \<and>
           (\<forall>F\<in>set (drop (length (funcs M)) (funcs M')). func_id_md F = None) \<and>
           map snd (filter (\<lambda>p. shouldInstrumentFunction (fst p))
                      (zip (funcs M) (map func_id_md (funcs M')))) =
             map (\<lambda>j. Some [MDConstInt 32 j])
               [0 ..< length (filter shouldInstrumentFunction (funcs M))]"
proof -
  have rng: "map snd (filter (\<lambda>p. shouldInstrumentFunction (fst p))
                      (zip (funcs M) (map func_id_md Fs'))) =
             map (\<lambda>j. Some [MDConstInt 32 j])
               [0 ..< length (filter shouldInstrumentFunction (funcs M))]"
    if "map func_id_md (take (length (funcs M)) Fs') = denseIds (funcs M) 0" for Fs'
  proof -
    have "zip (funcs M) (map func_id_md Fs') =
          zip (funcs M) (take (length (funcs M)) (map func_id_md Fs'))"
      by (simp only: zip_take_same)
    also have "\<dots> = zip (funcs M) (denseIds (funcs M) 0)"
      using that by (simp add: take_map)
    finally show ?thesis using denseIds_range[of "funcs M" 0] by simp
  qed
  obtain Fs1 metadata toInstrument where
    a: "assignIds (funcs M) 0 0 = (Fs1, metadata, toInstrument)"
    by (cases "assignIds (funcs M) 0 0") auto
  have a': "assignIds (funcs M) 0 (word_of_nat 0) = (Fs1, metadata, toInstrument)"
    using a by simp
  from bound have b: "0 + length (filter shouldInstrumentFunction (funcs M)) \<le> 2 ^ 32" by simp
  note sp = assignIds_spec[OF b a']
  from sp have ids: "map func_id_md Fs1 = denseIds (funcs M) 0"
    and bl: "map blocks Fs1 = map blocks (funcs M)" by simp_all
  have len1: "length Fs1 = length (funcs M)" using bl by (metis length_map)
  show ?thesis
  proof (cases "metadata = []")
    case True
    with primary a have "UnsafeFunctionTrackerPass_run env M = Some (M\<lparr> funcs := Fs1 \<rparr>, PreservedAll)"
      by (simp add: UnsafeFunctionTrackerPass_run_def)
    with ids len1 rng[of Fs1] show ?thesis by simp
  next
    case False
    define M11 where "M11 = FT_setupModule (M\<lparr> funcs := Fs1 \<rparr>) metadata"
    have g: "grownFrom Fs1 (funcs M11)"
      using FT_setupModule_props(1)[of "M\<lparr> funcs := Fs1 \<rparr>" metadata] by (simp add: M11_def)
    from FT_run_Some[OF primary a False wf] obtain Fs' where
      run: "UnsafeFunctionTrackerPass_run env M = Some (M11\<lparr> funcs := Fs' \<rparr>, PreservedNone)"
      and m: "map func_id_md Fs' = map func_id_md (funcs M11)"
      unfolding M11_def by blast
    have t: "map func_id_md (take (length (funcs M)) Fs') = denseIds (funcs M) 0"
    proof -
      have "map func_id_md (take (length (funcs M)) Fs') =
            take (length (funcs M)) (map func_id_md Fs')"
        by (simp add: take_map)
      also have "\<dots> = take (length (funcs M)) (map func_id_md (funcs M11))"
        using m by simp
      also have "\<dots> = map func_id_md (take (length Fs1) (funcs M11))"
        using len1 by (simp add: take_map)
      also have "\<dots> = map func_id_md Fs1" by (rule grownFrom_take_drop(1)[OF g])
      finally show ?thesis using ids by simp
    qed
    have d: "\<forall>F\<in>set (drop (length (funcs M)) Fs'). func_id_md F = None"
    proof -
      have "map func_id_md (drop (length (funcs M)) Fs') =
            drop (length (funcs M)) (map func_id_md Fs')"
        by (simp add: drop_map)
      also have "\<dots> = drop (length (funcs M)) (map func_id_md (funcs M11))"
        using m by simp
      finally have "map func_id_md (drop (length (funcs M)) Fs') =
            map func_id_md (drop (length Fs1) (funcs M11))"
        using len1 by (simp add: drop_map)
      moreover have "\<forall>x\<in>set (map func_id_md (drop (length Fs1) (funcs M11))). x = None"
        using grownFrom_take_drop(2)[OF g] by auto
      ultimately show ?thesis by (metis image_eqI list.set_map)
    qed
    from run t d rng[OF t] show ?thesis by simp
  qed
qed

section \<open>UnsafeFunctionTracker: the unsafe flag of the table\<close>

lemma FT_isMarkerInstruction_iff:
  "FT_isMarkerInstruction I \<longleftrightarrow> isBeginSentinel I \<or> isEndSentinel I"
  by (auto simp: FT_isMarkerInstruction_def isBeginSentinel_def isEndSentinel_def
        split: option.splits)

lemma analyzeBlock_spec:
  "fst (analyzeBlock BB opn) = unsafeInOpenRegion BB opn \<and>
   (\<not> unsafeInOpenRegion BB opn \<longrightarrow> snd (analyzeBlock BB opn) = regionOpenAfter BB opn)"
proof (induction BB arbitrary: opn)
  case Nil
  show ?case by simp
next
  case (Cons I BB)
  show ?case
  proof (cases "FT_isMarkerInstruction I")
    case True
    then obtain s where s: "calledInlineAsm I = Some s"
      by (auto simp: FT_isMarkerInstruction_def split: option.splits)
    with True have k: "s = UNSAFE_MARKER_BEGIN \<or> s = UNSAFE_MARKER_END"
      by (simp add: FT_isMarkerInstruction_def)
    show ?thesis
    proof (cases "s = UNSAFE_MARKER_BEGIN")
      case b: True
      with s have "isBeginSentinel I" by (simp add: isBeginSentinel_def)
      with True s b show ?thesis
        using Cons.IH[of True] by simp
    next
      case nb: False
      with k have e: "s = UNSAFE_MARKER_END" by simp
      with s nb have "isEndSentinel I" "\<not> isBeginSentinel I"
        by (simp_all add: isBeginSentinel_def isEndSentinel_def)
      with True s e nb show ?thesis
        using Cons.IH[of False] by simp
    qed
  next
    case False
    then have n: "\<not> isBeginSentinel I" "\<not> isEndSentinel I"
      by (simp_all add: FT_isMarkerInstruction_iff)
    with False show ?thesis
      using Cons.IH[of opn] by (auto simp: hasUnsafeMetadata_def)
  qed
qed

lemma unsafeBetweenSentinels_closed:
  "\<not> regionOpenAfter BB opn \<Longrightarrow>
   unsafeBetweenSentinels BB opn seen \<longleftrightarrow> (opn \<and> seen) \<or> unsafeInOpenRegion BB opn"
proof (induction BB arbitrary: opn seen)
  case Nil
  then show ?case by simp
next
  case (Cons I BB)
  then show ?case by (auto split: if_splits)
qed

lemma analyzeBlocks_spec:
  assumes "\<forall>BB\<in>set bbs. \<not> regionOpenAfter BB False"
  shows "analyzeBlocks bbs False = list_ex (\<lambda>BB. unsafeBetweenSentinels BB False False) bbs"
  using assms
proof (induction bbs)
  case Nil
  show ?case by simp
next
  case (Cons BB bbs)
  from Cons.prems have c: "\<not> regionOpenAfter BB False" by simp
  have u: "unsafeBetweenSentinels BB False False = unsafeInOpenRegion BB False"
    using unsafeBetweenSentinels_closed[OF c, of False] by simp
  show ?case
  proof (cases "unsafeInOpenRegion BB False")
    case True
    then have "fst (analyzeBlock BB False) = True" using analyzeBlock_spec[of BB False] by simp
    then have "analyzeBlocks (BB # bbs) False = True"
      by (cases "analyzeBlock BB False") auto
    with True u show ?thesis by simp
  next
    case False
    then have "analyzeBlock BB False = (False, False)"
      using c analyzeBlock_spec[of BB False] by (simp add: prod_eq_iff)
    with False u Cons show ?thesis by simp
  qed
qed

lemma analyzeFunction_closed:
  assumes "\<forall>BB\<in>set (blocks F). \<not> regionOpenAfter BB False"
  shows "analyzeFunction F = hasUnsafeBetweenSentinels F"
  unfolding analyzeFunction_def hasUnsafeBetweenSentinels_def
  using assms by (rule analyzeBlocks_spec)

text \<open>
  The table of the pass. On a primary build, for a module with an eligible function and
  no empty block, the table the pass adds holds one entry per eligible function, in
  module order, whose \<open>hasUnsafeInst\<close> byte is 1 exactly when \<open>analyzeFunction\<close> returns
  true. By \<open>analyzeFunction_closed\<close> that is, for a function none of whose blocks leaves
  a marker region open at its end, exactly when some instruction carrying
  \<open>unsafe_inst\<close> lies between a begin sentinel and the next end sentinel of its block.
\<close>

lemma FT_unsafe_flags:
  assumes primary: "isPrimaryPackage env"
    and some: "list_ex shouldInstrumentFunction (funcs M)"
    and wf: "\<forall>F\<in>set (funcs M). \<forall>BB\<in>set (blocks F). BB \<noteq> []"
  shows "\<exists>M' verdict entries.
           UnsafeFunctionTrackerPass_run env M = Some (M', verdict) \<and>
           globals M' = globals M @ [metadataTable entries] \<and>
           map hasUnsafeInst entries =
             map (\<lambda>F. if analyzeFunction F then 1 else 0)
               (filter shouldInstrumentFunction (funcs M))"
proof -
  obtain Fs1 metadata toInstrument where
    a: "assignIds (funcs M) 0 0 = (Fs1, metadata, toInstrument)"
    by (cases "assignIds (funcs M) 0 0") auto
  from some have "filter shouldInstrumentFunction (funcs M) \<noteq> []"
    by (auto simp: list_ex_iff filter_empty_conv)
  then have ne: "metadata \<noteq> []" using assignIds_nonempty[OF a] by auto
  from FT_run_Some[OF primary a ne wf] obtain Fs' where
    run: "UnsafeFunctionTrackerPass_run env M =
            Some ((FT_setupModule (M\<lparr> funcs := Fs1 \<rparr>) metadata)\<lparr> funcs := Fs' \<rparr>,
                  PreservedNone)" by blast
  have gl: "globals ((FT_setupModule (M\<lparr> funcs := Fs1 \<rparr>) metadata)\<lparr> funcs := Fs' \<rparr>) =
        globals M @ [metadataTable metadata]"
    using FT_setupModule_props(2)[of "M\<lparr> funcs := Fs1 \<rparr>" metadata] by simp
  from assignIds_flags[OF a] run gl show ?thesis by blast
qed

lemmas module_example_simps =
  exampleModule_def emptyModule_def mkFunc_def declareFunction_def smallBlock_def
  sentinelInst_def loadInst_def plainInst_def unsafeInst_def CreateCall_def
  shouldInstrumentFunction_def isDeclaration_def startswith_def
  isBeginSentinel_def isEndSentinel_def calledInlineAsm_def isCallBase_def
  UNSAFE_MARKER_BEGIN_def UNSAFE_MARKER_END_def

lemma exampleModule_wf:
  "\<forall>F\<in>set (funcs exampleModule). \<forall>BB\<in>set (blocks F). BB \<noteq> []"
  by (simp add: module_example_simps)

lemma exampleModule_eligible:
  "filter shouldInstrumentFunction (funcs exampleModule) =
     [mkFunc ''f'' [smallBlock], mkFunc ''h'' [[plainInst 0 Load, plainInst 1 Ret]]]"
  by (simp add: module_example_simps)

theorem C6_dense_function_ids_witness:
  "isPrimaryPackage (Some ''1'') \<and>
   length (filter shouldInstrumentFunction (funcs exampleModule)) \<le> 2 ^ 32 \<and>
   list_all (\<lambda>F. list_all (\<lambda>BB. BB \<noteq> []) (blocks F)) (funcs exampleModule) \<and>
   (\<exists>M' verdict. UnsafeFunctionTrackerPass_run (Some ''1'') exampleModule = Some (M', verdict) \<and>
      map func_id_md (take 4 (funcs M')) =
        [Some [MDConstInt 32 0], None, None, Some [MDConstInt 32 1]] \<and>
      list_all (\<lambda>F. func_id_md F = None) (drop 4 (funcs M')))"
proof -
  have b: "length (filter shouldInstrumentFunction (funcs exampleModule)) \<le> 2 ^ 32"
    by (simp add: exampleModule_eligible)
  have l: "length (funcs exampleModule) = 4" by (simp add: exampleModule_def)
  have d: "denseIds (funcs exampleModule) 0 =
      [Some [MDConstInt 32 0], None, None, Some [MDConstInt 32 1]]"
    by (simp add: module_example_simps)
  from C6_dense_function_ids[OF primary_one b exampleModule_wf] primary_one b exampleModule_wf
  show ?thesis unfolding l d by (auto simp: list_all_iff)
qed

text \<open>
  Claim C9 at \<open>leakModule\<close>, on a primary build. The first block of \<open>leakFunc\<close> holds
  a begin sentinel and no end sentinel, the second an instruction carrying
  \<open>unsafe_inst\<close> and no sentinel. \<open>analyzeFunction\<close> keeps its region flag from one
  block to the next: the flag is still set when the second block is scanned, the
  function returns true and the \<open>hasUnsafeInst\<close> byte of the entry is 1, although no
  instruction carrying \<open>unsafe_inst\<close> lies between a begin sentinel and the next end
  sentinel of its block.
\<close>

theorem C9_flag_set_across_blocks:
  "map_option (map gv_init \<circ> globals \<circ> fst)
     (UnsafeFunctionTrackerPass_run (Some ''1'') leakModule) =
     Some [InitTable [\<lparr> fm_id = 0, hasUnsafeInst = 1, hasUnsafeRegions = 0, fm_padding = 0 \<rparr>]] \<and>
   shouldInstrumentFunction leakFunc \<and> analyzeFunction leakFunc \<and>
   \<not> hasUnsafeBetweenSentinels leakFunc"
proof -
  have a: "assignIds (funcs leakModule) 0 0 =
     ([leakFunc\<lparr> func_id_md := Some [MDConstInt 32 0] \<rparr>],
      [\<lparr> fm_id = 0, hasUnsafeInst = 1, hasUnsafeRegions = 0, fm_padding = 0 \<rparr>], [0])"
    by (simp add: leakModule_def leakFunc_def emptyModule_def analyzeFunction_def
          FT_isMarkerInstruction_def hasUnsafeMetadata_def module_example_simps)
  have wf: "\<forall>F\<in>set (funcs leakModule). \<forall>BB\<in>set (blocks F). BB \<noteq> []"
    by (simp add: leakModule_def leakFunc_def emptyModule_def mkFunc_def)
  from FT_run_Some[OF primary_one a _ wf] obtain Fs' where
    run: "UnsafeFunctionTrackerPass_run (Some ''1'') leakModule =
            Some ((FT_setupModule (leakModule\<lparr> funcs := [leakFunc\<lparr> func_id_md := Some [MDConstInt 32 0] \<rparr>] \<rparr>)
                     [\<lparr> fm_id = 0, hasUnsafeInst = 1, hasUnsafeRegions = 0, fm_padding = 0 \<rparr>])
                  \<lparr> funcs := Fs' \<rparr>, PreservedNone)" by auto
  have g: "map_option (map gv_init \<circ> globals \<circ> fst)
     (UnsafeFunctionTrackerPass_run (Some ''1'') leakModule) =
     Some [InitTable [\<lparr> fm_id = 0, hasUnsafeInst = 1, hasUnsafeRegions = 0, fm_padding = 0 \<rparr>]]"
    unfolding run by (simp add: FT_setupModule_props(2) leakModule_def emptyModule_def metadataTable_def)
  have "shouldInstrumentFunction leakFunc" "\<not> hasUnsafeBetweenSentinels leakFunc"
    by (simp_all add: leakFunc_def hasUnsafeBetweenSentinels_def module_example_simps)
  moreover have "analyzeFunction leakFunc"
    by (simp add: leakFunc_def analyzeFunction_def FT_isMarkerInstruction_def
          hasUnsafeMetadata_def module_example_simps)
  ultimately show ?thesis using g by simp
qed

section \<open>Unique names\<close>

lemma digit_inj: "d < 10 \<Longrightarrow> e < 10 \<Longrightarrow> digit d = digit e \<Longrightarrow> d = e"
proof -
  assume d: "d < 10" and e: "e < 10" and eq: "digit d = digit e"
  have dist: "distinct ''0123456789''" by simp
  have "d < length ''0123456789''" "e < length ''0123456789''" using d e by simp_all
  with dist eq show "d = e" unfolding digit_def by (simp only: nth_eq_iff_index_eq)
qed

lemma decimal_nonempty: "decimal n \<noteq> []"
  by (subst decimal.simps) simp

lemma decimal_inj: "decimal m = decimal n \<Longrightarrow> m = n"
proof (induction m arbitrary: n rule: decimal.induct)
  case (1 m)
  show ?case
  proof (cases "m < 10")
    case True
    then have dm: "decimal m = [digit m]" by (subst decimal.simps) simp
    show ?thesis
    proof (cases "n < 10")
      case n: True
      then have "decimal n = [digit n]" by (subst decimal.simps) simp
      with dm "1.prems" have "digit m = digit n" by simp
      with True n show ?thesis by (rule digit_inj)
    next
      case False
      then have "decimal n = decimal (n div 10) @ [digit (n mod 10)]"
        by (subst decimal.simps) simp
      with dm "1.prems" have "decimal (n div 10) = []" by simp
      then show ?thesis using decimal_nonempty by blast
    qed
  next
    case False
    then have dm: "decimal m = decimal (m div 10) @ [digit (m mod 10)]"
      by (subst decimal.simps) simp
    show ?thesis
    proof (cases "n < 10")
      case True
      then have "decimal n = [digit n]" by (subst decimal.simps) simp
      with dm "1.prems" have "decimal (m div 10) = []" by simp
      then show ?thesis using decimal_nonempty by blast
    next
      case n: False
      then have "decimal n = decimal (n div 10) @ [digit (n mod 10)]"
        by (subst decimal.simps) simp
      with dm "1.prems" have a: "decimal (m div 10) = decimal (n div 10)"
        and b: "digit (m mod 10) = digit (n mod 10)" by simp_all
      from "1.IH"[OF False a] have q: "m div 10 = n div 10" .
      have "m mod 10 < 10" "n mod 10 < 10" by simp_all
      then have r: "m mod 10 = n mod 10" using b by (rule digit_inj)
      from q r show ?thesis by (metis div_mult_mod_eq)
    qed
  qed
qed

lemma makeUniqueName_fresh:
  assumes "card (set taken \<inter> (\<lambda>k. Name @ ''.'' @ decimal k) ` {L<..}) \<le> rounds"
  shows "fst (makeUniqueName rounds taken Name L) \<notin> set taken"
  using assms
proof (induction rounds arbitrary: L)
  case 0
  have "finite (set taken \<inter> (\<lambda>k. Name @ ''.'' @ decimal k) ` {L<..})" by simp
  with 0 have "set taken \<inter> (\<lambda>k. Name @ ''.'' @ decimal k) ` {L<..} = {}" by simp
  moreover have "Name @ ''.'' @ decimal (Suc L) \<in> (\<lambda>k. Name @ ''.'' @ decimal k) ` {L<..}"
    by (rule image_eqI[of _ _ "Suc L"]) simp_all
  ultimately show ?case by auto
next
  case (Suc rounds)
  define c where "c = Name @ ''.'' @ decimal (Suc L)"
  define A where "A = set taken \<inter> (\<lambda>k. Name @ ''.'' @ decimal k) ` {L<..}"
  define B where "B = set taken \<inter> (\<lambda>k. Name @ ''.'' @ decimal k) ` {Suc L<..}"
  show ?case
  proof (cases "c \<in> set taken")
    case False
    then show ?thesis by (simp add: c_def Let_def)
  next
    case True
    have cA: "c \<in> A" unfolding A_def c_def using True[unfolded c_def]
      by (intro IntI image_eqI[of _ _ "Suc L"]) simp_all
    have cB: "c \<notin> B"
    proof
      assume "c \<in> B"
      then obtain k where k: "Suc L < k" and "c = Name @ ''.'' @ decimal k"
        unfolding B_def by auto
      then have "decimal (Suc L) = decimal k" by (simp add: c_def)
      then have "Suc L = k" by (rule decimal_inj)
      with k show False by simp
    qed
    have "B \<subseteq> A" unfolding A_def B_def by auto
    with cB have "B \<subseteq> A - {c}" by auto
    moreover have fA: "finite A" unfolding A_def by simp
    ultimately have "card B \<le> card (A - {c})" by (intro card_mono) simp_all
    also have "\<dots> = card A - 1" using cA fA by simp
    also have "\<dots> \<le> rounds" using Suc.prems unfolding A_def by simp
    finally have "card B \<le> rounds" .
    from Suc.IH[OF this[unfolded B_def]] True show ?thesis by (simp add: c_def Let_def)
  qed
qed

text \<open>The name a new global value gets is borne by no global value of the module.\<close>

lemma uniqueName_fresh: "fst (uniqueName M Name) \<notin> set (takenNames M)"
proof (cases "Name \<in> set (takenNames M)")
  case False
  then show ?thesis by (simp add: uniqueName_def)
next
  case True
  have "card (set (takenNames M) \<inter> (\<lambda>k. Name @ ''.'' @ decimal k) ` {last_unique M<..})
        \<le> card (set (takenNames M))"
    by (intro card_mono) simp_all
  also have "\<dots> \<le> length (takenNames M)" by (rule card_length)
  finally show ?thesis using True by (simp add: uniqueName_def makeUniqueName_fresh)
qed

section \<open>CpuCycleCount: module hooks\<close>

lemma getOrInsertFunction_result:
  assumes "\<not> list_ex (\<lambda>G. gv_name G = name) (globals M)"
  shows "snd (getOrInsertFunction M name) = True"
    and "name \<in> fname ` set (funcs (fst (getOrInsertFunction M name)))"
  using assms
  by (auto simp: getOrInsertFunction_def list_ex_iff declareFunction_def)

lemma getOrInsertFunction_names:
  "fname ` set (funcs M) \<subseteq> fname ` set (funcs (fst (getOrInsertFunction M name)))"
  by (auto simp: getOrInsertFunction_def)

lemma CC_setupRuntimeFunctions_props:
  assumes noclash: "\<forall>G\<in>set (globals M). gv_name G \<notin>
      {PROGRAM_START_FN, START_MEASUREMENT_FN, END_MEASUREMENT_FN, PRINT_STATS_FN}"
  shows "snd (CC_setupRuntimeFunctions M) = True"
    and "{PROGRAM_START_FN, START_MEASUREMENT_FN, END_MEASUREMENT_FN, PRINT_STATS_FN}
           \<subseteq> fname ` set (funcs (fst (CC_setupRuntimeFunctions M)))"
    and "globals (fst (CC_setupRuntimeFunctions M)) = globals M"
    and "global_ctors (fst (CC_setupRuntimeFunctions M)) = global_ctors M"
    and "global_dtors (fst (CC_setupRuntimeFunctions M)) = global_dtors M"
proof -
  define M1 where "M1 = fst (getOrInsertFunction M PROGRAM_START_FN)"
  define M2 where "M2 = fst (getOrInsertFunction M1 START_MEASUREMENT_FN)"
  define M3 where "M3 = fst (getOrInsertFunction M2 END_MEASUREMENT_FN)"
  have r: "CC_setupRuntimeFunctions M = getOrInsertFunction M3 PRINT_STATS_FN"
    by (simp add: CC_setupRuntimeFunctions_def M1_def M2_def M3_def split: prod.splits)
  have g: "globals M1 = globals M" "globals M2 = globals M" "globals M3 = globals M"
    by (simp_all add: M1_def M2_def M3_def getOrInsertFunction_fields)
  have nc: "\<not> list_ex (\<lambda>G. gv_name G = PROGRAM_START_FN) (globals M)"
    "\<not> list_ex (\<lambda>G. gv_name G = START_MEASUREMENT_FN) (globals M1)"
    "\<not> list_ex (\<lambda>G. gv_name G = END_MEASUREMENT_FN) (globals M2)"
    "\<not> list_ex (\<lambda>G. gv_name G = PRINT_STATS_FN) (globals M3)"
    using noclash g by (auto simp: list_ex_iff)
  show "snd (CC_setupRuntimeFunctions M) = True"
    unfolding r by (rule getOrInsertFunction_result(1)[OF nc(4)])
  let ?M4 = "fst (getOrInsertFunction M3 PRINT_STATS_FN)"
  have n1: "PROGRAM_START_FN \<in> fname ` set (funcs M1)"
    unfolding M1_def by (rule getOrInsertFunction_result(2)[OF nc(1)])
  have n2: "START_MEASUREMENT_FN \<in> fname ` set (funcs M2)"
    unfolding M2_def by (rule getOrInsertFunction_result(2)[OF nc(2)])
  have n3: "END_MEASUREMENT_FN \<in> fname ` set (funcs M3)"
    unfolding M3_def by (rule getOrInsertFunction_result(2)[OF nc(3)])
  have n4: "PRINT_STATS_FN \<in> fname ` set (funcs ?M4)"
    by (rule getOrInsertFunction_result(2)[OF nc(4)])
  have s12: "fname ` set (funcs M1) \<subseteq> fname ` set (funcs M2)"
    unfolding M2_def by (rule getOrInsertFunction_names)
  have s23: "fname ` set (funcs M2) \<subseteq> fname ` set (funcs M3)"
    unfolding M3_def by (rule getOrInsertFunction_names)
  have s34: "fname ` set (funcs M3) \<subseteq> fname ` set (funcs ?M4)"
    by (rule getOrInsertFunction_names)
  show "{PROGRAM_START_FN, START_MEASUREMENT_FN, END_MEASUREMENT_FN, PRINT_STATS_FN}
           \<subseteq> fname ` set (funcs (fst (CC_setupRuntimeFunctions M)))"
    unfolding r using n1 n2 n3 n4 s12 s23 s34 by blast
  show "globals (fst (CC_setupRuntimeFunctions M)) = globals M"
    unfolding r using g by (simp add: getOrInsertFunction_fields)
  show "global_ctors (fst (CC_setupRuntimeFunctions M)) = global_ctors M"
    unfolding r by (simp add: getOrInsertFunction_fields M1_def M2_def M3_def)
  show "global_dtors (fst (CC_setupRuntimeFunctions M)) = global_dtors M"
    unfolding r by (simp add: getOrInsertFunction_fields M1_def M2_def M3_def)
qed

lemma instrumentUnsafeBlocks_fname: "fname (fst (instrumentUnsafeBlocks F)) = fname F"
  by (simp add: instrumentUnsafeBlocks_def Let_def)

lemma CC_instrumentFunctions_fname:
  "map fname (fst (CC_instrumentFunctions Fs)) = map fname Fs"
proof (induction Fs)
  case Nil
  show ?case by simp
next
  case (Cons F Fs)
  show ?case
    using Cons.IH instrumentUnsafeBlocks_fname[of F]
    by (cases "instrumentUnsafeBlocks F"; cases "CC_instrumentFunctions Fs") simp
qed

lemma CC_instrumentFunctions_nopairs:
  "\<forall>F\<in>set Fs. collectPairs (blocks F) = [] \<Longrightarrow> CC_instrumentFunctions Fs = (Fs, False)"
  by (induction Fs) (auto simp: instrumentUnsafeBlocks_def)

lemma collectPairs_cpu_cycle_ctor: "collectPairs (blocks (cpu_cycle_ctor CtorName)) = []"
  by (simp add: cpu_cycle_ctor_def createInternalFunction_def collectPairs_def collectBlock_def
        collectMarker_def calledInlineAsm_def CreateCall_def CreateRetVoid_def isCallBase_def)

lemma CC_instrumentFunctions_snoc:
  "collectPairs (blocks G) = [] \<Longrightarrow>
   fst (CC_instrumentFunctions (Fs @ [G])) = fst (CC_instrumentFunctions Fs) @ [G]"
  by (induction Fs) (auto simp: instrumentUnsafeBlocks_def split: prod.splits)

lemma getOrInsertFunction_names_sub:
  "fname ` set (funcs (fst (getOrInsertFunction M name))) \<subseteq> insert name (fname ` set (funcs M))"
  by (auto simp: getOrInsertFunction_def declareFunction_def)

lemma CC_setupRuntimeFunctions_names_sub:
  "fname ` set (funcs (fst (CC_setupRuntimeFunctions M))) \<subseteq>
     insert PRINT_STATS_FN (insert END_MEASUREMENT_FN (insert START_MEASUREMENT_FN
       (insert PROGRAM_START_FN (fname ` set (funcs M)))))"
proof -
  define M1 where "M1 = fst (getOrInsertFunction M PROGRAM_START_FN)"
  define M2 where "M2 = fst (getOrInsertFunction M1 START_MEASUREMENT_FN)"
  define M3 where "M3 = fst (getOrInsertFunction M2 END_MEASUREMENT_FN)"
  define M4 where "M4 = fst (getOrInsertFunction M3 PRINT_STATS_FN)"
  have r: "fst (CC_setupRuntimeFunctions M) = M4"
    by (simp add: CC_setupRuntimeFunctions_def M1_def M2_def M3_def M4_def split: prod.splits)
  have 1: "fname ` set (funcs M1) \<subseteq> insert PROGRAM_START_FN (fname ` set (funcs M))"
    unfolding M1_def by (rule getOrInsertFunction_names_sub)
  have 2: "fname ` set (funcs M2) \<subseteq> insert START_MEASUREMENT_FN (fname ` set (funcs M1))"
    unfolding M2_def by (rule getOrInsertFunction_names_sub)
  have 3: "fname ` set (funcs M3) \<subseteq> insert END_MEASUREMENT_FN (fname ` set (funcs M2))"
    unfolding M3_def by (rule getOrInsertFunction_names_sub)
  have 4: "fname ` set (funcs M4) \<subseteq> insert PRINT_STATS_FN (fname ` set (funcs M3))"
    unfolding M4_def by (rule getOrInsertFunction_names_sub)
  note s2 = subset_trans[OF 2 insert_mono[OF 1]]
  note s3 = subset_trans[OF 3 insert_mono[OF s2]]
  note s4 = subset_trans[OF 4 insert_mono[OF s3]]
  show ?thesis unfolding r by (rule s4)
qed

lemma uniqueName_free:
  "Name \<notin> set (takenNames M) \<Longrightarrow> uniqueName M Name = (Name, last_unique M)"
  by (simp add: uniqueName_def)

text \<open>
  Claim C10, as the code has it. On a primary build, for a module in which no global
  variable bears the name of one of the four helpers and no global value bears the
  name \<open>cpu_cycle_ctor\<close>: after the pass the module has a function of each of the four
  names, its last function is the new internal function \<open>cpu_cycle_ctor\<close> (calling
  \<open>record_program_start\<close>), \<open>cpu_cycle_ctor\<close> has been appended to the constructors
  and \<open>print_cpu_cycle_stats\<close> to the destructors, both at priority 0, whether or not
  there are markers. When no function holds a marker pair the verdict is nevertheless
  "all analyses preserved", although the module has changed.
\<close>

theorem C10_hooks_without_markers:
  assumes primary: "isPrimaryPackage env"
    and noclash: "\<forall>G\<in>set (globals M). gv_name G \<notin>
      {PROGRAM_START_FN, START_MEASUREMENT_FN, END_MEASUREMENT_FN, PRINT_STATS_FN}"
    and free: "''cpu_cycle_ctor'' \<notin> set (takenNames M)"
  shows "{''record_program_start'', ''cpu_cycle_start_measurement'',
          ''cpu_cycle_end_measurement'', ''print_cpu_cycle_stats''}
           \<subseteq> fname ` set (funcs (fst (CpuCycleCountPass_run env M))) \<and>
         last (funcs (fst (CpuCycleCountPass_run env M))) = cpu_cycle_ctor ''cpu_cycle_ctor'' \<and>
         global_ctors (fst (CpuCycleCountPass_run env M)) =
           global_ctors M @ [(''cpu_cycle_ctor'', 0)] \<and>
         global_dtors (fst (CpuCycleCountPass_run env M)) =
           global_dtors M @ [(''print_cpu_cycle_stats'', 0)] \<and>
         ((\<forall>F\<in>set (funcs M). collectPairs (blocks F) = []) \<longrightarrow>
            snd (CpuCycleCountPass_run env M) = PreservedAll \<and>
            fst (CpuCycleCountPass_run env M) \<noteq> M)"
proof -
  define M1 where "M1 = fst (CC_setupRuntimeFunctions M)"
  note sp = CC_setupRuntimeFunctions_props[OF noclash]
  have r1: "CC_setupRuntimeFunctions M = (M1, True)"
    using sp(1) by (simp add: M1_def prod_eq_iff)
  have nf: "''cpu_cycle_ctor'' \<notin> fname ` set (funcs M)"
    and ng: "''cpu_cycle_ctor'' \<notin> gv_name ` set (globals M)"
    using free by (simp_all add: takenNames_def)
  have "''cpu_cycle_ctor'' \<notin>
      insert PRINT_STATS_FN (insert END_MEASUREMENT_FN (insert START_MEASUREMENT_FN
        (insert PROGRAM_START_FN (fname ` set (funcs M)))))"
    using nf
    by (simp add: PROGRAM_START_FN_def START_MEASUREMENT_FN_def END_MEASUREMENT_FN_def
          PRINT_STATS_FN_def)
  then have nf1: "''cpu_cycle_ctor'' \<notin> fname ` set (funcs M1)"
    using CC_setupRuntimeFunctions_names_sub[of M] unfolding M1_def by (rule contra_subsetD[rotated])
  have "''cpu_cycle_ctor'' \<notin> set (takenNames M1)"
    using nf1 ng sp(3) by (simp add: takenNames_def M1_def)
  then have un: "uniqueName M1 ''cpu_cycle_ctor'' = (''cpu_cycle_ctor'', last_unique M1)"
    by (rule uniqueName_free)
  define M2 where "M2 = setupModuleHooks M1 True"
  have f2: "funcs M2 = funcs M1 @ [cpu_cycle_ctor ''cpu_cycle_ctor'']"
    and c2: "global_ctors M2 = global_ctors M @ [(''cpu_cycle_ctor'', 0)]"
    and d2: "global_dtors M2 = global_dtors M @ [(''print_cpu_cycle_stats'', 0)]"
    using sp(4,5)
    by (simp_all add: M2_def setupModuleHooks_def un Let_def appendToGlobalCtors_def
          appendToGlobalDtors_def PRINT_STATS_FN_def) (simp_all add: M1_def)
  obtain Fs m where i: "CC_instrumentFunctions (funcs M2) = (Fs, m)"
    by (cases "CC_instrumentFunctions (funcs M2)") auto
  have run: "CpuCycleCountPass_run env M =
      (M2\<lparr> funcs := Fs \<rparr>, if m then PreservedNone else PreservedAll)"
    using primary r1 i by (simp add: CpuCycleCountPass_run_def M2_def Let_def)
  have names: "map fname Fs = map fname (funcs M1) @ [''cpu_cycle_ctor'']"
    using CC_instrumentFunctions_fname[of "funcs M2"] i f2
    by (simp add: cpu_cycle_ctor_def createInternalFunction_def)
  have "fname ` set (funcs M1) \<subseteq> fname ` set Fs"
  proof -
    have "set (map fname (funcs M1)) \<subseteq> set (map fname Fs)" unfolding names by auto
    then show ?thesis by simp
  qed
  with sp(2) have h0: "{PROGRAM_START_FN, START_MEASUREMENT_FN, END_MEASUREMENT_FN,
          PRINT_STATS_FN} \<subseteq> fname ` set Fs"
    unfolding M1_def by (rule subset_trans)
  have h: "{''record_program_start'', ''cpu_cycle_start_measurement'',
          ''cpu_cycle_end_measurement'', ''print_cpu_cycle_stats''} \<subseteq> fname ` set Fs"
    using h0 by (simp only: PROGRAM_START_FN_def START_MEASUREMENT_FN_def
        END_MEASUREMENT_FN_def PRINT_STATS_FN_def)
  have "Fs = fst (CC_instrumentFunctions (funcs M1)) @ [cpu_cycle_ctor ''cpu_cycle_ctor'']"
    using CC_instrumentFunctions_snoc[where G="cpu_cycle_ctor ''cpu_cycle_ctor''" and Fs="funcs M1",
        OF collectPairs_cpu_cycle_ctor] i f2 by simp
  then have l: "last Fs = cpu_cycle_ctor ''cpu_cycle_ctor''" by simp
  have np: "snd (CpuCycleCountPass_run env M) = PreservedAll \<and>
            fst (CpuCycleCountPass_run env M) \<noteq> M"
    if none: "\<forall>F\<in>set (funcs M). collectPairs (blocks F) = []"
  proof -
    have "\<forall>F\<in>set (funcs M1). collectPairs (blocks F) = []"
    proof -
      have e: "collectPairs [] = []" by (simp add: collectPairs_def)
      have step: "\<forall>F\<in>set (funcs (fst (getOrInsertFunction N name))). collectPairs (blocks F) = []"
        if "\<forall>F\<in>set (funcs N). collectPairs (blocks F) = []" for N name
        using that e by (auto simp: getOrInsertFunction_def declareFunction_def)
      show ?thesis
        unfolding M1_def CC_setupRuntimeFunctions_def
        using step[OF step[OF step[OF step[OF none]]]]
        by (simp add: split_beta)
    qed
    then have "\<forall>F\<in>set (funcs M2). collectPairs (blocks F) = []"
      using f2 collectPairs_cpu_cycle_ctor by simp
    from CC_instrumentFunctions_nopairs[OF this] i have "m = False" by simp
    moreover have "global_ctors (M2\<lparr> funcs := Fs \<rparr>) \<noteq> global_ctors M" using c2 by simp
    ultimately show ?thesis unfolding run by auto
  qed
  from run h l c2 d2 np show ?thesis by simp
qed

theorem C10_hooks_without_markers_witness:
  "isPrimaryPackage (Some ''1'') \<and> globals plainModule = [] \<and>
   map fname (funcs plainModule) = [''h''] \<and>
   list_all (\<lambda>F. collectPairs (blocks F) = []) (funcs plainModule) \<and>
   {''record_program_start'', ''cpu_cycle_start_measurement'',
    ''cpu_cycle_end_measurement'', ''print_cpu_cycle_stats''}
      \<subseteq> fname ` set (funcs (fst (CpuCycleCountPass_run (Some ''1'') plainModule))) \<and>
   last (funcs (fst (CpuCycleCountPass_run (Some ''1'') plainModule))) =
     cpu_cycle_ctor ''cpu_cycle_ctor'' \<and>
   global_ctors (fst (CpuCycleCountPass_run (Some ''1'') plainModule)) = [(''cpu_cycle_ctor'', 0)] \<and>
   global_dtors (fst (CpuCycleCountPass_run (Some ''1'') plainModule)) =
     [(''print_cpu_cycle_stats'', 0)] \<and>
   snd (CpuCycleCountPass_run (Some ''1'') plainModule) = PreservedAll \<and>
   fst (CpuCycleCountPass_run (Some ''1'') plainModule) \<noteq> plainModule"
proof -
  have g: "globals plainModule = []" "global_ctors plainModule = []" "global_dtors plainModule = []"
    by (simp_all add: plainModule_def emptyModule_def)
  have n: "map fname (funcs plainModule) = [''h'']"
    by (simp add: plainModule_def emptyModule_def mkFunc_def)
  have nc: "\<forall>G\<in>set (globals plainModule). gv_name G \<notin>
      {PROGRAM_START_FN, START_MEASUREMENT_FN, END_MEASUREMENT_FN, PRINT_STATS_FN}"
    by (simp add: g)
  have fr: "''cpu_cycle_ctor'' \<notin> set (takenNames plainModule)"
    by (simp add: takenNames_def g n)
  have np: "\<forall>F\<in>set (funcs plainModule). collectPairs (blocks F) = []"
    by (simp add: plainModule_def emptyModule_def mkFunc_def plainInst_def collectPairs_def
          collectBlock_def collectMarker_def calledInlineAsm_def isCallBase_def)
  from C10_hooks_without_markers[OF primary_one nc fr] np primary_one g n
  show ?thesis by (simp add: list_all_iff)
qed

lemma decimal_one: "decimal (Suc 0) = ''1''"
  by (simp add: decimal.simps[of "Suc 0"] digit_def)

text \<open>
  Claim C10 fails as stated, for every primary-build module. In \<open>statsVarModule\<close> a
  global variable bears the name \<open>print_cpu_cycle_stats\<close>: \<open>getOrInsertFunction\<close>
  returns that variable, no function of the name is declared, the cast to a function
  fails and no destructor is registered. In \<open>ctorNameModule\<close> a function bears the name
  \<open>cpu_cycle_ctor\<close>: the new function gets the name \<open>cpu_cycle_ctor.1\<close> and is the one
  registered as constructor.
\<close>

theorem C10_counterexample:
  "isPrimaryPackage (Some ''1'') \<and>
   global_dtors (fst (CpuCycleCountPass_run (Some ''1'') statsVarModule)) = [] \<and>
   map fname (funcs (fst (CpuCycleCountPass_run (Some ''1'') statsVarModule))) =
     [''record_program_start'', ''cpu_cycle_start_measurement'',
      ''cpu_cycle_end_measurement'', ''cpu_cycle_ctor''] \<and>
   snd (CpuCycleCountPass_run (Some ''1'') statsVarModule) = PreservedAll \<and>
   map fname (funcs (fst (CpuCycleCountPass_run (Some ''1'') ctorNameModule))) =
     [''cpu_cycle_ctor'', ''record_program_start'', ''cpu_cycle_start_measurement'',
      ''cpu_cycle_end_measurement'', ''print_cpu_cycle_stats'', ''cpu_cycle_ctor.1''] \<and>
   global_ctors (fst (CpuCycleCountPass_run (Some ''1'') ctorNameModule)) =
     [(''cpu_cycle_ctor.1'', 0)]"
  by (simp add: CpuCycleCountPass_run_def CC_setupRuntimeFunctions_def getOrInsertFunction_def
        setupModuleHooks_def uniqueName_def takenNames_def decimal_one Let_def
        appendToGlobalCtors_def appendToGlobalDtors_def declareFunction_def
        statsVarModule_def ctorNameModule_def emptyModule_def mkFunc_def plainInst_def
        isPrimaryPackage_def cpu_cycle_ctor_def createInternalFunction_def
        PROGRAM_START_FN_def START_MEASUREMENT_FN_def END_MEASUREMENT_FN_def PRINT_STATS_FN_def
        isDeclaration_def instrumentUnsafeBlocks_def collectPairs_def collectBlock_def
        collectMarker_def calledInlineAsm_def isCallBase_def CreateCall_def CreateRetVoid_def
        eval_nat_numeral)

section \<open>CpuCycleCount: the first pass\<close>

lemma collectMarker_cases:
  "collectMarker I (cur, acc) =
     (if isBeginSentinel I then (if cur = None then (Some I, acc) else (cur, acc))
      else if isEndSentinel I then (case cur of None \<Rightarrow> (cur, acc) | Some B \<Rightarrow> (None, acc @ [(B, I)]))
      else (cur, acc))"
  by (auto simp: collectMarker_def isBeginSentinel_def isEndSentinel_def
        UNSAFE_MARKER_BEGIN_def UNSAFE_MARKER_END_def split: option.splits)

lemma isSentinel_iff: "isSentinel I \<longleftrightarrow> isBeginSentinel I \<or> isEndSentinel I"
  by (simp add: isSentinel_def isBeginSentinel_def isEndSentinel_def)

lemma MarkersToRemove_append [simp]:
  "MarkersToRemove (xs @ ys) = MarkersToRemove xs @ MarkersToRemove ys"
  by (simp add: MarkersToRemove_def)

lemma MarkersToRemove_single [simp]: "MarkersToRemove [(B, E)] = [B, E]"
  by (simp add: MarkersToRemove_def)

section \<open>CpuCycleCount: insertion and erasure at a pointer\<close>

lemma expand_Nil [simp]: "expand ins R [] = []"
  by (simp add: expand_def)

lemma expand_Cons [simp]:
  "expand ins R (I # BB) = ins (ident I) @ (if ident I \<in> R then [] else [I]) @ expand ins R BB"
  by (simp add: expand_def)

lemma expand_id: "expand (\<lambda>p. []) {} BB = BB"
  by (induction BB) simp_all

lemma expand_cong:
  "(\<And>I. I \<in> set BB \<Longrightarrow> ins (ident I) = ins' (ident I) \<and> (ident I \<in> R \<longleftrightarrow> ident I \<in> R')) \<Longrightarrow>
   expand ins R BB = expand ins' R' BB"
  by (induction BB) auto

lemma insertBefore_skip:
  "\<forall>J\<in>set xs. ident J \<noteq> p \<Longrightarrow> insertBefore p new (xs @ ys) = xs @ insertBefore p new ys"
  by (induction xs) auto

lemma insertBefore_expand:
  assumes "distinct (map ident BB)" and "\<And>q J. J \<in> set (ins q) \<Longrightarrow> ident J \<noteq> p"
    and p: "ins' p = ins p @ new" and np: "\<And>q. q \<noteq> p \<Longrightarrow> ins' q = ins q"
  shows "insertBefore p new (expand ins {} BB) = expand ins' {} BB"
  using assms(1)
proof (induction BB)
  case Nil
  show ?case by simp
next
  case (Cons I BB)
  have skip: "\<forall>J\<in>set (ins (ident I)). ident J \<noteq> p" using assms(2) by blast
  show ?case
  proof (cases "ident I = p")
    case True
    have "expand ins' {} BB = expand ins {} BB"
    proof (rule expand_cong)
      fix J assume "J \<in> set BB"
      then have "ident J \<in> ident ` set BB" by simp
      moreover have "ident I \<notin> ident ` set BB" using Cons.prems by simp
      ultimately have "ident J \<noteq> p" using True by metis
      then show "ins' (ident J) = ins (ident J) \<and>
                 (ident J \<in> {} \<longleftrightarrow> ident J \<in> {})" using np by simp
    qed
    with True skip p show ?thesis by (simp add: insertBefore_skip)
  next
    case False
    with Cons skip np show ?thesis by (simp add: insertBefore_skip)
  qed
qed

lemma filter_expand:
  assumes "\<And>q J. J \<in> set (ins q) \<Longrightarrow> ident J \<noteq> p"
  shows "filter (\<lambda>I. ident I \<noteq> p) (expand ins R BB) = expand ins (insert p R) BB"
  using assms by (induction BB) (auto simp: filter_id_conv)

lemma set_expand_subset: "ident I \<notin> R \<Longrightarrow> I \<in> set BB \<Longrightarrow> I \<in> set (expand ins R BB)"
  by (induction BB) auto

lemma fresh_ident_expand:
  assumes "I \<in> set (concat bbs0)"
  shows "ident I < fresh_ident (map (expand ins {}) bbs0)"
proof -
  from assms obtain BB where "BB \<in> set bbs0" "I \<in> set BB" by auto
  then have "I \<in> set (concat (map (expand ins {}) bbs0))"
    using set_expand_subset[of I "{}" BB ins] by auto
  then show ?thesis by (rule fresh_ident_gt)
qed

lemma insertMeasurement_expand:
  assumes dist: "\<forall>BB\<in>set bbs0. distinct (map ident BB)"
    and fresh: "freshFor (ident ` set (concat bbs0)) ins"
    and b: "b \<in> set (concat bbs0)" and e: "e \<in> set (concat bbs0)"
    and ne: "ident b \<noteq> ident e"
  shows "\<exists>n ins'. insertMeasurement (b, e) (map (expand ins {}) bbs0) = map (expand ins' {}) bbs0 \<and>
           freshFor (ident ` set (concat bbs0)) ins' \<and>
           ins' (ident b) = ins (ident b) @ measurementStart n b \<and>
           ins' (ident e) = ins (ident e) @ measurementEnd n e \<and>
           (\<forall>q. q \<noteq> ident b \<and> q \<noteq> ident e \<longrightarrow> ins' q = ins q)"
proof -
  define Old where "Old = ident ` set (concat bbs0)"
  define n where "n = fresh_ident (map (expand ins {}) bbs0)"
  have big: "\<And>k. k \<in> Old \<Longrightarrow> k < n"
    unfolding Old_def n_def using fresh_ident_expand by auto
  have nO: "n \<notin> Old" "Suc n \<notin> Old" "n + 2 \<notin> Old" "n + 3 \<notin> Old"
    using big[of n] big[of "Suc n"] big[of "n + 2"] big[of "n + 3"] by auto
  define ins1 where "ins1 = ins(ident b := ins (ident b) @ measurementStart n b)"
  define ins2 where "ins2 = ins1(ident e := ins1 (ident e) @ measurementEnd n e)"
  have bO: "ident b \<in> Old" and eO: "ident e \<in> Old" using b e by (auto simp: Old_def)
  have f0: "\<And>q J. J \<in> set (ins q) \<Longrightarrow> ident J \<notin> Old"
    using fresh unfolding freshFor_def Old_def by blast
  have newS: "\<And>J. J \<in> set (measurementStart n b) \<Longrightarrow>
      ident J \<notin> Old \<and> (\<forall>k. InstVal k \<in> set (operands J) \<longrightarrow> k \<notin> Old)"
    using nO by (auto simp: measurementStart_def CreateFence_def CreateCall_def)
  have newE: "\<And>J. J \<in> set (measurementEnd n e) \<Longrightarrow>
      ident J \<notin> Old \<and> (\<forall>k. InstVal k \<in> set (operands J) \<longrightarrow> k \<notin> Old)"
    using nO by (auto simp: measurementEnd_def CreateFence_def CreateCall_def)
  have fr0: "freshFor Old ins" using fresh by (simp add: Old_def)
  have fr1: "freshFor Old ins1"
    unfolding freshFor_def
  proof (intro allI ballI)
    fix q J assume J: "J \<in> set (ins1 q)"
    then have "J \<in> set (ins q) \<or> J \<in> set (measurementStart n b)"
      by (auto simp: ins1_def split: if_splits)
    then show "ident J \<notin> Old \<and> (\<forall>k. InstVal k \<in> set (operands J) \<longrightarrow> k \<notin> Old)"
      using fr0 newS unfolding freshFor_def by blast
  qed
  have fr2: "freshFor Old ins2"
    unfolding freshFor_def
  proof (intro allI ballI)
    fix q J assume J: "J \<in> set (ins2 q)"
    then have "J \<in> set (ins1 q) \<or> J \<in> set (measurementEnd n e)"
      by (auto simp: ins2_def split: if_splits)
    then show "ident J \<notin> Old \<and> (\<forall>k. InstVal k \<in> set (operands J) \<longrightarrow> k \<notin> Old)"
      using fr1 newE unfolding freshFor_def by blast
  qed
  have s1: "insertBefore (ident b) (measurementStart n b) (expand ins {} BB) = expand ins1 {} BB"
    if "BB \<in> set bbs0" for BB
  proof (rule insertBefore_expand)
    show "distinct (map ident BB)" using dist that by simp
    show "\<And>q J. J \<in> set (ins q) \<Longrightarrow> ident J \<noteq> ident b" using f0 bO by metis
    show "ins1 (ident b) = ins (ident b) @ measurementStart n b" by (simp add: ins1_def)
    show "\<And>q. q \<noteq> ident b \<Longrightarrow> ins1 q = ins q" by (simp add: ins1_def)
  qed
  have f1: "\<And>q J. J \<in> set (ins1 q) \<Longrightarrow> ident J \<notin> Old"
    using fr1 unfolding freshFor_def by blast
  have s2: "insertBefore (ident e) (measurementEnd n e) (expand ins1 {} BB) = expand ins2 {} BB"
    if "BB \<in> set bbs0" for BB
  proof (rule insertBefore_expand)
    show "distinct (map ident BB)" using dist that by simp
    show "\<And>q J. J \<in> set (ins1 q) \<Longrightarrow> ident J \<noteq> ident e" using f1 eO by metis
    show "ins2 (ident e) = ins1 (ident e) @ measurementEnd n e" by (simp add: ins2_def)
    show "\<And>q. q \<noteq> ident e \<Longrightarrow> ins2 q = ins1 q" by (simp add: ins2_def)
  qed
  have "insertMeasurement (b, e) (map (expand ins {}) bbs0) =
        map (insertBefore (ident e) (measurementEnd n e))
          (map (insertBefore (ident b) (measurementStart n b)) (map (expand ins {}) bbs0))"
    by (simp add: insertMeasurement_def Let_def n_def measurementStart_def measurementEnd_def
          START_MEASUREMENT_FN_def END_MEASUREMENT_FN_def CreateCall_def)
  also have "\<dots> = map (expand ins2 {}) bbs0" using s1 s2 by simp
  finally have r: "insertMeasurement (b, e) (map (expand ins {}) bbs0) = map (expand ins2 {}) bbs0" .
  have v1: "ins2 (ident b) = ins (ident b) @ measurementStart n b"
    using ne by (simp add: ins2_def ins1_def)
  have v2: "ins2 (ident e) = ins (ident e) @ measurementEnd n e"
    using ne by (simp add: ins2_def ins1_def)
  have v3: "\<forall>q. q \<noteq> ident b \<and> q \<noteq> ident e \<longrightarrow> ins2 q = ins q"
    by (simp add: ins2_def ins1_def)
  from r fr2 v1 v2 v3 show ?thesis unfolding Old_def by blast
qed

section \<open>CpuCycleCount: the pairs of the first pass\<close>

lemma fold_collectMarker_pairsOf:
  "snd (fold collectMarker BB (cur, acc)) = acc @ pairsOf cur BB"
proof (induction BB arbitrary: cur acc)
  case Nil
  show ?case by simp
next
  case (Cons I BB)
  show ?case
    by (cases cur) (simp_all add: collectMarker_cases Cons.IH)
qed

lemma collectBlock_pairsOf: "collectBlock BB acc = acc @ pairsOf None BB"
  by (simp add: collectBlock_def fold_collectMarker_pairsOf)

lemma fold_collectBlock_pairsOf:
  "fold collectBlock bbs acc = acc @ concat (map (pairsOf None) bbs)"
  by (induction bbs arbitrary: acc) (simp_all add: collectBlock_pairsOf)

lemma collectPairs_pairsOf: "collectPairs bbs = concat (map (pairsOf None) bbs)"
  by (simp add: collectPairs_def fold_collectBlock_pairsOf)

lemma begin_not_end: "isBeginSentinel I \<Longrightarrow> \<not> isEndSentinel I"
  by (simp add: isBeginSentinel_def isEndSentinel_def UNSAFE_MARKER_BEGIN_def
        UNSAFE_MARKER_END_def)

lemma MarkersToRemove_Cons [simp]:
  "MarkersToRemove ((B, E) # ps) = B # E # MarkersToRemove ps"
  by (simp add: MarkersToRemove_def)

lemma MarkersToRemove_Nil [simp]: "MarkersToRemove [] = []"
  by (simp add: MarkersToRemove_def)

lemma pairsOf_markers_sub:
  "set (MarkersToRemove (pairsOf cur BB)) \<subseteq> set_option cur \<union> set BB"
proof (induction BB arbitrary: cur)
  case Nil
  show ?case by simp
next
  case (Cons I BB)
  show ?case
    using Cons.IH[of cur] Cons.IH[of "Some I"] Cons.IH[of None]
    by (cases cur) (auto split: if_splits)
qed

lemma pairsOf_no_end: "\<not> list_ex isEndSentinel BB \<Longrightarrow> pairsOf cur BB = []"
  by (induction BB arbitrary: cur) auto

lemma pairsOf_end:
  "list_ex isEndSentinel BB \<Longrightarrow> \<exists>e rest. pairsOf (Some B) BB = (B, e) # rest"
  by (induction BB) (auto dest: begin_not_end)

lemma pairsOf_distinct:
  assumes "distinct (map ident BB)" and "\<forall>B. cur = Some B \<longrightarrow> ident B \<notin> ident ` set BB"
  shows "distinct (map ident (MarkersToRemove (pairsOf cur BB)))"
  using assms
proof (induction BB arbitrary: cur)
  case Nil
  show ?case by simp
next
  case (Cons I BB)
  from Cons.prems have d: "distinct (map ident BB)" and nI: "ident I \<notin> ident ` set BB"
    by auto
  have c: "\<forall>B. cur = Some B \<longrightarrow> ident B \<notin> ident ` set BB" using Cons.prems(2) by auto
  have subN: "set (MarkersToRemove (pairsOf None BB)) \<subseteq> set BB"
    using pairsOf_markers_sub[of None BB] by simp
  show ?case
  proof (cases "isBeginSentinel I")
    case True
    show ?thesis
      using True Cons.IH[OF d, of "Some I"] Cons.IH[OF d c] nI by (cases cur) auto
  next
    case nb: False
    show ?thesis
    proof (cases "isEndSentinel I")
      case True
      show ?thesis
      proof (cases cur)
        case None
        then show ?thesis using True nb Cons.IH[OF d, of None] by simp
      next
        case (Some B)
        with Cons.prems(2) have "ident B \<noteq> ident I" "ident B \<notin> ident ` set BB" by auto
        with subN nI have "ident B \<notin> ident ` set (MarkersToRemove (pairsOf None BB))"
          "ident I \<notin> ident ` set (MarkersToRemove (pairsOf None BB))" by auto
        then show ?thesis
          using Some True nb Cons.IH[OF d, of None] \<open>ident B \<noteq> ident I\<close> by simp
      qed
    next
      case False
      then show ?thesis using nb Cons.IH[OF d c] by simp
    qed
  qed
qed

lemma collectPairs_distinct:
  assumes "distinct (map ident (concat bbs))"
  shows "distinct (map ident (MarkersToRemove (concat (map (pairsOf None) bbs))))"
  using assms
proof (induction bbs)
  case Nil
  show ?case by simp
next
  case (Cons BB bbs)
  from Cons.prems have d1: "distinct (map ident BB)" and d2: "distinct (map ident (concat bbs))"
    and dj: "ident ` set BB \<inter> ident ` set (concat bbs) = {}" by auto
  have s1: "set (MarkersToRemove (pairsOf None BB)) \<subseteq> set BB"
    using pairsOf_markers_sub[of None BB] by simp
  have s2: "set (MarkersToRemove (concat (map (pairsOf None) bbs))) \<subseteq> set (concat bbs)"
  proof (induction bbs)
    case Nil
    show ?case by simp
  next
    case (Cons B bs)
    then show ?case using pairsOf_markers_sub[of None B] by auto
  qed
  have "ident ` set (MarkersToRemove (pairsOf None BB)) \<inter>
        ident ` set (MarkersToRemove (concat (map (pairsOf None) bbs))) = {}"
    using s1 s2 dj by blast
  then show ?case
    using pairsOf_distinct[OF d1, of None] Cons.IH[OF d2] by simp
qed

lemma collectPairs_sub:
  "set (MarkersToRemove (concat (map (pairsOf None) bbs))) \<subseteq> set (concat bbs)"
proof (induction bbs)
  case Nil
  show ?case by simp
next
  case (Cons B bs)
  then show ?case using pairsOf_markers_sub[of None B] by auto
qed

section \<open>CpuCycleCount: the second and third pass\<close>

lemma fold_insertMeasurement_expand:
  assumes dist: "\<forall>BB\<in>set bbs0. distinct (map ident BB)"
    and fresh: "freshFor (ident ` set (concat bbs0)) ins0"
    and sub: "set (MarkersToRemove ps) \<subseteq> set (concat bbs0)"
    and dm: "distinct (map ident (MarkersToRemove ps))"
    and emp: "\<forall>m\<in>set (MarkersToRemove ps). ins0 (ident m) = []"
  shows "\<exists>ins. fold insertMeasurement ps (map (expand ins0 {}) bbs0) = map (expand ins {}) bbs0 \<and>
           freshFor (ident ` set (concat bbs0)) ins \<and>
           (\<forall>p\<in>set ps. \<exists>n. ins (ident (fst p)) = measurementStart n (fst p) \<and>
                             ins (ident (snd p)) = measurementEnd n (snd p)) \<and>
           (\<forall>q. q \<notin> ident ` set (MarkersToRemove ps) \<longrightarrow> ins q = ins0 q)"
  using fresh sub dm emp
proof (induction ps arbitrary: ins0)
  case Nil
  then show ?case by auto
next
  case (Cons p ps)
  obtain b e where p: "p = (b, e)" by (cases p) auto
  from Cons.prems(2) p have b: "b \<in> set (concat bbs0)" and e: "e \<in> set (concat bbs0)"
    and sub': "set (MarkersToRemove ps) \<subseteq> set (concat bbs0)" by auto
  from Cons.prems(3) p have ne: "ident b \<noteq> ident e"
    and nb: "ident b \<notin> ident ` set (MarkersToRemove ps)"
    and nE: "ident e \<notin> ident ` set (MarkersToRemove ps)"
    and dm': "distinct (map ident (MarkersToRemove ps))" by auto
  from Cons.prems(4) p have eb: "ins0 (ident b) = []" and ee: "ins0 (ident e) = []"
    and emp': "\<forall>m\<in>set (MarkersToRemove ps). ins0 (ident m) = []" by auto
  from insertMeasurement_expand[OF dist Cons.prems(1) b e ne]
  obtain n ins1 where
    s: "insertMeasurement (b, e) (map (expand ins0 {}) bbs0) = map (expand ins1 {}) bbs0"
    and f1: "freshFor (ident ` set (concat bbs0)) ins1"
    and v1: "ins1 (ident b) = ins0 (ident b) @ measurementStart n b"
    and v2: "ins1 (ident e) = ins0 (ident e) @ measurementEnd n e"
    and v3: "\<forall>q. q \<noteq> ident b \<and> q \<noteq> ident e \<longrightarrow> ins1 q = ins0 q"
    by blast
  have emp1: "\<forall>m\<in>set (MarkersToRemove ps). ins1 (ident m) = []"
  proof
    fix m assume m: "m \<in> set (MarkersToRemove ps)"
    then have "ident m \<noteq> ident b" "ident m \<noteq> ident e" using nb nE by (metis imageI)+
    then show "ins1 (ident m) = []" using v3 emp' m by simp
  qed
  from Cons.IH[OF f1 sub' dm' emp1]
  obtain ins where
    r: "fold insertMeasurement ps (map (expand ins1 {}) bbs0) = map (expand ins {}) bbs0"
    and f: "freshFor (ident ` set (concat bbs0)) ins"
    and w1: "\<forall>p\<in>set ps. \<exists>n. ins (ident (fst p)) = measurementStart n (fst p) \<and>
                             ins (ident (snd p)) = measurementEnd n (snd p)"
    and w2: "\<forall>q. q \<notin> ident ` set (MarkersToRemove ps) \<longrightarrow> ins q = ins1 q"
    by blast
  have hb: "ins (ident b) = measurementStart n b" using w2 nb v1 eb by simp
  have he: "ins (ident e) = measurementEnd n e" using w2 nE v2 ee by simp
  have c1: "fold insertMeasurement (p # ps) (map (expand ins0 {}) bbs0) = map (expand ins {}) bbs0"
    using p s r by simp
  have c3: "\<forall>p'\<in>set (p # ps). \<exists>n. ins (ident (fst p')) = measurementStart n (fst p') \<and>
                             ins (ident (snd p')) = measurementEnd n (snd p')"
    using w1 hb he p by auto
  have c4: "\<forall>q. q \<notin> ident ` set (MarkersToRemove (p # ps)) \<longrightarrow> ins q = ins0 q"
    using w2 v3 p by auto
  from c1 f c3 c4 show ?case by blast
qed

lemma set_expand: "J \<in> set (expand ins R BB) \<Longrightarrow> J \<in> set BB \<or> (\<exists>q. J \<in> set (ins q))"
  by (induction BB) (auto split: if_splits)

lemma eraseFromParent_expand:
  assumes "\<And>q J. J \<in> set (ins q) \<Longrightarrow> ident J \<noteq> p"
  shows "eraseFromParent p (map (expand ins R) bbs0) = map (expand ins (insert p R)) bbs0"
  using filter_expand[OF assms] by (simp add: eraseFromParent_def)

lemma eraseFromParent_absent:
  "\<not> list_ex (\<lambda>I. ident I = p) (concat bbs) \<Longrightarrow> eraseFromParent p bbs = bbs"
  by (auto simp: eraseFromParent_def list_ex_iff intro!: map_idI filter_True)

lemma removeMarker_user_empty:
  "user_empty (ident m) bbs \<Longrightarrow> removeMarker m bbs = eraseFromParent (ident m) bbs"
  by (simp add: removeMarker_def eraseFromParent_absent)

lemma fold_removeMarker_expand:
  assumes fresh: "freshFor (ident ` set (concat bbs0)) ins"
    and sub: "set ms \<subseteq> set (concat bbs0)"
    and nouse: "\<forall>m\<in>set ms. \<forall>I\<in>set (concat bbs0). InstVal (ident m) \<notin> set (operands I)"
  shows "fold removeMarker ms (map (expand ins R) bbs0) =
         map (expand ins (R \<union> ident ` set ms)) bbs0"
  using sub nouse
proof (induction ms arbitrary: R)
  case Nil
  show ?case by simp
next
  case (Cons m ms)
  from Cons.prems have m: "m \<in> set (concat bbs0)" and sub': "set ms \<subseteq> set (concat bbs0)"
    and nu: "\<forall>I\<in>set (concat bbs0). InstVal (ident m) \<notin> set (operands I)"
    and nouse': "\<forall>m\<in>set ms. \<forall>I\<in>set (concat bbs0). InstVal (ident m) \<notin> set (operands I)"
    by auto
  have mO: "ident m \<in> ident ` set (concat bbs0)" using m by blast
  have i1: "\<And>q J. J \<in> set (ins q) \<Longrightarrow> ident J \<noteq> ident m"
    using fresh mO unfolding freshFor_def by metis
  have i2: "\<And>q J. J \<in> set (ins q) \<Longrightarrow> InstVal (ident m) \<notin> set (operands J)"
    using fresh mO unfolding freshFor_def by metis
  have ue: "user_empty (ident m) (map (expand ins R) bbs0)"
    unfolding user_empty_def list_ex_iff
  proof
    assume "\<exists>I\<in>set (concat (map (expand ins R) bbs0)). InstVal (ident m) \<in> set (operands I)"
    then obtain I BB where BB: "BB \<in> set bbs0" and I: "I \<in> set (expand ins R BB)"
      and u: "InstVal (ident m) \<in> set (operands I)" by auto
    from set_expand[OF I] BB u nu i2 show False by auto
  qed
  have "removeMarker m (map (expand ins R) bbs0) = map (expand ins (insert (ident m) R)) bbs0"
    using removeMarker_user_empty[OF ue] eraseFromParent_expand[of ins "ident m" R bbs0] i1
    by simp
  then show ?case using Cons.IH[OF sub' nouse', of "insert (ident m) R"] by simp
qed

section \<open>CpuCycleCount: a block and its measured form\<close>

lemma measurementStart_shape:
  "measurementStart n I =
     [CreateFence n (debugLoc I) SequentiallyConsistent,
      CreateCall (Suc n) (debugLoc I) (CalledFunction ''cpu_cycle_start_measurement'') []]"
  by (simp add: measurementStart_def)

lemma ident_CreateFence [simp]: "ident (CreateFence n dl ord) = n"
  by (simp add: CreateFence_def)

lemma ident_CreateCall [simp]: "ident (CreateCall n dl c args) = n"
  by (simp add: CreateCall_def)

lemma measured_expand:
  assumes "distinct (map ident BB)"
    and "\<forall>B. cur = Some B \<longrightarrow> ident B \<notin> ident ` set BB"
    and "\<forall>p\<in>set (pairsOf cur BB). \<exists>n. ins (ident (fst p)) = measurementStart n (fst p) \<and>
                                       ins (ident (snd p)) = measurementEnd n (snd p)"
    and "\<forall>I\<in>set BB. if I \<in> set (MarkersToRemove (pairsOf cur BB)) then ident I \<in> R
                      else ins (ident I) = [] \<and> ident I \<notin> R"
  shows "measured (case cur of None \<Rightarrow> None
                   | Some B \<Rightarrow> if list_ex isEndSentinel BB
                               then Some (ident (ins (ident B) ! 1)) else None)
           BB (expand ins R BB)"
  using assms
proof (induction BB arbitrary: cur)
  case Nil
  show ?case by simp
next
  case (Cons I BB)
  from Cons.prems(1) have d: "distinct (map ident BB)" and nI: "ident I \<notin> ident ` set BB"
    by auto
  have InBB: "I \<notin> set BB" using nI by blast
  have c: "\<forall>B. cur = Some B \<longrightarrow> ident B \<notin> ident ` set BB" using Cons.prems(2) by auto
  have Ic: "cur \<noteq> Some I" using Cons.prems(2) by auto
  have subN: "set (MarkersToRemove (pairsOf None BB)) \<subseteq> set BB"
    using pairsOf_markers_sub[of None BB] by simp
  have subC: "set (MarkersToRemove (pairsOf cur BB)) \<subseteq> set_option cur \<union> set BB"
    by (rule pairsOf_markers_sub)
  have Iself: "if I \<in> set (MarkersToRemove (pairsOf cur (I # BB))) then ident I \<in> R
               else ins (ident I) = [] \<and> ident I \<notin> R"
    using Cons.prems(4) by simp
  have unchanged: "expand ins R (I # BB) = I # expand ins R BB"
    if "I \<notin> set (MarkersToRemove (pairsOf cur (I # BB)))"
    using that Iself by simp
  have InC: "I \<notin> set (MarkersToRemove (pairsOf cur BB))"
    using subC InBB Ic by (cases cur) auto
  have InN: "I \<notin> set (MarkersToRemove (pairsOf None BB))"
    using subN InBB by auto
  show ?case
  proof (cases "isBeginSentinel I")
    case bg: True
    then have ne: "\<not> isEndSentinel I" by (rule begin_not_end)
    show ?thesis
    proof (cases cur)
      case None
      have pe: "pairsOf cur (I # BB) = pairsOf (Some I) BB" using bg None by simp
      have p3: "\<forall>p\<in>set (pairsOf (Some I) BB).
           \<exists>n. ins (ident (fst p)) = measurementStart n (fst p) \<and>
               ins (ident (snd p)) = measurementEnd n (snd p)"
        using Cons.prems(3) pe by simp
      have p4: "\<forall>J\<in>set BB. if J \<in> set (MarkersToRemove (pairsOf (Some I) BB)) then ident J \<in> R
                      else ins (ident J) = [] \<and> ident J \<notin> R"
        using Cons.prems(4) pe by simp
      have p2: "\<forall>B. Some I = Some B \<longrightarrow> ident B \<notin> ident ` set BB" using nI by simp
      note IH = Cons.IH[OF d p2 p3 p4]
      show ?thesis
      proof (cases "list_ex isEndSentinel BB")
        case True
        from pairsOf_end[OF True, of I] obtain e rest where
          pp: "pairsOf (Some I) BB = (I, e) # rest" by blast
        with p3 obtain n where s: "ins (ident I) = measurementStart n I" by auto
        have IR: "ident I \<in> R" using Iself pe pp by simp
        have ex: "expand ins R (I # BB) = measurementStart n I @ expand ins R BB"
          using s IR by simp
        have st: "ident (ins (ident I) ! 1) = Suc n" using s by (simp add: measurementStart_def)
        show ?thesis
          using IH True bg None st unfolding ex
          by (simp add: measurementStart_def)
      next
        case False
        have "pairsOf (Some I) BB = []" using False by (rule pairsOf_no_end)
        with pe have un: "I \<notin> set (MarkersToRemove (pairsOf cur (I # BB)))" by simp
        from IH False bg ne None show ?thesis unfolding unchanged[OF un] by simp
      qed
    next
      case (Some B)
      have pe: "pairsOf cur (I # BB) = pairsOf cur BB" using bg Some by simp
      have p3: "\<forall>p\<in>set (pairsOf cur BB).
           \<exists>n. ins (ident (fst p)) = measurementStart n (fst p) \<and>
               ins (ident (snd p)) = measurementEnd n (snd p)"
        using Cons.prems(3) pe by simp
      have p4: "\<forall>J\<in>set BB. if J \<in> set (MarkersToRemove (pairsOf cur BB)) then ident J \<in> R
                      else ins (ident J) = [] \<and> ident J \<notin> R"
        using Cons.prems(4) pe by simp
      note IH = Cons.IH[OF d c p3 p4]
      have un: "I \<notin> set (MarkersToRemove (pairsOf cur (I # BB)))" using InC pe by simp
      from IH bg ne Some show ?thesis unfolding unchanged[OF un] by simp
    qed
  next
    case nb: False
    show ?thesis
    proof (cases "isEndSentinel I")
      case en: True
      show ?thesis
      proof (cases cur)
        case None
        have pe: "pairsOf cur (I # BB) = pairsOf None BB" using en nb None by simp
        have p3: "\<forall>p\<in>set (pairsOf None BB).
             \<exists>n. ins (ident (fst p)) = measurementStart n (fst p) \<and>
                 ins (ident (snd p)) = measurementEnd n (snd p)"
          using Cons.prems(3) pe by simp
        have p4: "\<forall>J\<in>set BB. if J \<in> set (MarkersToRemove (pairsOf None BB)) then ident J \<in> R
                        else ins (ident J) = [] \<and> ident J \<notin> R"
          using Cons.prems(4) pe by simp
        have p2: "\<forall>B. None = Some B \<longrightarrow> ident B \<notin> ident ` set BB" by simp
        note IH = Cons.IH[OF d p2 p3 p4]
        have un: "I \<notin> set (MarkersToRemove (pairsOf cur (I # BB)))" using InN pe by simp
        from IH en nb None show ?thesis unfolding unchanged[OF un] by simp
      next
        case (Some B)
        have pe: "pairsOf cur (I # BB) = (B, I) # pairsOf None BB" using en nb Some by simp
        from Cons.prems(3) pe obtain n where sB: "ins (ident B) = measurementStart n B"
          and sI: "ins (ident I) = measurementEnd n I" by auto
        have IR: "ident I \<in> R" using Iself pe by simp
        have ex: "expand ins R (I # BB) = measurementEnd n I @ expand ins R BB"
          using sI IR by simp
        have p3: "\<forall>p\<in>set (pairsOf None BB).
             \<exists>n. ins (ident (fst p)) = measurementStart n (fst p) \<and>
                 ins (ident (snd p)) = measurementEnd n (snd p)"
          using Cons.prems(3) pe by simp
        have BnBB: "B \<notin> set BB" using Cons.prems(2) Some by auto
        have p4: "\<forall>J\<in>set BB. if J \<in> set (MarkersToRemove (pairsOf None BB)) then ident J \<in> R
                        else ins (ident J) = [] \<and> ident J \<notin> R"
        proof
          fix J assume J: "J \<in> set BB"
          then have "J \<noteq> B" "J \<noteq> I" using BnBB InBB by auto
          then have "J \<in> set (MarkersToRemove (pairsOf cur (I # BB))) \<longleftrightarrow>
                     J \<in> set (MarkersToRemove (pairsOf None BB))" using pe by simp
          with Cons.prems(4) J show "if J \<in> set (MarkersToRemove (pairsOf None BB)) then ident J \<in> R
                        else ins (ident J) = [] \<and> ident J \<notin> R" by simp
        qed
        have p2: "\<forall>B. None = Some B \<longrightarrow> ident B \<notin> ident ` set BB" by simp
        note IH = Cons.IH[OF d p2 p3 p4]
        have st: "ident (ins (ident B) ! 1) = Suc n" using sB by (simp add: measurementStart_def)
        show ?thesis
          using IH en nb Some st unfolding ex
          by (simp add: measurementEnd_def)
      qed
    next
      case no: False
      have pe: "pairsOf cur (I # BB) = pairsOf cur BB" using nb no by simp
      have p3: "\<forall>p\<in>set (pairsOf cur BB).
           \<exists>n. ins (ident (fst p)) = measurementStart n (fst p) \<and>
               ins (ident (snd p)) = measurementEnd n (snd p)"
        using Cons.prems(3) pe by simp
      have p4: "\<forall>J\<in>set BB. if J \<in> set (MarkersToRemove (pairsOf cur BB)) then ident J \<in> R
                      else ins (ident J) = [] \<and> ident J \<notin> R"
        using Cons.prems(4) pe by simp
      note IH = Cons.IH[OF d c p3 p4]
      have un: "I \<notin> set (MarkersToRemove (pairsOf cur (I # BB)))" using InC pe by simp
      from IH nb no show ?thesis unfolding unchanged[OF un] by (cases cur) simp_all
    qed
  qed
qed

section \<open>CpuCycleCount: a function and its measured form\<close>

lemma pairsOf_sentinel:
  assumes "\<forall>B. cur = Some B \<longrightarrow> isSentinel B"
  shows "\<forall>m\<in>set (MarkersToRemove (pairsOf cur BB)). isSentinel m"
  using assms
proof (induction BB arbitrary: cur)
  case Nil
  show ?case by simp
next
  case (Cons I BB)
  have IH: "\<forall>m\<in>set (MarkersToRemove (pairsOf c BB)). isSentinel m"
    if "\<forall>B. c = Some B \<longrightarrow> isSentinel B" for c
    using that by (rule Cons.IH)
  have IHN: "\<forall>m\<in>set (MarkersToRemove (pairsOf None BB)). isSentinel m"
    by (rule IH) simp
  have IHC: "\<forall>m\<in>set (MarkersToRemove (pairsOf cur BB)). isSentinel m"
    using Cons.prems by (rule IH)
  show ?case
  proof (cases "isBeginSentinel I")
    case True
    then have "isSentinel I" by (simp add: isSentinel_iff)
    then have IHI: "\<forall>m\<in>set (MarkersToRemove (pairsOf (Some I) BB)). isSentinel m"
      by (intro IH) simp
    show ?thesis using True IHI IHC by (cases cur) simp_all
  next
    case nb: False
    show ?thesis
    proof (cases "isEndSentinel I")
      case True
      then have sI: "isSentinel I" by (simp add: isSentinel_iff)
      show ?thesis
      proof (cases cur)
        case None
        then show ?thesis using True nb IHN by simp
      next
        case (Some B)
        then have "isSentinel B" using Cons.prems by simp
        then show ?thesis using Some True nb IHN sI by simp
      qed
    next
      case False
      then show ?thesis using nb IHC by simp
    qed
  qed
qed

lemma collectPairs_sentinel:
  "\<forall>m\<in>set (MarkersToRemove (concat (map (pairsOf None) bbs))). isSentinel m"
proof (induction bbs)
  case Nil
  show ?case by simp
next
  case (Cons BB bbs)
  have "\<forall>m\<in>set (MarkersToRemove (pairsOf None BB)). isSentinel m"
    by (rule pairsOf_sentinel) simp
  with Cons show ?case by (simp add: ball_Un)
qed

lemma marker_of_block:
  assumes "distinct (map ident (concat bbs))" and "BB \<in> set bbs" and "I \<in> set BB"
    and "ident I \<in> ident ` set (MarkersToRemove (concat (map (pairsOf None) bbs)))"
  shows "I \<in> set (MarkersToRemove (pairsOf None BB))"
  using assms
proof (induction bbs)
  case Nil
  then show ?case by simp
next
  case (Cons B bs)
  from Cons.prems(1) have d1: "distinct (map ident B)" and d2: "distinct (map ident (concat bs))"
    and dj: "ident ` set B \<inter> ident ` set (concat bs) = {}" by auto
  have s1: "set (MarkersToRemove (pairsOf None B)) \<subseteq> set B"
    using pairsOf_markers_sub[of None B] by simp
  have s2: "set (MarkersToRemove (concat (map (pairsOf None) bs))) \<subseteq> set (concat bs)"
    by (rule collectPairs_sub)
  from Cons.prems(4) obtain m where m: "ident m = ident I"
    and mm: "m \<in> set (MarkersToRemove (pairsOf None B)) \<or>
             m \<in> set (MarkersToRemove (concat (map (pairsOf None) bs)))"
    by auto
  show ?case
  proof (cases "BB = B")
    case True
    from mm show ?thesis
    proof
      assume a: "m \<in> set (MarkersToRemove (pairsOf None B))"
      then have "m \<in> set B" using s1 by auto
      moreover have "I \<in> set B" using Cons.prems(3) True by simp
      ultimately have "m = I" using d1 m by (meson distinct_map inj_onD)
      then show ?thesis using a True by simp
    next
      assume "m \<in> set (MarkersToRemove (concat (map (pairsOf None) bs)))"
      then have "ident m \<in> ident ` set (concat bs)" using s2 by blast
      moreover have "ident I \<in> ident ` set B" using Cons.prems(3) True by blast
      ultimately show ?thesis using dj m by auto
    qed
  next
    case False
    with Cons.prems(2) have BB: "BB \<in> set bs" by simp
    then have Ic: "ident I \<in> ident ` set (concat bs)" using Cons.prems(3) by auto
    from mm show ?thesis
    proof
      assume "m \<in> set (MarkersToRemove (pairsOf None B))"
      then have "ident m \<in> ident ` set B" using s1 by blast
      then show ?thesis using Ic dj m by auto
    next
      assume "m \<in> set (MarkersToRemove (concat (map (pairsOf None) bs)))"
      then have "ident I \<in> ident ` set (MarkersToRemove (concat (map (pairsOf None) bs)))"
        using m by (metis imageI)
      from Cons.IH[OF d2 BB Cons.prems(3) this] show ?thesis .
    qed
  qed
qed

lemma distinct_block:
  "distinct (map ident (concat bbs)) \<Longrightarrow> BB \<in> set bbs \<Longrightarrow> distinct (map ident BB)"
  by (induction bbs) auto

lemma freshFor_empty: "freshFor Old (\<lambda>p. [])"
  by (simp add: freshFor_def)

lemma instrumentUnsafeBlocks_blocks:
  "blocks (fst (instrumentUnsafeBlocks F)) =
     fold removeMarker (MarkersToRemove (collectPairs (blocks F)))
       (fold insertMeasurement (collectPairs (blocks F)) (blocks F))"
  by (simp add: instrumentUnsafeBlocks_def Let_def)

lemma instrumentUnsafeBlocks_measured:
  assumes dF: "distinct (map ident (concat (blocks F)))"
    and nouse: "\<forall>S\<in>set (concat (blocks F)). isSentinel S \<longrightarrow>
                  (\<forall>I\<in>set (concat (blocks F)). InstVal (ident S) \<notin> set (operands I))"
  shows "list_all2 (measured None) (blocks F) (blocks (fst (instrumentUnsafeBlocks F)))"
proof -
  define bbs0 where "bbs0 = blocks F"
  define ps where "ps = concat (map (pairsOf None) bbs0)"
  have cp: "collectPairs bbs0 = ps" by (simp add: ps_def collectPairs_pairsOf)
  have dist: "\<forall>BB\<in>set bbs0. distinct (map ident BB)"
    using dF distinct_block unfolding bbs0_def by blast
  have sub: "set (MarkersToRemove ps) \<subseteq> set (concat bbs0)"
    unfolding ps_def by (rule collectPairs_sub)
  have dm: "distinct (map ident (MarkersToRemove ps))"
    unfolding ps_def using dF[folded bbs0_def] by (rule collectPairs_distinct)
  have emp: "\<forall>m\<in>set (MarkersToRemove ps). (\<lambda>p. []) (ident m) = []" by simp
  from fold_insertMeasurement_expand[OF dist freshFor_empty sub dm emp]
  obtain ins where
    r: "fold insertMeasurement ps (map (expand (\<lambda>p. []) {}) bbs0) = map (expand ins {}) bbs0"
    and f: "freshFor (ident ` set (concat bbs0)) ins"
    and w1: "\<forall>p\<in>set ps. \<exists>n. ins (ident (fst p)) = measurementStart n (fst p) \<and>
                             ins (ident (snd p)) = measurementEnd n (snd p)"
    and w2: "\<forall>q. q \<notin> ident ` set (MarkersToRemove ps) \<longrightarrow> ins q = []"
    by blast
  have idm: "map (expand (\<lambda>p. []) {}) bbs0 = bbs0" by (simp add: expand_id map_idI)
  have nu: "\<forall>m\<in>set (MarkersToRemove ps). \<forall>I\<in>set (concat bbs0).
              InstVal (ident m) \<notin> set (operands I)"
  proof
    fix m assume m: "m \<in> set (MarkersToRemove ps)"
    then have "isSentinel m" using collectPairs_sentinel[of bbs0] by (simp add: ps_def)
    moreover have "m \<in> set (concat bbs0)" using m sub by auto
    ultimately show "\<forall>I\<in>set (concat bbs0). InstVal (ident m) \<notin> set (operands I)"
      using nouse unfolding bbs0_def by blast
  qed
  define R where "R = ident ` set (MarkersToRemove ps)"
  have r': "fold insertMeasurement ps bbs0 = map (expand ins {}) bbs0"
    using r by (simp only: idm)
  have "blocks (fst (instrumentUnsafeBlocks F)) =
        fold removeMarker (MarkersToRemove ps) (map (expand ins {}) bbs0)"
    by (simp only: instrumentUnsafeBlocks_blocks bbs0_def[symmetric] cp r')
  also have "\<dots> = map (expand ins ({} \<union> ident ` set (MarkersToRemove ps))) bbs0"
    using f sub nu by (rule fold_removeMarker_expand)
  finally have res: "blocks (fst (instrumentUnsafeBlocks F)) = map (expand ins R) bbs0"
    by (simp add: R_def)
  have each: "measured None BB (expand ins R BB)" if BB: "BB \<in> set bbs0" for BB
  proof -
    have a1: "distinct (map ident BB)" using dist BB by simp
    have a2: "\<forall>B. None = Some B \<longrightarrow> ident B \<notin> ident ` set BB" by simp
    have a3: "\<forall>p\<in>set (pairsOf None BB). \<exists>n. ins (ident (fst p)) = measurementStart n (fst p) \<and>
                                       ins (ident (snd p)) = measurementEnd n (snd p)"
    proof
      fix p assume "p \<in> set (pairsOf None BB)"
      then have "p \<in> set ps" using BB unfolding ps_def by auto
      then show "\<exists>n. ins (ident (fst p)) = measurementStart n (fst p) \<and>
                    ins (ident (snd p)) = measurementEnd n (snd p)"
        by (rule bspec[OF w1])
    qed
    have a4: "\<forall>I\<in>set BB. if I \<in> set (MarkersToRemove (pairsOf None BB)) then ident I \<in> R
                      else ins (ident I) = [] \<and> ident I \<notin> R"
    proof
      fix I assume I: "I \<in> set BB"
      show "if I \<in> set (MarkersToRemove (pairsOf None BB)) then ident I \<in> R
            else ins (ident I) = [] \<and> ident I \<notin> R"
      proof (cases "I \<in> set (MarkersToRemove (pairsOf None BB))")
        case True
        then have "I \<in> set (MarkersToRemove ps)" using BB by (auto simp: ps_def MarkersToRemove_def)
        then show ?thesis using True by (simp add: R_def)
      next
        case False
        have "ident I \<notin> R"
        proof
          assume "ident I \<in> R"
          then have "ident I \<in> ident ` set (MarkersToRemove (concat (map (pairsOf None) bbs0)))"
            unfolding R_def ps_def .
          from marker_of_block[OF dF[folded bbs0_def] BB I this] False show False by simp
        qed
        then show ?thesis using False w2 by (simp add: R_def)
      qed
    qed
    from measured_expand[OF a1 a2 a3 a4] show ?thesis by simp
  qed
  show ?thesis
    unfolding res bbs0_def[symmetric]
    using each by (simp add: list_all2_map2 list_all2_same)
qed

section \<open>CpuCycleCount: balanced blocks lose every sentinel\<close>

lemma balanced_open_end: "balanced True BB \<Longrightarrow> list_ex isEndSentinel BB"
  by (induction BB) (auto split: if_splits)

lemma CreateFence_not_sentinel [simp]: "\<not> isSentinel (CreateFence n dl ord)"
  by (simp add: isSentinel_def calledInlineAsm_def CreateFence_def isCallBase_def)

lemma CreateCall_function_not_sentinel [simp]:
  "\<not> isSentinel (CreateCall n dl (CalledFunction name) args)"
  by (simp add: isSentinel_def calledInlineAsm_def CreateCall_def)

lemma measured_balanced:
  assumes "measured s BB out" and "balanced (s \<noteq> None) BB"
  shows "filter isSentinel out = []"
  using assms
proof (induction BB arbitrary: s out)
  case Nil
  then show ?case by simp
next
  case (Cons I BB)
  show ?case
  proof (cases "isBeginSentinel I")
    case bg: True
    with Cons.prems(2) have s: "s = None" and b: "balanced True BB" by auto
    have le: "list_ex isEndSentinel BB" using b by (rule balanced_open_end)
    from Cons.prems(1) bg s le obtain f c rest where o: "out = f # c # rest"
      and f: "f = CreateFence (ident f) (debugLoc I) SequentiallyConsistent"
      and c: "c = CreateCall (ident c) (debugLoc I)
                    (CalledFunction ''cpu_cycle_start_measurement'') []"
      and m: "measured (Some (ident c)) BB rest"
      by (auto split: list.splits)
    have "filter isSentinel rest = []" using Cons.IH[OF m] b by simp
    moreover have "\<not> isSentinel f" by (subst f) simp
    moreover have "\<not> isSentinel c" by (subst c) simp
    ultimately show ?thesis using o by simp
  next
    case nb: False
    show ?thesis
    proof (cases "isEndSentinel I")
      case en: True
      with nb Cons.prems(2) have s: "s \<noteq> None" and b: "balanced False BB" by auto
      from Cons.prems(1) nb en s obtain f c rest where o: "out = f # c # rest"
        and f: "f = CreateFence (ident f) (debugLoc I) SequentiallyConsistent"
        and c: "c = CreateCall (ident c) (debugLoc I)
                      (CalledFunction ''cpu_cycle_end_measurement'') [InstVal (the s)]"
        and m: "measured None BB rest"
        by (auto split: list.splits)
      have "filter isSentinel rest = []" using Cons.IH[OF m] b by simp
      moreover have "\<not> isSentinel f" by (subst f) simp
      moreover have "\<not> isSentinel c" by (subst c) simp
      ultimately show ?thesis using o by simp
    next
      case no: False
      with nb Cons.prems(2) have b: "balanced (s \<noteq> None) BB" by simp
      from Cons.prems(1) nb no obtain rest where o: "out = I # rest"
        and m: "measured s BB rest"
        by (auto split: list.splits)
      have "filter isSentinel rest = []" using Cons.IH[OF m b] .
      moreover have "\<not> isSentinel I" using nb no by (simp add: isSentinel_iff)
      ultimately show ?thesis using o by simp
    qed
  qed
qed

section \<open>CpuCycleCount: the module after the pass\<close>

lemma instrumentUnsafeBlocks_declaration:
  "blocks F = [] \<Longrightarrow> instrumentUnsafeBlocks F = (F, False)"
  by (simp add: instrumentUnsafeBlocks_def collectPairs_def)

lemma CC_instrumentFunctions_map:
  "fst (CC_instrumentFunctions Fs) = map (\<lambda>F. fst (instrumentUnsafeBlocks F)) Fs"
proof (induction Fs)
  case Nil
  show ?case by simp
next
  case (Cons F Fs)
  show ?case
    using Cons.IH instrumentUnsafeBlocks_declaration[of F]
    by (cases "instrumentUnsafeBlocks F"; cases "CC_instrumentFunctions Fs")
       (simp add: isDeclaration_def)
qed

lemma getOrInsertFunction_ext:
  "\<exists>ext. funcs (fst (getOrInsertFunction M name)) = funcs M @ ext \<and>
         (\<forall>F\<in>set ext. blocks F = [])"
proof (cases "list_ex (\<lambda>F. fname F = name) (funcs M) \<or> list_ex (\<lambda>G. gv_name G = name) (globals M)")
  case True
  then have "funcs (fst (getOrInsertFunction M name)) = funcs M @ []"
    by (auto simp: getOrInsertFunction_def)
  then show ?thesis by (intro exI[of _ "[]"]) simp
next
  case False
  then have "funcs (fst (getOrInsertFunction M name)) = funcs M @ [declareFunction name]"
    by (auto simp: getOrInsertFunction_def)
  then show ?thesis by (intro exI[of _ "[declareFunction name]"]) (simp add: declareFunction_def)
qed

lemma CC_setupRuntimeFunctions_ext:
  "\<exists>ext. funcs (fst (CC_setupRuntimeFunctions M)) = funcs M @ ext \<and>
         (\<forall>F\<in>set ext. blocks F = [])"
proof -
  define M1 where "M1 = fst (getOrInsertFunction M PROGRAM_START_FN)"
  define M2 where "M2 = fst (getOrInsertFunction M1 START_MEASUREMENT_FN)"
  define M3 where "M3 = fst (getOrInsertFunction M2 END_MEASUREMENT_FN)"
  define M4 where "M4 = fst (getOrInsertFunction M3 PRINT_STATS_FN)"
  have r: "fst (CC_setupRuntimeFunctions M) = M4"
    by (simp add: CC_setupRuntimeFunctions_def M1_def M2_def M3_def M4_def split: prod.splits)
  obtain e1 where 1: "funcs M1 = funcs M @ e1" "\<forall>F\<in>set e1. blocks F = []"
    using getOrInsertFunction_ext[of M PROGRAM_START_FN] unfolding M1_def by blast
  obtain e2 where 2: "funcs M2 = funcs M1 @ e2" "\<forall>F\<in>set e2. blocks F = []"
    using getOrInsertFunction_ext[of M1 START_MEASUREMENT_FN] unfolding M2_def by blast
  obtain e3 where 3: "funcs M3 = funcs M2 @ e3" "\<forall>F\<in>set e3. blocks F = []"
    using getOrInsertFunction_ext[of M2 END_MEASUREMENT_FN] unfolding M3_def by blast
  obtain e4 where 4: "funcs M4 = funcs M3 @ e4" "\<forall>F\<in>set e4. blocks F = []"
    using getOrInsertFunction_ext[of M3 PRINT_STATS_FN] unfolding M4_def by blast
  have "funcs M4 = funcs M @ (e1 @ e2 @ e3 @ e4)" using 1(1) 2(1) 3(1) 4(1) by simp
  moreover have "\<forall>F\<in>set (e1 @ e2 @ e3 @ e4). blocks F = []"
    using 1(2) 2(2) 3(2) 4(2) by auto
  ultimately show ?thesis unfolding r by blast
qed

lemma cpu_cycle_ctor_plain:
  "fst (instrumentUnsafeBlocks (cpu_cycle_ctor CtorName)) = cpu_cycle_ctor CtorName"
  "filter isSentinel (concat (blocks (cpu_cycle_ctor CtorName))) = []"
  by (simp_all add: instrumentUnsafeBlocks_def collectPairs_cpu_cycle_ctor)
     (simp add: cpu_cycle_ctor_def createInternalFunction_def CreateRetVoid_def isSentinel_def
        calledInlineAsm_def CreateCall_def isCallBase_def)

lemma setupModuleHooks_funcs:
  "funcs (setupModuleHooks M b) = funcs M @ [cpu_cycle_ctor (fst (uniqueName M ''cpu_cycle_ctor''))]"
  by (simp add: setupModuleHooks_def Let_def appendToGlobalCtors_def appendToGlobalDtors_def
        split: prod.splits)

lemma CpuCycleCountPass_run_funcs:
  assumes "isPrimaryPackage env"
  shows "\<exists>ext. funcs (fst (CpuCycleCountPass_run env M)) =
           map (\<lambda>F. fst (instrumentUnsafeBlocks F)) (funcs M) @ ext \<and>
           (\<forall>F\<in>set ext. filter isSentinel (concat (blocks F)) = [])"
proof -
  define M1 where "M1 = fst (CC_setupRuntimeFunctions M)"
  define b where "b = snd (CC_setupRuntimeFunctions M)"
  define M2 where "M2 = setupModuleHooks M1 b"
  have r: "funcs (fst (CpuCycleCountPass_run env M)) = fst (CC_instrumentFunctions (funcs M2))"
    using assms
    by (simp add: CpuCycleCountPass_run_def M1_def b_def M2_def Let_def split: prod.splits)
  obtain e where e: "funcs M1 = funcs M @ e" "\<forall>F\<in>set e. blocks F = []"
    using CC_setupRuntimeFunctions_ext[of M] unfolding M1_def by blast
  define Ctor where "Ctor = cpu_cycle_ctor (fst (uniqueName M1 ''cpu_cycle_ctor''))"
  have f2: "funcs M2 = funcs M @ e @ [Ctor]"
    by (simp add: M2_def setupModuleHooks_funcs e(1) Ctor_def)
  have cp: "fst (instrumentUnsafeBlocks Ctor) = Ctor"
    "filter isSentinel (concat (blocks Ctor)) = []"
    unfolding Ctor_def by (rule cpu_cycle_ctor_plain)+
  have me: "map (\<lambda>F. fst (instrumentUnsafeBlocks F)) e = e"
    using e(2) by (intro map_idI) (simp add: instrumentUnsafeBlocks_declaration)
  have "funcs (fst (CpuCycleCountPass_run env M)) =
        map (\<lambda>F. fst (instrumentUnsafeBlocks F)) (funcs M) @ (e @ [Ctor])"
    by (simp add: r CC_instrumentFunctions_map f2 me cp(1))
  moreover have "\<forall>F\<in>set (e @ [Ctor]). filter isSentinel (concat (blocks F)) = []"
    using e(2) cp(2) by auto
  ultimately show ?thesis by blast
qed

lemma measured_blocks_balanced:
  assumes "list_all2 (measured None) bbs bbs'" and "\<forall>BB\<in>set bbs. balanced False BB"
  shows "filter isSentinel (concat bbs') = []"
  using assms
proof (induction rule: list_all2_induct)
  case Nil
  show ?case by simp
next
  case (Cons BB bbs out bbs')
  have "filter isSentinel out = []"
    using measured_balanced[OF Cons.hyps(1)] Cons.prems by simp
  moreover have "filter isSentinel (concat bbs') = []" using Cons.IH Cons.prems by simp
  ultimately show ?case by simp
qed

text \<open>
  Claim C5, as the code has it. On a primary build, for a module whose functions have
  instructions of distinct identities and in which no instruction uses the value of a
  sentinel (a sentinel is a call of type void): every block of every function of the
  module is in the relation \<open>measured\<close> with its block after the pass. So at the place
  of each matched pair, a begin sentinel and the next end sentinel of the same block,
  stand a sequentially consistent fence and the call of \<open>cpu_cycle_start_measurement\<close>,
  and a fence and the call of \<open>cpu_cycle_end_measurement\<close> on the value of that start
  call; everything else stays, the sentinels outside a pair included. When in every
  block the sentinels alternate strictly, begin first and end last, no sentinel remains
  in the module.
\<close>

theorem C5_marker_extinction:
  assumes primary: "isPrimaryPackage env"
    and dist: "\<forall>F\<in>set (funcs M). distinct (map ident (concat (blocks F)))"
    and nouse: "\<forall>F\<in>set (funcs M). \<forall>S\<in>set (concat (blocks F)). isSentinel S \<longrightarrow>
                  (\<forall>I\<in>set (concat (blocks F)). InstVal (ident S) \<notin> set (operands I))"
  shows "list_all2 (\<lambda>F F'. list_all2 (measured None) (blocks F) (blocks F'))
           (funcs M) (take (length (funcs M)) (funcs (fst (CpuCycleCountPass_run env M)))) \<and>
         ((\<forall>F\<in>set (funcs M). \<forall>BB\<in>set (blocks F). balanced False BB) \<longrightarrow>
            sentinelsOf (fst (CpuCycleCountPass_run env M)) = [])"
proof -
  define g where "g = (\<lambda>F. fst (instrumentUnsafeBlocks F))"
  from CpuCycleCountPass_run_funcs[OF primary, of M] obtain ext where
    r: "funcs (fst (CpuCycleCountPass_run env M)) = map g (funcs M) @ ext"
    and x: "\<forall>F\<in>set ext. filter isSentinel (concat (blocks F)) = []"
    unfolding g_def by blast
  have each: "list_all2 (measured None) (blocks F) (blocks (g F))" if "F \<in> set (funcs M)" for F
    unfolding g_def using dist nouse that by (intro instrumentUnsafeBlocks_measured) auto
  have tk: "take (length (funcs M)) (funcs (fst (CpuCycleCountPass_run env M))) = map g (funcs M)"
    by (simp add: r)
  have p1: "list_all2 (\<lambda>F F'. list_all2 (measured None) (blocks F) (blocks F'))
           (funcs M) (take (length (funcs M)) (funcs (fst (CpuCycleCountPass_run env M))))"
    unfolding tk using each by (simp add: list_all2_map2 list_all2_same)
  have p2: "sentinelsOf (fst (CpuCycleCountPass_run env M)) = []"
    if bal: "\<forall>F\<in>set (funcs M). \<forall>BB\<in>set (blocks F). balanced False BB"
  proof -
    have "filter isSentinel (concat (blocks (g F))) = []" if F: "F \<in> set (funcs M)" for F
      using measured_blocks_balanced[OF each[OF F]] bal F by simp
    then have "\<forall>F'\<in>set (map g (funcs M) @ ext). filter isSentinel (concat (blocks F')) = []"
      using x by auto
    then show ?thesis unfolding sentinelsOf_def r by simp
  qed
  from p1 p2 show ?thesis by blast
qed

text \<open>
  The first half of claim C5 fails as stated: a begin sentinel with no end sentinel
  after it in its block is in no pair, and the third pass erases the markers of the
  pairs only. In \<open>leakModule\<close> the begin sentinel of the first block is still there
  after the pass.
\<close>

theorem C5_counterexample:
  "isPrimaryPackage (Some ''1'') \<and>
   sentinelsOf leakModule = [sentinelInst 0 ''nop # marker_begin''] \<and>
   sentinelsOf (fst (CpuCycleCountPass_run (Some ''1'') leakModule)) =
     [sentinelInst 0 ''nop # marker_begin'']"
proof -
  have s: "filter isSentinel (concat (blocks leakFunc)) = [sentinelInst 0 ''nop # marker_begin'']"
    by (simp add: leakFunc_def mkFunc_def sentinelInst_def unsafeInst_def plainInst_def
          isSentinel_def calledInlineAsm_def isCallBase_def CreateCall_def
          UNSAFE_MARKER_BEGIN_def UNSAFE_MARKER_END_def)
  have p: "collectPairs (blocks leakFunc) = []"
    by (simp add: leakFunc_def mkFunc_def sentinelInst_def unsafeInst_def plainInst_def
          collectPairs_def collectBlock_def collectMarker_def calledInlineAsm_def
          isCallBase_def CreateCall_def UNSAFE_MARKER_BEGIN_def UNSAFE_MARKER_END_def)
  have g: "fst (instrumentUnsafeBlocks leakFunc) = leakFunc"
    by (simp add: instrumentUnsafeBlocks_def p)
  from CpuCycleCountPass_run_funcs[OF primary_one, of leakModule] obtain ext where
    r: "funcs (fst (CpuCycleCountPass_run (Some ''1'') leakModule)) = [leakFunc] @ ext"
    and x: "\<forall>F\<in>set ext. filter isSentinel (concat (blocks F)) = []"
    by (auto simp: leakModule_def emptyModule_def g)
  have "concat (map (\<lambda>F. filter isSentinel (concat (blocks F))) ext) = []"
    using x by simp
  then have "sentinelsOf (fst (CpuCycleCountPass_run (Some ''1'') leakModule)) =
             [sentinelInst 0 ''nop # marker_begin'']"
    unfolding sentinelsOf_def r using s by simp
  moreover have "sentinelsOf leakModule = [sentinelInst 0 ''nop # marker_begin'']"
    using s by (simp add: sentinelsOf_def leakModule_def emptyModule_def)
  ultimately show ?thesis using primary_one by simp
qed

theorem C5_marker_extinction_witness:
  "isPrimaryPackage (Some ''1'') \<and>
   list_all (\<lambda>F. distinct (map ident (concat (blocks F)))) (funcs exampleModule) \<and>
   list_all (\<lambda>F. list_all (balanced False) (blocks F)) (funcs exampleModule) \<and>
   sentinelsOf exampleModule \<noteq> [] \<and>
   list_all2 (\<lambda>F F'. list_all2 (measured None) (blocks F) (blocks F'))
     (funcs exampleModule)
     (take 4 (funcs (fst (CpuCycleCountPass_run (Some ''1'') exampleModule)))) \<and>
   sentinelsOf (fst (CpuCycleCountPass_run (Some ''1'') exampleModule)) = []"
proof -
  have d: "\<forall>F\<in>set (funcs exampleModule). distinct (map ident (concat (blocks F)))"
    by (simp add: module_example_simps)
  have u: "\<forall>F\<in>set (funcs exampleModule). \<forall>S\<in>set (concat (blocks F)). isSentinel S \<longrightarrow>
             (\<forall>I\<in>set (concat (blocks F)). InstVal (ident S) \<notin> set (operands I))"
    by (simp add: module_example_simps)
  have b: "\<forall>F\<in>set (funcs exampleModule). \<forall>BB\<in>set (blocks F). balanced False BB"
    by (simp add: module_example_simps)
  have n: "sentinelsOf exampleModule \<noteq> []"
    by (simp add: sentinelsOf_def module_example_simps isSentinel_def)
  have l: "length (funcs exampleModule) = 4"
    by (simp add: exampleModule_def emptyModule_def)
  from C5_marker_extinction[OF primary_one d u] b l
  have "list_all2 (\<lambda>F F'. list_all2 (measured None) (blocks F) (blocks F'))
     (funcs exampleModule)
     (take 4 (funcs (fst (CpuCycleCountPass_run (Some ''1'') exampleModule))))"
    and "sentinelsOf (fst (CpuCycleCountPass_run (Some ''1'') exampleModule)) = []"
    by simp_all
  with primary_one d b n show ?thesis by (simp add: list_all_iff)
qed

section \<open>ExternalCallTracker: one collected call\<close>

lemma insertBefore_absent: "\<forall>J\<in>set BB. ident J \<noteq> p \<Longrightarrow> insertBefore p new BB = BB"
  by (induction BB) auto

lemma map_insertBefore_absent:
  "\<forall>J\<in>set (concat bbs). ident J \<noteq> p \<Longrightarrow> map (insertBefore p new) bbs = bbs"
  by (induction bbs) (auto simp: insertBefore_absent)

lemma map_insertBefore_at:
  assumes "\<forall>J\<in>set (concat pre). ident J \<noteq> p" and "\<forall>J\<in>set A. ident J \<noteq> p"
    and "ident x = p" and "\<forall>J\<in>set (concat post). ident J \<noteq> p"
  shows "map (insertBefore p new) (pre @ (A @ x # B) # post) = pre @ (A @ new @ x # B) # post"
  using assms
  by (simp add: map_insertBefore_absent insertBefore_skip del: concat.simps set_concat)

lemma find_block_at:
  assumes "\<forall>J\<in>set (concat pre). ident J \<noteq> p" and "list_ex (\<lambda>J. ident J = p) cur"
  shows "find (list_ex (\<lambda>J. ident J = p)) (pre @ cur # post) = Some cur"
  using assms by (induction pre) (auto simp: list_ex_iff)

lemma getNextNonDebugInstruction_at:
  assumes "\<forall>J\<in>set (concat pre). ident J \<noteq> p" and "\<forall>J\<in>set A. ident J \<noteq> p"
    and "ident x = p"
  shows "getNextNonDebugInstruction p (pre @ (A @ x # B) # post) =
         find (\<lambda>J. \<not> dbgInfoIntrinsic J) B"
proof -
  have "list_ex (\<lambda>J. ident J = p) (A @ x # B)" using assms(3) by (simp add: list_ex_iff)
  then have f: "find (list_ex (\<lambda>J. ident J = p)) (pre @ (A @ x # B) # post) = Some (A @ x # B)"
    using assms(1) by (rule find_block_at[rotated])
  have "dropWhile (\<lambda>J. ident J \<noteq> p) (A @ x # B) = x # B"
    using assms(2,3) by (induction A) auto
  then show ?thesis by (simp add: getNextNonDebugInstruction_def f)
qed

lemma withPending_dbg:
  "dbgInfoIntrinsic J \<Longrightarrow> withPending pend (J # BB) = J # withPending pend BB"
  by (cases pend) auto

lemma withPending_none:
  "find (\<lambda>J. \<not> dbgInfoIntrinsic J) B = None \<Longrightarrow> withPending (Some n) B = B"
  by (induction B) (auto split: if_splits)

lemma withPending_some:
  assumes "find (\<lambda>J. \<not> dbgInfoIntrinsic J) B = Some N" and "distinct (map ident B)"
  shows "insertBefore (ident N) (endPair n N) B = withPending (Some n) B"
  using assms
proof (induction B)
  case Nil
  then show ?case by simp
next
  case (Cons J B)
  show ?case
  proof (cases "dbgInfoIntrinsic J")
    case True
    with Cons.prems have f: "find (\<lambda>J. \<not> dbgInfoIntrinsic J) B = Some N" by simp
    then have "N \<in> set B" by (auto simp: find_Some_iff)
    then have "ident J \<noteq> ident N" using Cons.prems(2) by auto
    then show ?thesis using True Cons.IH[OF f] Cons.prems(2) by simp
  next
    case False
    with Cons.prems have "N = J" by simp
    then show ?thesis using False by simp
  qed
qed

lemma find_in_set: "find P xs = Some y \<Longrightarrow> y \<in> set xs"
  by (auto simp: find_Some_iff)

lemma instrumentCall_terminator: "isTerminator I \<Longrightarrow> instrumentCall I st = st"
  by (cases st) (simp add: instrumentCall_def)

lemma instrumentCall_unfold:
  "\<not> isTerminator I \<Longrightarrow>
   instrumentCall I (bbs, m) =
     (case getNextNonDebugInstruction (ident I)
             (map (insertBefore (ident I) (startPair (fresh_ident bbs) I)) bbs) of
        None \<Rightarrow> (map (insertBefore (ident I) (startPair (fresh_ident bbs) I)) bbs, m)
      | Some NextInst \<Rightarrow>
          (map (insertBefore (ident NextInst) (endPair (fresh_ident bbs) NextInst))
             (map (insertBefore (ident I) (startPair (fresh_ident bbs) I)) bbs), True))"
  by (simp add: instrumentCall_def Let_def startPair_def endPair_def
        EXTERNAL_CALL_START_FN_def EXTERNAL_CALL_END_FN_def cong: option.case_cong)

lemma instrumentCall_at:
  assumes nt: "\<not> isTerminator I"
    and frp: "\<And>J x. J \<in> set (concat pre) \<Longrightarrow> x \<in> set (I # rest) \<Longrightarrow> ident J \<noteq> ident x"
    and frd: "\<And>J x. J \<in> set fin \<Longrightarrow> x \<in> set (I # rest) \<Longrightarrow> ident J \<noteq> ident x"
    and dpo: "\<And>J x. J \<in> set (concat post) \<Longrightarrow> x \<in> set (I # rest) \<Longrightarrow> ident J \<noteq> ident x"
    and d: "distinct (map ident (I # rest))"
    and n: "n = fresh_ident (pre @ (fin @ I # rest) # post)"
  shows "instrumentCall I (pre @ (fin @ I # rest) # post, m) =
         (pre @ (fin @ startPair n I @ I # withPending (Some n) rest) # post,
          m \<or> find (\<lambda>J. \<not> dbgInfoIntrinsic J) rest \<noteq> None)"
proof -
  define p where "p = ident I"
  define sp where "sp = startPair n I"
  have big: "\<And>J. J \<in> set (concat (pre @ (fin @ I # rest) # post)) \<Longrightarrow> ident J < n"
    unfolding n by (rule fresh_ident_gt)
  have a1: "\<forall>J\<in>set (concat pre). ident J \<noteq> p" using frp[of _ I] by (simp add: p_def)
  have a2: "\<forall>J\<in>set fin. ident J \<noteq> p" using frd[of _ I] by (simp add: p_def)
  have a4: "\<forall>J\<in>set (concat post). ident J \<noteq> p" using dpo[of _ I] by (simp add: p_def)
  have a5: "\<forall>J\<in>set rest. ident J \<noteq> p" using d unfolding p_def by (auto simp: image_iff)
  have dr: "distinct (map ident rest)" using d by simp
  have s1: "map (insertBefore p sp) (pre @ (fin @ I # rest) # post) =
            pre @ (fin @ sp @ I # rest) # post"
    using a1 a2 _ a4 by (rule map_insertBefore_at) (simp add: p_def)
  have In: "p < n" using big[of I] by (simp add: p_def)
  have a2': "\<forall>J\<in>set (fin @ sp). ident J \<noteq> p"
    using a2 In by (auto simp: sp_def startPair_def)
  have nx: "getNextNonDebugInstruction p (pre @ (fin @ sp @ I # rest) # post) =
            find (\<lambda>J. \<not> dbgInfoIntrinsic J) rest"
    using getNextNonDebugInstruction_at[OF a1 a2', of I rest post] by (simp add: p_def)
  have unf: "instrumentCall I (pre @ (fin @ I # rest) # post, m) =
     (case getNextNonDebugInstruction p (pre @ (fin @ sp @ I # rest) # post) of
        None \<Rightarrow> (pre @ (fin @ sp @ I # rest) # post, m)
      | Some NextInst \<Rightarrow>
          (map (insertBefore (ident NextInst) (endPair n NextInst))
             (pre @ (fin @ sp @ I # rest) # post), True))"
    by (simp only: instrumentCall_unfold[OF nt] n[symmetric] p_def[symmetric] sp_def[symmetric] s1)
  show ?thesis
  proof (cases "find (\<lambda>J. \<not> dbgInfoIntrinsic J) rest")
    case None
    then show ?thesis using unf nx by (simp add: withPending_none sp_def)
  next
    case (Some N)
    then have Nr: "N \<in> set rest" by (rule find_in_set)
    define q where "q = ident N"
    have qn: "q < n" using big[of N] Nr by (simp add: q_def)
    have b1: "\<forall>J\<in>set (concat pre). ident J \<noteq> q" using frp[of _ N] Nr by (simp add: q_def)
    have b2d: "\<forall>J\<in>set fin. ident J \<noteq> q" using frd[of _ N] Nr by (simp add: q_def)
    have b2s: "\<forall>J\<in>set sp. ident J \<noteq> q" using qn by (auto simp: sp_def startPair_def)
    have b2i: "ident I \<noteq> q" using a5 Nr unfolding q_def p_def by metis
    have b2: "\<forall>J\<in>set (fin @ sp @ [I]). ident J \<noteq> q" using b2d b2s b2i by (simp add: ball_Un)
    have b4: "\<forall>J\<in>set (concat post). ident J \<noteq> q" using dpo[of _ N] Nr by (simp add: q_def)
    have "map (insertBefore q (endPair n N)) (pre @ ((fin @ sp @ [I]) @ rest) # post) =
          pre @ ((fin @ sp @ [I]) @ insertBefore q (endPair n N) rest) # post"
      using b1 b4 insertBefore_skip[OF b2, of "endPair n N" rest]
      by (simp add: map_insertBefore_absent del: concat.simps set_concat)
    then have "map (insertBefore q (endPair n N)) (pre @ (fin @ sp @ I # rest) # post) =
          pre @ (fin @ sp @ I # withPending (Some n) rest) # post"
      using withPending_some[OF Some dr, of n] by (simp add: q_def)
    then show ?thesis using unf nx Some by (simp add: q_def sp_def)
  qed
qed

section \<open>ExternalCallTracker: the calls of a function, in order\<close>

lemma distinct_append_ident:
  assumes "distinct (map ident (xs @ ys))" and "x \<in> set xs" and "y \<in> set ys"
  shows "ident x \<noteq> ident y"
proof
  assume e: "ident x = ident y"
  from assms(1) have i: "set (map ident xs) \<inter> set (map ident ys) = {}" by simp
  have "ident x \<in> set (map ident xs)" using assms(2) by simp
  moreover have "ident x \<in> set (map ident ys)" using assms(3) e by (simp add: image_iff) metis
  ultimately show False using i by blast
qed

lemma takeEnd_None [simp]: "takeEnd None I out = Some out"
  by (simp add: takeEnd_def)

lemma takeEnd_endPair [simp]: "takeEnd (Some (Suc k)) J (endPair k J @ X) = Some X"
  by (simp add: takeEnd_def endPair_def)

lemma tracked_rest_step:
  assumes nd: "\<not> dbgInfoIntrinsic J"
    and pe: "pe = (case pend of None \<Rightarrow> [] | Some k \<Rightarrow> endPair k J)"
    and t: "tracked ext None BB out'"
    and nw: "\<not> (ext J \<and> \<not> isTerminator J)"
  shows "tracked ext (map_option Suc pend) (J # BB) (pe @ J # out')"
  using nd pe t nw by (cases pend) auto

lemma tracked_call_step:
  assumes nd: "\<not> dbgInfoIntrinsic J"
    and pe: "pe = (case pend of None \<Rightarrow> [] | Some k \<Rightarrow> endPair k J)"
    and t: "tracked ext (Some (Suc n)) BB out'"
    and w: "ext J" "\<not> isTerminator J"
  shows "tracked ext (map_option Suc pend) (J # BB) (pe @ startPair n J @ J # out')"
  using nd pe t w by (cases pend) (auto simp: startPair_def)

lemma withPending_Cons:
  "\<not> dbgInfoIntrinsic J \<Longrightarrow>
   withPending pend (J # BB) = (case pend of None \<Rightarrow> [] | Some k \<Rightarrow> endPair k J) @ J # BB"
  by (cases pend) auto

lemma withPending_Nil [simp]: "withPending pend [] = []"
  by (cases pend) auto

lemma fold_instrumentCall_block:
  assumes Q: "\<And>pre' m0. (\<And>J x. J \<in> set (concat pre') \<Longrightarrow> x \<in> set (concat post) \<Longrightarrow>
                              ident J \<noteq> ident x) \<Longrightarrow>
              \<exists>outs m'. fold instrumentCall (filter ext (concat post)) (pre' @ post, m0) =
                           (pre' @ outs, m') \<and> list_all2 (tracked ext None) post outs"
    and d: "distinct (map ident (BB @ concat post))"
    and frp: "\<And>J x. J \<in> set (concat pre) \<Longrightarrow> x \<in> set (BB @ concat post) \<Longrightarrow>
                ident J \<noteq> ident x"
    and frd: "\<And>J x. J \<in> set done \<Longrightarrow> x \<in> set (BB @ concat post) \<Longrightarrow> ident J \<noteq> ident x"
    and pk: "\<And>k x. pend = Some k \<Longrightarrow> x \<in> set (BB @ concat post) \<Longrightarrow> ident x < k"
    and nd: "\<And>J. J \<in> set BB \<Longrightarrow> dbgInfoIntrinsic J \<Longrightarrow> \<not> ext J"
  shows "\<exists>out outs m'.
           fold instrumentCall (filter ext BB @ filter ext (concat post))
             (pre @ (done @ withPending pend BB) # post, m) = (pre @ (done @ out) # outs, m') \<and>
           tracked ext (map_option Suc pend) BB out \<and> list_all2 (tracked ext None) post outs"
  using d frp frd pk nd
proof (induction BB arbitrary: "done" pend m)
  case Nil
  have "\<And>J x. J \<in> set (concat (pre @ [done])) \<Longrightarrow> x \<in> set (concat post) \<Longrightarrow>
          ident J \<noteq> ident x"
  proof -
    fix J x assume J: "J \<in> set (concat (pre @ [done]))" and x: "x \<in> set (concat post)"
    from J have "J \<in> set (concat pre) \<or> J \<in> set done" by auto
    then show "ident J \<noteq> ident x"
    proof
      assume "J \<in> set (concat pre)"
      then show ?thesis using Nil.prems(2)[of J x] x by simp
    next
      assume "J \<in> set done"
      then show ?thesis using Nil.prems(3)[of J x] x by simp
    qed
  qed
  from Q[of "pre @ [done]" m, OF this] obtain outs m' where
    f: "fold instrumentCall (filter ext (concat post)) ((pre @ [done]) @ post, m) =
          ((pre @ [done]) @ outs, m')"
    and l: "list_all2 (tracked ext None) post outs" by blast
  from f have "fold instrumentCall (filter ext [] @ filter ext (concat post))
             (pre @ (done @ withPending pend []) # post, m) = (pre @ (done @ []) # outs, m')"
    by simp
  with l show ?case by (intro exI[of _ "[]"] exI[of _ outs] exI[of _ m']) simp
next
  case (Cons J BB)
  note d = Cons.prems(1) and frp = Cons.prems(2) and frd = Cons.prems(3)
    and pk = Cons.prems(4) and nd = Cons.prems(5)
  have d': "distinct (map ident (BB @ concat post))" using d by simp
  have Jn: "\<And>x. x \<in> set (BB @ concat post) \<Longrightarrow> ident J \<noteq> ident x"
  proof -
    fix x assume x: "x \<in> set (BB @ concat post)"
    have "distinct (map ident ([J] @ (BB @ concat post)))" using d by simp
    from distinct_append_ident[OF this _ x, of J] show "ident J \<noteq> ident x" by simp
  qed
  have sub': "\<And>x. x \<in> set (BB @ concat post) \<Longrightarrow> x \<in> set ((J # BB) @ concat post)"
    by auto
  have frp': "\<And>K x. K \<in> set (concat pre) \<Longrightarrow> x \<in> set (BB @ concat post) \<Longrightarrow>
                ident K \<noteq> ident x"
    using frp[OF _ sub'] .
  have nd': "\<And>K. K \<in> set BB \<Longrightarrow> dbgInfoIntrinsic K \<Longrightarrow> \<not> ext K" using nd by simp
  show ?case
  proof (cases "dbgInfoIntrinsic J")
    case True
    then have nx: "\<not> ext J" using nd[of J] by simp
    have frd': "\<And>K x. K \<in> set (done @ [J]) \<Longrightarrow> x \<in> set (BB @ concat post) \<Longrightarrow>
                  ident K \<noteq> ident x"
    proof -
      fix K x assume K: "K \<in> set (done @ [J])" and x: "x \<in> set (BB @ concat post)"
      from K have "K \<in> set done \<or> K = J" by auto
      then show "ident K \<noteq> ident x"
      proof
        assume "K \<in> set done"
        then show ?thesis using frd[OF _ sub'[OF x]] by simp
      next
        assume "K = J"
        then show ?thesis using Jn[OF x] by simp
      qed
    qed
    have pk': "\<And>k x. pend = Some k \<Longrightarrow> x \<in> set (BB @ concat post) \<Longrightarrow> ident x < k"
      using pk[OF _ sub'] .
    from Cons.IH[of "done @ [J]" pend m, OF d' frp' frd' pk' nd'] obtain out' outs m' where
      f: "fold instrumentCall (filter ext BB @ filter ext (concat post))
            (pre @ ((done @ [J]) @ withPending pend BB) # post, m) =
            (pre @ ((done @ [J]) @ out') # outs, m')"
      and t: "tracked ext (map_option Suc pend) BB out'"
      and l: "list_all2 (tracked ext None) post outs" by blast
    have "fold instrumentCall (filter ext (J # BB) @ filter ext (concat post))
            (pre @ (done @ withPending pend (J # BB)) # post, m) =
            (pre @ (done @ J # out') # outs, m')"
      using f nx by (simp add: withPending_dbg[OF True])
    moreover have "tracked ext (map_option Suc pend) (J # BB) (J # out')"
      using True t by simp
    ultimately show ?thesis using l by blast
  next
    case False
    define pe where "pe = (case pend of None \<Rightarrow> [] | Some k \<Rightarrow> endPair k J)"
    have wp: "withPending pend (J # BB) = pe @ J # BB"
      unfolding pe_def using False by (rule withPending_Cons)
    have pe_id: "\<And>K x. K \<in> set pe \<Longrightarrow> x \<in> set ((J # BB) @ concat post) \<Longrightarrow>
                   ident K \<noteq> ident x"
    proof -
      fix K x assume K: "K \<in> set pe" and x: "x \<in> set ((J # BB) @ concat post)"
      show "ident K \<noteq> ident x"
      proof (cases pend)
        case None
        with K show ?thesis by (simp add: pe_def)
      next
        case (Some k)
        from pk[OF Some x] have "ident x < k" .
        moreover from K Some have "ident K = k + 2 \<or> ident K = k + 3"
          by (auto simp: pe_def endPair_def)
        ultimately show ?thesis by auto
      qed
    qed
    have frd1: "\<And>K x. K \<in> set (done @ pe) \<Longrightarrow> x \<in> set ((J # BB) @ concat post) \<Longrightarrow>
                  ident K \<noteq> ident x"
    proof -
      fix K x assume K: "K \<in> set (done @ pe)" and x: "x \<in> set ((J # BB) @ concat post)"
      from K have "K \<in> set done \<or> K \<in> set pe" by auto
      then show "ident K \<noteq> ident x"
      proof
        assume "K \<in> set done"
        then show ?thesis using frd[OF _ x] by simp
      next
        assume "K \<in> set pe"
        then show ?thesis using pe_id[OF _ x] by simp
      qed
    qed
    show ?thesis
    proof (cases "ext J \<and> \<not> isTerminator J")
      case w: True
      define cur where "cur = pre @ ((done @ pe) @ J # BB) # post"
      define n where "n = fresh_ident cur"
      have big: "\<And>x. x \<in> set (concat cur) \<Longrightarrow> ident x < n"
        unfolding n_def by (rule fresh_ident_gt)
      have sub: "\<And>x. x \<in> set (J # BB) \<Longrightarrow> x \<in> set ((J # BB) @ concat post)" by auto
      have a1: "\<And>K x. K \<in> set (concat pre) \<Longrightarrow> x \<in> set (J # BB) \<Longrightarrow> ident K \<noteq> ident x"
        using frp[OF _ sub] .
      have a2: "\<And>K x. K \<in> set (done @ pe) \<Longrightarrow> x \<in> set (J # BB) \<Longrightarrow> ident K \<noteq> ident x"
        using frd1[OF _ sub] .
      have a3: "\<And>K x. K \<in> set (concat post) \<Longrightarrow> x \<in> set (J # BB) \<Longrightarrow> ident K \<noteq> ident x"
      proof -
        fix K x assume K: "K \<in> set (concat post)" and x: "x \<in> set (J # BB)"
        have "distinct (map ident ((J # BB) @ concat post))" using d by simp
        from distinct_append_ident[OF this x K] show "ident K \<noteq> ident x" by simp
      qed
      have a4: "distinct (map ident (J # BB))" using d by simp
      from instrumentCall_at[where I=J and pre=pre and fin="done @ pe" and rest=BB and post=post
          and n=n and m=m, OF _ a1 a2 a3 a4] w
      have st: "instrumentCall J (cur, m) =
          (pre @ ((done @ pe) @ startPair n J @ J # withPending (Some n) BB) # post,
           m \<or> find (\<lambda>J. \<not> dbgInfoIntrinsic J) BB \<noteq> None)"
        by (simp add: cur_def n_def)
      define m2 where "m2 = (m \<or> find (\<lambda>J. \<not> dbgInfoIntrinsic J) BB \<noteq> None)"
      define done2 where "done2 = done @ pe @ startPair n J @ [J]"
      have frd2: "\<And>K x. K \<in> set done2 \<Longrightarrow> x \<in> set (BB @ concat post) \<Longrightarrow>
                    ident K \<noteq> ident x"
      proof -
        fix K x assume K: "K \<in> set done2" and x: "x \<in> set (BB @ concat post)"
        have xc: "x \<in> set (concat cur)" using x by (auto simp: cur_def)
        have x': "x \<in> set ((J # BB) @ concat post)" using x by auto
        from K have "K \<in> set (done @ pe) \<or> K \<in> set (startPair n J) \<or> K = J"
          by (auto simp: done2_def)
        then show "ident K \<noteq> ident x"
        proof (elim disjE)
          assume "K \<in> set (done @ pe)"
          then show ?thesis using frd1[OF _ x'] by simp
        next
          assume "K \<in> set (startPair n J)"
          then have "ident K = n \<or> ident K = n + 1" by (auto simp: startPair_def)
          then show ?thesis using big[OF xc] by auto
        next
          assume "K = J"
          then show ?thesis using Jn[OF x] by simp
        qed
      qed
      have pk2: "\<And>k x. Some n = Some k \<Longrightarrow> x \<in> set (BB @ concat post) \<Longrightarrow> ident x < k"
      proof -
        fix k x assume "Some n = Some k" and x: "x \<in> set (BB @ concat post)"
        then have "k = n" by simp
        moreover have "x \<in> set (concat cur)" using x by (auto simp: cur_def)
        ultimately show "ident x < k" using big by simp
      qed
      from Cons.IH[of done2 "Some n" m2, OF d' frp' frd2 pk2 nd'] obtain out' outs m' where
        f: "fold instrumentCall (filter ext BB @ filter ext (concat post))
              (pre @ (done2 @ withPending (Some n) BB) # post, m2) =
              (pre @ (done2 @ out') # outs, m')"
        and t: "tracked ext (map_option Suc (Some n)) BB out'"
        and l: "list_all2 (tracked ext None) post outs" by blast
      have "fold instrumentCall (filter ext (J # BB) @ filter ext (concat post))
              (pre @ (done @ withPending pend (J # BB)) # post, m) =
            fold instrumentCall (filter ext BB @ filter ext (concat post))
              (instrumentCall J (cur, m))"
        using w by (simp add: wp cur_def)
      also have "\<dots> = (pre @ (done2 @ out') # outs, m')"
        using f by (simp add: st done2_def m2_def)
      finally have "fold instrumentCall (filter ext (J # BB) @ filter ext (concat post))
              (pre @ (done @ withPending pend (J # BB)) # post, m) =
            (pre @ (done @ (pe @ startPair n J @ J # out')) # outs, m')"
        by (simp add: done2_def)
      moreover have "tracked ext (map_option Suc pend) (J # BB) (pe @ startPair n J @ J # out')"
        using False pe_def _ w[THEN conjunct1] w[THEN conjunct2]
        by (rule tracked_call_step) (use t in simp)
      ultimately show ?thesis using l by blast
    next
      case nw: False
      define done2 where "done2 = done @ pe @ [J]"
      have frd2: "\<And>K x. K \<in> set done2 \<Longrightarrow> x \<in> set (BB @ concat post) \<Longrightarrow>
                    ident K \<noteq> ident x"
      proof -
        fix K x assume K: "K \<in> set done2" and x: "x \<in> set (BB @ concat post)"
        have x': "x \<in> set ((J # BB) @ concat post)" using x by auto
        from K have "K \<in> set (done @ pe) \<or> K = J" by (auto simp: done2_def)
        then show "ident K \<noteq> ident x"
        proof
          assume "K \<in> set (done @ pe)"
          then show ?thesis using frd1[OF _ x'] by simp
        next
          assume "K = J"
          then show ?thesis using Jn[OF x] by simp
        qed
      qed
      have pk2: "\<And>k x. (None :: nat option) = Some k \<Longrightarrow> x \<in> set (BB @ concat post) \<Longrightarrow>
                   ident x < k" by simp
      from Cons.IH[of done2 None m, OF d' frp' frd2 pk2 nd'] obtain out' outs m' where
        f: "fold instrumentCall (filter ext BB @ filter ext (concat post))
              (pre @ (done2 @ withPending None BB) # post, m) =
              (pre @ (done2 @ out') # outs, m')"
        and t: "tracked ext (map_option Suc None) BB out'"
        and l: "list_all2 (tracked ext None) post outs" by blast
      have "fold instrumentCall (filter ext (J # BB) @ filter ext (concat post))
              (pre @ (done @ withPending pend (J # BB)) # post, m) =
            (pre @ (done @ (pe @ J # out')) # outs, m')"
      proof (cases "ext J")
        case True
        then have "isTerminator J" using nw by simp
        then show ?thesis using f True by (simp add: wp done2_def instrumentCall_terminator)
      next
        case False
        then show ?thesis using f by (simp add: wp done2_def)
      qed
      moreover have "tracked ext (map_option Suc pend) (J # BB) (pe @ J # out')"
        using False pe_def _ nw by (rule tracked_rest_step) (use t in simp)
      ultimately show ?thesis using l by blast
    qed
  qed
qed

lemma fold_instrumentCall_blocks:
  assumes "distinct (map ident (concat bbs))"
    and "\<And>J x. J \<in> set (concat pre) \<Longrightarrow> x \<in> set (concat bbs) \<Longrightarrow> ident J \<noteq> ident x"
    and "\<And>J. J \<in> set (concat bbs) \<Longrightarrow> dbgInfoIntrinsic J \<Longrightarrow> \<not> ext J"
  shows "\<exists>outs m'. fold instrumentCall (filter ext (concat bbs)) (pre @ bbs, m) = (pre @ outs, m') \<and>
           list_all2 (tracked ext None) bbs outs"
  using assms
proof (induction bbs arbitrary: pre m)
  case Nil
  show ?case by simp
next
  case (Cons BB bbs)
  have d2: "distinct (map ident (concat bbs))" using Cons.prems(1) by simp
  have nd2: "\<And>J. J \<in> set (concat bbs) \<Longrightarrow> dbgInfoIntrinsic J \<Longrightarrow> \<not> ext J"
    using Cons.prems(3) by simp
  have Q: "\<And>pre' m0. (\<And>J x. J \<in> set (concat pre') \<Longrightarrow> x \<in> set (concat bbs) \<Longrightarrow>
                              ident J \<noteq> ident x) \<Longrightarrow>
              \<exists>outs m'. fold instrumentCall (filter ext (concat bbs)) (pre' @ bbs, m0) =
                           (pre' @ outs, m') \<and> list_all2 (tracked ext None) bbs outs"
    using Cons.IH[OF d2 _ nd2] by blast
  have d: "distinct (map ident (BB @ concat bbs))" using Cons.prems(1) by simp
  have frp: "\<And>J x. J \<in> set (concat pre) \<Longrightarrow> x \<in> set (BB @ concat bbs) \<Longrightarrow>
                ident J \<noteq> ident x"
    using Cons.prems(2) by simp
  have frd: "\<And>J x. J \<in> set [] \<Longrightarrow> x \<in> set (BB @ concat bbs) \<Longrightarrow> ident J \<noteq> ident x"
    by simp
  have pk: "\<And>k x. (None :: nat option) = Some k \<Longrightarrow> x \<in> set (BB @ concat bbs) \<Longrightarrow> ident x < k"
    by simp
  have nd: "\<And>J. J \<in> set BB \<Longrightarrow> dbgInfoIntrinsic J \<Longrightarrow> \<not> ext J" using Cons.prems(3) by simp
  from fold_instrumentCall_block[of bbs ext BB pre "[]" None m, OF Q d frp frd pk nd]
  obtain out outs m' where
    f: "fold instrumentCall (filter ext BB @ filter ext (concat bbs))
             (pre @ ([] @ withPending None BB) # bbs, m) = (pre @ ([] @ out) # outs, m')"
    and t: "tracked ext (map_option Suc None) BB out"
    and l: "list_all2 (tracked ext None) bbs outs" by blast
  from f have "fold instrumentCall (filter ext (concat (BB # bbs))) (pre @ BB # bbs, m) =
               (pre @ (out # outs), m')" by simp
  moreover have "list_all2 (tracked ext None) (BB # bbs) (out # outs)" using t l by simp
  ultimately show ?case by blast
qed

section \<open>ExternalCallTracker: a function and the module\<close>

lemma fold_instrumentCall_length:
  "length (fst (fold instrumentCall Cs (bbs, m))) = length bbs"
proof (induction Cs arbitrary: bbs m)
  case Nil
  show ?case by simp
next
  case (Cons I Cs)
  obtain bbs1 m1 where s: "instrumentCall I (bbs, m) = (bbs1, m1)"
    by (cases "instrumentCall I (bbs, m)") auto
  have "length bbs1 = length bbs"
    using s by (auto simp: instrumentCall_def Let_def split: if_splits option.splits)
  with Cons.IH[of bbs1 m1] s show ?case by simp
qed

lemma instrumentExternalCalls_fields:
  "fname (fst (instrumentExternalCalls M F)) = fname F"
  "isIntrinsic (fst (instrumentExternalCalls M F)) = isIntrinsic F"
  "length (blocks (fst (instrumentExternalCalls M F))) = length (blocks F)"
  "fst (instrumentExternalCalls M F) = F\<lparr> blocks := blocks (fst (instrumentExternalCalls M F)) \<rparr>"
proof -
  obtain bbs m where f: "fold instrumentCall (CallsToInstrument M (blocks F)) (blocks F, False) = (bbs, m)"
    by (cases "fold instrumentCall (CallsToInstrument M (blocks F)) (blocks F, False)") auto
  have l: "length bbs = length (blocks F)"
    using fold_instrumentCall_length[of "CallsToInstrument M (blocks F)" "blocks F" False] f by simp
  show "fname (fst (instrumentExternalCalls M F)) = fname F"
    "isIntrinsic (fst (instrumentExternalCalls M F)) = isIntrinsic F"
    "length (blocks (fst (instrumentExternalCalls M F))) = length (blocks F)"
    "fst (instrumentExternalCalls M F) = F\<lparr> blocks := blocks (fst (instrumentExternalCalls M F)) \<rparr>"
    using f l by (simp_all add: instrumentExternalCalls_def Let_def)
qed

lemma instrumentExternalCalls_signature:
  "funcSignature (fst (instrumentExternalCalls M F)) = funcSignature F"
proof -
  have "(blocks (fst (instrumentExternalCalls M F)) = []) = (blocks F = [])"
    using instrumentExternalCalls_fields(3)[of M F] by (metis length_0_conv)
  then show ?thesis
    using instrumentExternalCalls_fields(1,2)[of M F]
    by (simp add: funcSignature_def isDeclaration_def)
qed

lemma instrumentExternalCalls_tracked:
  assumes d: "distinct (map ident (concat (blocks F)))"
    and nd: "\<And>J. J \<in> set (concat (blocks F)) \<Longrightarrow> dbgInfoIntrinsic J \<Longrightarrow> \<not> isExternalCall M J"
  shows "list_all2 (tracked (isExternalCall M) None) (blocks F)
           (blocks (fst (instrumentExternalCalls M F)))"
proof -
  have e: "\<And>J x. J \<in> set (concat []) \<Longrightarrow> x \<in> set (concat (blocks F)) \<Longrightarrow> ident J \<noteq> ident x"
    by simp
  from fold_instrumentCall_blocks[of "blocks F" "[]" "isExternalCall M" False, OF d e nd]
  obtain outs m' where
    f: "fold instrumentCall (filter (isExternalCall M) (concat (blocks F))) (blocks F, False) =
          (outs, m')"
    and l: "list_all2 (tracked (isExternalCall M) None) (blocks F) outs" by auto
  have "blocks (fst (instrumentExternalCalls M F)) = outs"
  proof (cases "CallsToInstrument M (blocks F) = []")
    case True
    then have "outs = blocks F" using f by (simp add: CallsToInstrument_def)
    with True show ?thesis by (simp add: instrumentExternalCalls_def)
  next
    case False
    then show ?thesis using f by (simp add: instrumentExternalCalls_def CallsToInstrument_def)
  qed
  with l show ?thesis by simp
qed

lemma find_signature:
  assumes "map funcSignature Fs = map funcSignature Fs'"
  shows "map_option funcSignature (find (\<lambda>G. fname G = name) Fs) =
         map_option funcSignature (find (\<lambda>G. fname G = name) Fs')"
  using assms
proof (induction Fs arbitrary: Fs')
  case Nil
  then show ?case by simp
next
  case (Cons F Fs)
  then obtain F' Fs2 where s: "Fs' = F' # Fs2" "funcSignature F = funcSignature F'"
    "map funcSignature Fs = map funcSignature Fs2" by (cases Fs') auto
  from s(2) have "fname F = fname F'" by (simp add: funcSignature_def)
  with Cons.IH[OF s(3)] s show ?case by simp
qed

lemma isExternalCall_signature:
  "isExternalCall M I =
     (case map_option funcSignature (getCalledFunction M I) of
        None \<Rightarrow> False
      | Some (Name, decl, intr) \<Rightarrow> decl \<and> \<not> intr \<and> \<not> isRuntimeFunction Name)"
  by (auto simp: isExternalCall_def funcSignature_def split: option.splits)

lemma isExternalCall_cong:
  assumes "map funcSignature (funcs M) = map funcSignature (funcs M')"
  shows "isExternalCall M = isExternalCall M'"
proof
  fix I
  have "map_option funcSignature (getCalledFunction M I) =
        map_option funcSignature (getCalledFunction M' I)"
    using find_signature[OF assms]
    by (simp add: getCalledFunction_def split: option.splits called_operand.splits)
  then show "isExternalCall M I = isExternalCall M' I"
    by (simp only: isExternalCall_signature)
qed

lemma instrumentExternalCalls_cong:
  "isExternalCall M = isExternalCall M' \<Longrightarrow>
   instrumentExternalCalls M F = instrumentExternalCalls M' F"
  by (simp add: instrumentExternalCalls_def CallsToInstrument_def)

lemma isExternalCall_not_runtime:
  assumes "called I = Some (CalledFunction name)" and "isRuntimeFunction name"
  shows "\<not> isExternalCall M I"
proof
  assume e: "isExternalCall M I"
  then obtain G where g: "getCalledFunction M I = Some G" and n: "\<not> isRuntimeFunction (fname G)"
    by (auto simp: isExternalCall_def split: option.splits if_splits)
  from g assms(1) have "find (\<lambda>G. fname G = name) (funcs M) = Some G"
    by (simp add: getCalledFunction_def split: if_splits)
  then have "fname G = name" by (auto simp: find_Some_iff)
  with n assms(2) show False by simp
qed

lemma trackExternalCalls_signature:
  "funcSignature (trackExternalCalls M F) = funcSignature F"
  by (simp add: trackExternalCalls_def instrumentExternalCalls_signature)

lemma ECT_visitFunction_funcs:
  assumes k: "k < length (funcs N)" and e: "isExternalCall N = isExternalCall M"
  shows "\<exists>m'. ECT_visitFunction k (N, m) =
           (N\<lparr> funcs := (funcs N)[k := trackExternalCalls M (funcs N ! k)] \<rparr>, m')"
proof -
  define F where "F = funcs N ! k"
  have c: "instrumentExternalCalls N F = instrumentExternalCalls M F"
    using e by (rule instrumentExternalCalls_cong)
  show ?thesis
  proof (cases "isDeclaration F \<or> isRuntimeFunction (fname F)")
    case True
    then have "trackExternalCalls M F = F" by (simp add: trackExternalCalls_def)
    then have "(funcs N)[k := trackExternalCalls M (funcs N ! k)] = funcs N"
      by (simp add: F_def)
    moreover have "ECT_visitFunction k (N, m) = (N, m)"
      using True by (auto simp: ECT_visitFunction_def Let_def F_def)
    ultimately show ?thesis by simp
  next
    case False
    then have t: "trackExternalCalls M F = fst (instrumentExternalCalls M F)"
      by (simp add: trackExternalCalls_def)
    obtain F' m1 where i: "instrumentExternalCalls N F = (F', m1)"
      by (cases "instrumentExternalCalls N F") auto
    have "ECT_visitFunction k (N, m) = (N\<lparr> funcs := (funcs N)[k := F'] \<rparr>, m \<or> m1)"
      using False i by (simp add: ECT_visitFunction_def Let_def F_def)
    moreover have "F' = trackExternalCalls M (funcs N ! k)"
    proof -
      have "F' = fst (instrumentExternalCalls N F)" using i by simp
      then show ?thesis using t c by (simp add: F_def)
    qed
    ultimately show ?thesis by simp
  qed
qed

lemma ECT_loop:
  assumes "k \<le> length (funcs M)"
  shows "\<exists>m. fold ECT_visitFunction [0..<k] (M, False) =
           (M\<lparr> funcs := map (trackExternalCalls M) (take k (funcs M)) @ drop k (funcs M) \<rparr>, m)"
  using assms
proof (induction k)
  case 0
  show ?case by (intro exI[of _ False]) simp
next
  case (Suc k)
  define Fs where "Fs = funcs M"
  define Fk where "Fk = map (trackExternalCalls M) (take k Fs) @ drop k Fs"
  define N where "N = M\<lparr> funcs := Fk \<rparr>"
  from Suc.prems have k: "k < length Fs" by (simp add: Fs_def)
  from Suc.IH k obtain m where
    f: "fold ECT_visitFunction [0..<k] (M, False) = (N, m)"
    by (auto simp: N_def Fk_def Fs_def)
  have lk: "length (map (trackExternalCalls M) (take k Fs)) = k" using k by simp
  have len: "k < length (funcs N)" using k by (simp add: N_def Fk_def)
  have nth: "funcs N ! k = Fs ! k"
    using k lk by (simp add: N_def Fk_def nth_append)
  have "map funcSignature Fk = map funcSignature (take k Fs) @ map funcSignature (drop k Fs)"
    by (simp add: Fk_def trackExternalCalls_signature)
  also have "\<dots> = map funcSignature Fs"
    by (simp only: map_append[symmetric] append_take_drop_id)
  finally have "map funcSignature (funcs N) = map funcSignature (funcs M)"
    by (simp add: N_def Fs_def)
  then have e: "isExternalCall N = isExternalCall M" by (rule isExternalCall_cong)
  from ECT_visitFunction_funcs[OF len e, of m] obtain m' where
    v: "ECT_visitFunction k (N, m) =
          (N\<lparr> funcs := (funcs N)[k := trackExternalCalls M (funcs N ! k)] \<rparr>, m')" by blast
  have dr: "drop k Fs = Fs ! k # drop (Suc k) Fs" using k by (simp add: Cons_nth_drop_Suc)
  have upd: "(funcs N)[k := z] = map (trackExternalCalls M) (take k Fs) @ (z # drop (Suc k) Fs)"
    for z
    using lk by (simp add: N_def Fk_def dr list_update_append)
  have "(funcs N)[k := trackExternalCalls M (funcs N ! k)] =
        map (trackExternalCalls M) (take k Fs) @
          (trackExternalCalls M (Fs ! k) # drop (Suc k) Fs)"
    by (simp only: upd nth)
  also have "\<dots> = map (trackExternalCalls M) (take (Suc k) Fs) @ drop (Suc k) Fs"
    using k by (simp add: take_Suc_conv_app_nth)
  finally have u: "(funcs N)[k := trackExternalCalls M (funcs N ! k)] =
        map (trackExternalCalls M) (take (Suc k) Fs) @ drop (Suc k) Fs" .
  have "fold ECT_visitFunction [0..<Suc k] (M, False) = ECT_visitFunction k (N, m)"
    using f by simp
  also have "\<dots> = (M\<lparr> funcs := map (trackExternalCalls M) (take (Suc k) Fs) @ drop (Suc k) Fs \<rparr>, m')"
    unfolding v u by (simp add: N_def)
  finally show ?case unfolding Fs_def by blast
qed

lemma fname_declareFunction: "fname (declareFunction name) = name"
  by (simp add: declareFunction_def)

lemma find_append_single:
  "find P (xs @ [d]) =
     (case find P xs of Some y \<Rightarrow> Some y | None \<Rightarrow> if P d then Some d else None)"
  by (induction xs) auto

lemma isExternalCall_getOrInsertFunction:
  assumes "isRuntimeFunction name"
  shows "isExternalCall (fst (getOrInsertFunction M name)) = isExternalCall M"
proof (cases "list_ex (\<lambda>F. fname F = name) (funcs M) \<or> list_ex (\<lambda>G. gv_name G = name) (globals M)")
  case True
  then have "fst (getOrInsertFunction M name) = M" by (auto simp: getOrInsertFunction_def)
  then show ?thesis by simp
next
  case False
  then have ff: "funcs (fst (getOrInsertFunction M name)) = funcs M @ [declareFunction name]"
    by (auto simp: getOrInsertFunction_def)
  from False have nf: "find (\<lambda>G. fname G = name) (funcs M) = None"
    by (auto simp: find_None_iff list_ex_iff)
  show ?thesis
  proof
    fix I
    show "isExternalCall (fst (getOrInsertFunction M name)) I = isExternalCall M I"
    proof (cases "isCallBase I \<and> (\<exists>nm. called I = Some (CalledFunction nm))")
      case c: True
      then obtain nm where nm: "called I = Some (CalledFunction nm)" by blast
      have fa: "find (\<lambda>G. fname G = nm) (funcs M @ [declareFunction name]) =
                (case find (\<lambda>G. fname G = nm) (funcs M) of
                   Some G \<Rightarrow> Some G
                 | None \<Rightarrow> if name = nm then Some (declareFunction name) else None)"
        by (simp add: find_append_single fname_declareFunction)
      show ?thesis
      proof (cases "find (\<lambda>G. fname G = nm) (funcs M)")
        case (Some G)
        then show ?thesis using c nm fa ff
          by (simp add: isExternalCall_def getCalledFunction_def)
      next
        case None
        show ?thesis
        proof (cases "name = nm")
          case True
          then show ?thesis using c nm fa ff None assms
            by (simp add: isExternalCall_def getCalledFunction_def declareFunction_def)
        next
          case False
          then show ?thesis using c nm fa ff None
            by (simp add: isExternalCall_def getCalledFunction_def)
        qed
      qed
    next
      case False
      then have "getCalledFunction (fst (getOrInsertFunction M name)) I = None"
        "getCalledFunction M I = None"
        by (auto simp: getCalledFunction_def split: option.splits called_operand.splits)
      then show ?thesis by (simp add: isExternalCall_def)
    qed
  qed
qed

lemma ExternalCallTrackerPass_run_funcs:
  assumes "isPrimaryPackage env"
  shows "take (length (funcs M)) (funcs (fst (ExternalCallTrackerPass_run env M))) =
         map (trackExternalCalls M) (funcs M)"
proof -
  define M1 where "M1 = fst (getOrInsertFunction M EXTERNAL_CALL_START_FN)"
  define M2 where "M2 = fst (getOrInsertFunction M1 EXTERNAL_CALL_END_FN)"
  have r1: "isRuntimeFunction EXTERNAL_CALL_START_FN" "isRuntimeFunction EXTERNAL_CALL_END_FN"
    by (simp_all add: isRuntimeFunction_def EXTERNAL_CALL_START_FN_def EXTERNAL_CALL_END_FN_def
          startswith_def)
  have e: "isExternalCall M2 = isExternalCall M"
    unfolding M2_def M1_def
    by (simp only: isExternalCall_getOrInsertFunction[OF r1(1)]
          isExternalCall_getOrInsertFunction[OF r1(2)])
  obtain e1 where 1: "funcs M1 = funcs M @ e1"
    using getOrInsertFunction_ext[of M EXTERNAL_CALL_START_FN] unfolding M1_def by blast
  obtain e2 where 2: "funcs M2 = funcs M1 @ e2"
    using getOrInsertFunction_ext[of M1 EXTERNAL_CALL_END_FN] unfolding M2_def by blast
  from ECT_loop[of "length (funcs M2)" M2] obtain m where
    l: "fold ECT_visitFunction [0..<length (funcs M2)] (M2, False) =
          (M2\<lparr> funcs := map (trackExternalCalls M2) (funcs M2) \<rparr>, m)" by auto
  have t: "trackExternalCalls M2 = trackExternalCalls M"
    by (simp add: trackExternalCalls_def fun_eq_iff instrumentExternalCalls_cong[OF e])
  have run: "ExternalCallTrackerPass_run env M =
      (case fold ECT_visitFunction [0..<length (funcs M2)] (M2, False) of
         (M3, Modified) \<Rightarrow> (M3, if Modified then PreservedNone else PreservedAll))"
    using assms by (simp add: ExternalCallTrackerPass_run_def split_beta M1_def M2_def)
  have "funcs (fst (ExternalCallTrackerPass_run env M)) = map (trackExternalCalls M) (funcs M2)"
    by (simp add: run l t)
  then show ?thesis by (simp add: 1 2)
qed

text \<open>
  Claim C2, as the code has it. On a primary build, for a module whose functions have
  instructions of distinct identities and whose debug intrinsics are no external
  calls: a declaration and a function whose name begins with \<open>cpu_cycle_\<close>, \<open>record_\<close>
  or \<open>external_call_\<close> are left as they are; every block of every other function is in
  the relation \<open>tracked\<close> with its block after the pass, so that the calls wrapped are
  the calls that are no terminators and whose callee is a declaration of the module
  that is no intrinsic and has none of the three prefixes; and no call of a function
  with one of the three prefixes is among them.
\<close>

theorem C2_runtime_calls_not_wrapped:
  assumes primary: "isPrimaryPackage env"
    and dist: "\<forall>F\<in>set (funcs M). distinct (map ident (concat (blocks F)))"
    and dbg: "\<forall>F\<in>set (funcs M). \<forall>I\<in>set (concat (blocks F)).
                dbgInfoIntrinsic I \<longrightarrow> \<not> isExternalCall M I"
  shows "list_all2
           (\<lambda>F F'. if isDeclaration F \<or> isRuntimeFunction (fname F) then F' = F
                    else F' = F\<lparr> blocks := blocks F' \<rparr> \<and>
                         list_all2 (tracked (isExternalCall M) None) (blocks F) (blocks F'))
           (funcs M) (take (length (funcs M)) (funcs (fst (ExternalCallTrackerPass_run env M)))) \<and>
         (\<forall>I name. called I = Some (CalledFunction name) \<and> isRuntimeFunction name \<longrightarrow>
                    \<not> isExternalCall M I)"
proof -
  have each: "if isDeclaration F \<or> isRuntimeFunction (fname F) then trackExternalCalls M F = F
              else trackExternalCalls M F = F\<lparr> blocks := blocks (trackExternalCalls M F) \<rparr> \<and>
                   list_all2 (tracked (isExternalCall M) None) (blocks F)
                     (blocks (trackExternalCalls M F))"
    if F: "F \<in> set (funcs M)" for F
  proof (cases "isDeclaration F \<or> isRuntimeFunction (fname F)")
    case True
    then show ?thesis by (simp add: trackExternalCalls_def)
  next
    case False
    have d: "distinct (map ident (concat (blocks F)))" using dist F by blast
    have nd: "\<And>J. J \<in> set (concat (blocks F)) \<Longrightarrow> dbgInfoIntrinsic J \<Longrightarrow>
                \<not> isExternalCall M J" using dbg F by blast
    have t: "trackExternalCalls M F = fst (instrumentExternalCalls M F)"
      using False by (simp add: trackExternalCalls_def)
    show ?thesis
      using False instrumentExternalCalls_tracked[OF d nd] instrumentExternalCalls_fields(4)[of M F]
      unfolding t by simp
  qed
  have "list_all2
           (\<lambda>F F'. if isDeclaration F \<or> isRuntimeFunction (fname F) then F' = F
                    else F' = F\<lparr> blocks := blocks F' \<rparr> \<and>
                         list_all2 (tracked (isExternalCall M) None) (blocks F) (blocks F'))
           (funcs M) (map (trackExternalCalls M) (funcs M))"
    unfolding list_all2_map2 list_all2_same using each by blast
  then have p1: "list_all2
           (\<lambda>F F'. if isDeclaration F \<or> isRuntimeFunction (fname F) then F' = F
                    else F' = F\<lparr> blocks := blocks F' \<rparr> \<and>
                         list_all2 (tracked (isExternalCall M) None) (blocks F) (blocks F'))
           (funcs M) (take (length (funcs M)) (funcs (fst (ExternalCallTrackerPass_run env M))))"
    by (simp only: ExternalCallTrackerPass_run_funcs[OF primary])
  have p2: "\<forall>I name. called I = Some (CalledFunction name) \<and> isRuntimeFunction name \<longrightarrow>
                    \<not> isExternalCall M I"
    using isExternalCall_not_runtime by blast
  from p1 p2 show ?thesis ..
qed

lemmas tracker_example_simps =
  ExternalCallTrackerPass_run_def getOrInsertFunction_def declareFunction_def
  ECT_visitFunction_def instrumentExternalCalls_def CallsToInstrument_def isExternalCall_def
  getCalledFunction_def isRuntimeFunction_def startswith_def instrumentCall_def
  getNextNonDebugInstruction_def fresh_ident_def isDeclaration_def isTerminator_def
  isCallBase_def EXTERNAL_CALL_START_FN_def EXTERNAL_CALL_END_FN_def
  emptyModule_def mkFunc_def callInst_def plainInst_def CreateCall_def CreateFence_def
  isPrimaryPackage_def Let_def

text \<open>
  Claim C2 fails as stated: \<open>isRuntimeFunction\<close> knows the prefixes \<open>cpu_cycle_\<close>,
  \<open>record_\<close> and \<open>external_call_\<close> only. The call of the declared helper
  \<open>dyn_mem_access\<close> in \<open>dynMemModule\<close> is wrapped like any call of an external function.
\<close>

theorem C2_counterexample:
  "isPrimaryPackage (Some ''1'') \<and> startswith ''dyn_mem_access'' ''dyn_mem_'' \<and>
   map blocks (funcs (fst (ExternalCallTrackerPass_run (Some ''1'') dynMemModule))) =
     [[],
      [[CreateFence 2 None SequentiallyConsistent,
        callInst 3 ''external_call_start'',
        callInst 0 ''dyn_mem_access'',
        CreateFence 4 None SequentiallyConsistent,
        CreateCall 5 None (CalledFunction ''external_call_end'') [InstVal 3],
        plainInst 1 Ret]],
      [], []]"
  by (simp add: dynMemModule_def tracker_example_simps eval_nat_numeral)

theorem C2_runtime_calls_not_wrapped_witness:
  "isPrimaryPackage (Some ''1'') \<and>
   list_all (\<lambda>F. distinct (map ident (concat (blocks F)))) (funcs helperModule) \<and>
   list_all (\<lambda>F. list_all (\<lambda>I. \<not> dbgInfoIntrinsic I) (concat (blocks F))) (funcs helperModule) \<and>
   list_all2
     (\<lambda>F F'. if isDeclaration F \<or> isRuntimeFunction (fname F) then F' = F
              else F' = F\<lparr> blocks := blocks F' \<rparr> \<and>
                   list_all2 (tracked (isExternalCall helperModule) None) (blocks F) (blocks F'))
     (funcs helperModule)
     (take 4 (funcs (fst (ExternalCallTrackerPass_run (Some ''1'') helperModule)))) \<and>
   isExternalCall helperModule (callInst 2 ''memcpy'') \<and>
   \<not> isExternalCall helperModule (callInst 1 ''record_program_start'')"
proof -
  have d: "\<forall>F\<in>set (funcs helperModule). distinct (map ident (concat (blocks F)))"
    by (simp add: helperModule_def emptyModule_def mkFunc_def declareFunction_def callInst_def
          plainInst_def CreateCall_def)
  have n: "\<forall>F\<in>set (funcs helperModule). \<forall>I\<in>set (concat (blocks F)). \<not> dbgInfoIntrinsic I"
    by (simp add: helperModule_def emptyModule_def mkFunc_def declareFunction_def callInst_def
          plainInst_def CreateCall_def)
  then have g: "\<forall>F\<in>set (funcs helperModule). \<forall>I\<in>set (concat (blocks F)).
                dbgInfoIntrinsic I \<longrightarrow> \<not> isExternalCall helperModule I" by blast
  have l: "length (funcs helperModule) = 4" by (simp add: helperModule_def emptyModule_def)
  have c: "called (callInst 1 ''record_program_start'') =
             Some (CalledFunction ''record_program_start'') \<and>
           isRuntimeFunction ''record_program_start''"
    by (simp add: callInst_def CreateCall_def isRuntimeFunction_def startswith_def)
  have m: "isExternalCall helperModule (callInst 2 ''memcpy'')"
    by (simp add: helperModule_def tracker_example_simps)
  note res = C2_runtime_calls_not_wrapped[OF primary_one d g]
  from res[THEN conjunct2, rule_format, OF c] res[THEN conjunct1] l primary_one d n m
  show ?thesis by (simp add: list_all_iff)
qed

section \<open>The selector and the two passes that do not read it\<close>

lemma selector_gates:
  assumes "\<not> isPrimaryPackage env"
  shows "InstMarkerPass_run env F = Some (F, PreservedAll)"
    and "UnsafeInstCounterPass_run env F = Some (F, PreservedAll)"
    and "UnsafeFunctionTrackerPass_run env M = Some (M, PreservedAll)"
    and "CpuCycleCountPass_run env M = (M, PreservedAll)"
    and "ExternalCallTrackerPass_run env M = (M, PreservedAll)"
  using assms
  by (simp_all add: InstMarkerPass_run_def UnsafeInstCounterPass_run_def
        UnsafeFunctionTrackerPass_run_def CpuCycleCountPass_run_def
        ExternalCallTrackerPass_run_def)

lemma verifyPHINodes_loop_noop:
  assumes "distinct (map ident (pre @ rest))"
  shows "verifyPHINodes_loop rest
           (pre @ rest, (case rest of [] \<Rightarrow> None | I # r \<Rightarrow> Some I), Modified) =
         Some (pre @ rest, Modified)"
  using assms
proof (induction rest arbitrary: pre)
  case Nil
  show ?case by simp
next
  case (Cons PN rest)
  have d: "distinct (map ident ((pre @ [PN]) @ rest))" using Cons.prems by simp
  have nx: "getNextNode (ident PN) (pre @ PN # rest) =
              (case rest of [] \<Rightarrow> None | I # r \<Rightarrow> Some I)"
    using Cons.prems by (induction pre) (auto split: list.splits)
  show ?case
    using Cons.IH[OF d] by (simp add: nx)
qed

lemma verifyPHINodes_noop:
  assumes "distinct (map ident BB)"
  shows "verifyPHINodes BB = Some (BB, False)"
  using verifyPHINodes_loop_noop[where pre="[]" and rest=BB and Modified=False] assms by (simp add: verifyPHINodes_def)

lemma verifyBlocks_noop:
  assumes "\<forall>BB\<in>set bbs. distinct (map ident BB)"
  shows "verifyBlocks bbs = Some (bbs, False)"
  using assms by (induction bbs) (simp_all add: verifyPHINodes_noop)

lemma reorderPHIs_noop:
  assumes "\<forall>F\<in>set Fs. \<forall>BB\<in>set (blocks F). distinct (map ident BB)"
  shows "reorderPHIs Fs = Some (Fs, False)"
  using assms by (induction Fs) (simp_all add: verifyBlocks_noop)

lemma DebugInfoPreserver_always_adds:
  assumes "\<forall>F\<in>set (funcs M). \<forall>BB\<in>set (blocks F). distinct (map ident BB)"
  shows "\<exists>M'. DebugInfoPreserverPass_run M = Some (M', PreservedAll) \<and>
              length (globals M') = Suc (length (globals M)) \<and> M' \<noteq> M"
proof -
  obtain AnchorName LastUnique where
    u: "uniqueName M ''__unsafe_coverage_anchor'' = (AnchorName, LastUnique)"
    by (cases "uniqueName M ''__unsafe_coverage_anchor''")
  have "\<exists>M'. DebugInfoPreserverPass_run M = Some (M', PreservedAll) \<and>
              length (globals M') = Suc (length (globals M))"
    unfolding DebugInfoPreserverPass_run_def reorderPHIs_noop[OF assms]
    by (simp add: u Let_def appendToCompilerUsed_def)
  then show ?thesis by auto
qed

text \<open>
  C1 (every pass leaves the module unchanged and reports no change unless
  \<open>CARGO_PRIMARY_PACKAGE\<close> is \<open>1\<close>). The passes that read the variable do so,
  \<open>selector_gates\<close>. \<open>DebugInfoPreserverPass::run\<close> does not read it: on a module of one
  function, with the variable unset, it adds the variable \<open>__unsafe_coverage_anchor\<close>,
  enters it into \<open>llvm.compiler.used\<close>, and reports all analyses preserved.
\<close>

theorem C1_anchor_added_when_not_primary:
  "\<not> isPrimaryPackage None \<and>
   DebugInfoPreserverPass_run plainModule =
     Some (plainModule\<lparr> globals := [coverage_anchor ''__unsafe_coverage_anchor''],
                        compiler_used := [''__unsafe_coverage_anchor''] \<rparr>,
           PreservedAll) \<and>
   plainModule\<lparr> globals := [coverage_anchor ''__unsafe_coverage_anchor''],
                compiler_used := [''__unsafe_coverage_anchor''] \<rparr> \<noteq> plainModule"
  by (simp add: DebugInfoPreserverPass_run_def plainModule_def emptyModule_def mkFunc_def
        plainInst_def isDeclaration_def verifyPHINodes_def uniqueName_def takenNames_def
        MetadataRefs_def appendToCompilerUsed_def coverage_anchor_def isPrimaryPackage_def
        Let_def)

end
